(* ===== verification/Prelude.thy ===== *)
theory Prelude
  imports Main "HOL-Library.Word" "HOL-Library.Multiset"
begin

unbundle bit_operations_syntax

text \<open>
  Shared vocabulary of the development: the machine integer types of the C sources, byte
  strings as the C library sees them, and the list and word facts the components share.
  Sizes of type \<^verbatim>\<open>size_t\<close> are natural numbers; \<open>sz\<close> writes out the wrap-around
  modulo \<open>2 ^ 64\<close> at every arithmetic operation that the source does not guard.
\<close>

named_theorems agim_simps \<open>facts the component proofs rewrite with\<close>
named_theorems inv_intros \<open>invariant preservation, one rule per operation\<close>

type_synonym u8 = "8 word"
type_synonym u16 = "16 word"
type_synonym u32 = "32 word"
type_synonym u64 = "64 word"

subsection \<open>Sizes\<close>

definition size_max :: nat where
  "size_max = 2 ^ 64 - 1"

definition sz :: "nat \<Rightarrow> nat" where
  "sz n = n mod 2 ^ 64"

lemma sz_id [simp]: "n \<le> size_max \<Longrightarrow> sz n = n"
  by (simp add: sz_def size_max_def)

lemma sz_le [simp]: "sz n \<le> size_max"
proof -
  have "n mod 2 ^ 64 < (2 ^ 64 :: nat)" by (rule mod_less_divisor) simp
  then show ?thesis by (simp add: sz_def size_max_def)
qed

text \<open>
  The doubling loop that the growing buffers of the sources share,
  \<^verbatim>\<open>while (cap < needed) { if (cap > SIZE_MAX / 2) return false; cap *= 2; }\<close>.
  \<open>None\<close> is the early \<^verbatim>\<open>return false\<close>. No buffer of the sources has capacity 0;
  there the C loop would not end, and the model gives \<open>None\<close>.
\<close>

function double_until :: "nat \<Rightarrow> nat \<Rightarrow> nat option" where
  "double_until cap needed =
     (if needed \<le> cap then Some cap
      else if cap = 0 \<or> size_max div 2 < cap then None
      else double_until (2 * cap) needed)"
  by pat_completeness auto
termination
  by (relation "measure (\<lambda>(cap, needed). needed - cap)") auto

declare double_until.simps [simp del]

lemma double_until_enough [simp]: "needed \<le> cap \<Longrightarrow> double_until cap needed = Some cap"
  by (subst double_until.simps) simp

lemma double_until_ge:
  "double_until cap needed = Some c \<Longrightarrow> needed \<le> c \<and> cap \<le> c"
proof (induction cap needed rule: double_until.induct)
  case (1 cap needed)
  show ?case
  proof (cases "needed \<le> cap")
    case True
    with "1.prems" show ?thesis by simp
  next
    case False
    with "1.prems" have *: "\<not> (cap = 0 \<or> size_max div 2 < cap)"
      and "double_until (2 * cap) needed = Some c"
      by (auto simp: double_until.simps [of cap needed] split: if_splits)
    with "1.IH" [OF False *] show ?thesis by simp
  qed
qed

lemma double_until_le_max:
  "double_until cap needed = Some c \<Longrightarrow> cap \<le> size_max \<Longrightarrow> c \<le> size_max"
proof (induction cap needed rule: double_until.induct)
  case (1 cap needed)
  show ?case
  proof (cases "needed \<le> cap")
    case True
    with "1.prems" show ?thesis by simp
  next
    case False
    with "1.prems" have *: "\<not> (cap = 0 \<or> size_max div 2 < cap)"
      and d: "double_until (2 * cap) needed = Some c"
      by (auto simp: double_until.simps [of cap needed] split: if_splits)
    have "2 * cap \<le> size_max" using * by (simp add: size_max_def)
    with "1.IH" [OF False *] d show ?thesis by simp
  qed
qed

text \<open>Up to half of the address space the loop always succeeds.\<close>

lemma double_until_Some:
  "0 < cap \<Longrightarrow> needed \<le> 2 ^ 63 \<Longrightarrow> \<exists>c. double_until cap needed = Some c"
proof (induction cap needed rule: double_until.induct)
  case (1 cap needed)
  show ?case
  proof (cases "needed \<le> cap")
    case True
    then show ?thesis by simp
  next
    case False
    with "1.prems" have *: "\<not> (cap = 0 \<or> size_max div 2 < cap)"
      by (simp add: size_max_def)
    with "1.IH" [OF False *] "1.prems" False show ?thesis
      by (simp add: double_until.simps [of cap needed])
  qed
qed

text \<open>A non-empty buffer at least doubles when it grows.\<close>

lemma double_until_grows:
  assumes "double_until cap needed = Some c" and "cap < needed"
  shows "2 * cap \<le> c"
proof -
  from assms have "double_until (2 * cap) needed = Some c"
    by (simp add: double_until.simps [of cap needed] split: if_splits)
  then show ?thesis using double_until_ge by blast
qed

subsection \<open>C strings\<close>

abbreviation NUL :: char where
  "NUL \<equiv> CHR 0x00"

text \<open>
  What \<^verbatim>\<open>strlen\<close>, \<^verbatim>\<open>strcmp\<close> and \<^verbatim>\<open>strstr\<close> see of a byte array: the bytes
  before the first zero byte. The end of the HOL list stands for the terminator.
\<close>

definition cstr :: "string \<Rightarrow> string" where
  "cstr s = takeWhile (\<lambda>c. c \<noteq> NUL) s"

definition strlen :: "string \<Rightarrow> nat" where
  "strlen s = length (cstr s)"

definition nul_free :: "string \<Rightarrow> bool" where
  "nul_free s \<longleftrightarrow> NUL \<notin> set s"

lemma cstr_id [simp]: "nul_free s \<Longrightarrow> cstr s = s"
  by (auto simp: cstr_def nul_free_def takeWhile_eq_all_conv)

lemma nul_free_cstr [simp]: "nul_free (cstr s)"
  unfolding nul_free_def cstr_def by (auto dest: set_takeWhileD)

lemma cstr_idem [simp]: "cstr (cstr s) = cstr s"
  by simp

subsection \<open>Lists\<close>

text \<open>Deletion by moving the last element into the hole, the removal idiom of the runtime.\<close>

definition swap_remove :: "nat \<Rightarrow> 'a list \<Rightarrow> 'a list" where
  "swap_remove i xs = butlast (xs[i := last xs])"

lemma length_swap_remove [simp]: "length (swap_remove i xs) = length xs - 1"
  by (simp add: swap_remove_def)

fun find_index :: "('a \<Rightarrow> bool) \<Rightarrow> 'a list \<Rightarrow> nat option" where
  "find_index P [] = None"
| "find_index P (x # xs) = (if P x then Some 0 else map_option Suc (find_index P xs))"

lemma find_index_Some:
  "find_index P xs = Some i \<longleftrightarrow> i < length xs \<and> P (xs ! i) \<and> (\<forall>j < i. \<not> P (xs ! j))"
proof (induction xs arbitrary: i)
  case Nil
  then show ?case by simp
next
  case (Cons x xs)
  show ?case
  proof (cases i)
    case 0
    then show ?thesis by auto
  next
    case (Suc k)
    then show ?thesis using Cons.IH [of k]
      by (auto simp: less_Suc_eq_0_disj)
  qed
qed

lemma find_index_None: "find_index P xs = None \<longleftrightarrow> (\<forall>x \<in> set xs. \<not> P x)"
  by (induction xs) auto

lemma mset_swap_remove:
  assumes "i < length xs"
  shows "mset (xs ! i # swap_remove i xs) = mset xs"
proof -
  let ?ys = "xs[i := last xs]"
  have ne: "?ys \<noteq> []" using assms by auto
  have l: "last ?ys = last xs"
    using assms by (cases xs rule: rev_cases) (auto simp: list_update_append split: nat.splits)
  have "mset ?ys = mset (butlast ?ys @ [last ?ys])"
    using append_butlast_last_id [OF ne] by simp
  then have "mset ?ys = add_mset (last xs) (mset (butlast ?ys))"
    by (simp add: l)
  moreover have "mset ?ys = add_mset (last xs) (mset xs - {#xs ! i#})"
    using assms by (simp add: mset_update)
  ultimately have "mset (butlast ?ys) = mset xs - {#xs ! i#}" by simp
  then show ?thesis using assms by (simp add: swap_remove_def)
qed

lemma distinct_swap_remove:
  assumes "i < length xs" and "distinct xs"
  shows "distinct (xs ! i # swap_remove i xs)"
  using mset_eq_imp_distinct_iff [OF mset_swap_remove [OF assms(1)]] assms(2) by blast

lemma set_swap_remove:
  assumes "i < length xs" and "distinct xs"
  shows "set (swap_remove i xs) = set xs - {xs ! i}"
  using distinct_swap_remove [OF assms] mset_eq_setD [OF mset_swap_remove [OF assms(1)]]
  by auto

end
