(* ===== verification/Lexer.thy ===== *)
theory Lexer
  imports Prelude "HOL-Library.Char_ord"
begin

text \<open>
  The lexer of \<^verbatim>\<open>lang/lexer.c\<close> with the token types of \<^verbatim>\<open>lang/token.h\<close>. The source
  pointer with its \<^verbatim>\<open>start\<close> and \<^verbatim>\<open>current\<close> cursors is a byte string with two indices; a
  read at the end of the list reads the terminator. The operations take and return the lexer
  state. The line and column counters, of type \<^verbatim>\<open>int\<close>, are 32-bit words read as signed numbers;
  the theorem on positions bounds the source so that they do not overflow.
\<close>

subsection \<open>Tokens\<close>

datatype (plugins only: code size) TokenType =
  TOK_INT | TOK_FLOAT | TOK_STRING | TOK_TRUE | TOK_FALSE | TOK_NIL | TOK_IDENT | TOK_TOOL |
  TOK_FN | TOK_LET | TOK_MUT | TOK_CONST | TOK_IF | TOK_ELSE | TOK_FOR | TOK_WHILE | TOK_IN |
  TOK_RETURN | TOK_BREAK | TOK_CONTINUE | TOK_AND | TOK_OR | TOK_NOT | TOK_IMPORT | TOK_FROM |
  TOK_EXPORT | TOK_MATCH | TOK_OK | TOK_ERR | TOK_TRY | TOK_STRUCT | TOK_ENUM | TOK_ALIAS |
  TOK_SOME | TOK_NONE | TOK_TYPE_INT | TOK_TYPE_FLOAT | TOK_TYPE_STRING | TOK_TYPE_BOOL |
  TOK_TYPE_VOID | TOK_TYPE_BYTES | TOK_TYPE_OPTION | TOK_TYPE_RESULT | TOK_TYPE_MAP |
  TOK_TYPE_PID | TOK_PLUS | TOK_MINUS | TOK_STAR | TOK_SLASH | TOK_PERCENT | TOK_EQ | TOK_NE |
  TOK_LT | TOK_LE | TOK_GT | TOK_GE | TOK_ASSIGN | TOK_PLUS_ASSIGN | TOK_MINUS_ASSIGN |
  TOK_STAR_ASSIGN | TOK_SLASH_ASSIGN | TOK_LPAREN | TOK_RPAREN | TOK_LBRACE | TOK_RBRACE |
  TOK_LBRACKET | TOK_RBRACKET | TOK_COMMA | TOK_DOT | TOK_COLON | TOK_COLON_COLON | TOK_ARROW |
  TOK_QUESTION | TOK_RANGE | TOK_RANGE_INCL | TOK_SPREAD | TOK_AT | TOK_FAT_ARROW |
  TOK_SEMICOLON | TOK_NEWLINE | TOK_EOF | TOK_ERROR

primrec token_type_name :: "TokenType \<Rightarrow> string" where
  "token_type_name TOK_INT = ''INT''"
| "token_type_name TOK_FLOAT = ''FLOAT''"
| "token_type_name TOK_STRING = ''STRING''"
| "token_type_name TOK_TRUE = ''TRUE''"
| "token_type_name TOK_FALSE = ''FALSE''"
| "token_type_name TOK_NIL = ''NIL''"
| "token_type_name TOK_IDENT = ''IDENT''"
| "token_type_name TOK_TOOL = ''TOOL''"
| "token_type_name TOK_FN = ''FN''"
| "token_type_name TOK_LET = ''LET''"
| "token_type_name TOK_MUT = ''MUT''"
| "token_type_name TOK_CONST = ''CONST''"
| "token_type_name TOK_IF = ''IF''"
| "token_type_name TOK_ELSE = ''ELSE''"
| "token_type_name TOK_FOR = ''FOR''"
| "token_type_name TOK_WHILE = ''WHILE''"
| "token_type_name TOK_IN = ''IN''"
| "token_type_name TOK_RETURN = ''RETURN''"
| "token_type_name TOK_BREAK = ''BREAK''"
| "token_type_name TOK_CONTINUE = ''CONTINUE''"
| "token_type_name TOK_AND = ''AND''"
| "token_type_name TOK_OR = ''OR''"
| "token_type_name TOK_NOT = ''NOT''"
| "token_type_name TOK_IMPORT = ''IMPORT''"
| "token_type_name TOK_FROM = ''FROM''"
| "token_type_name TOK_EXPORT = ''EXPORT''"
| "token_type_name TOK_MATCH = ''MATCH''"
| "token_type_name TOK_OK = ''OK''"
| "token_type_name TOK_ERR = ''ERR''"
| "token_type_name TOK_TRY = ''TRY''"
| "token_type_name TOK_STRUCT = ''STRUCT''"
| "token_type_name TOK_ENUM = ''ENUM''"
| "token_type_name TOK_ALIAS = ''ALIAS''"
| "token_type_name TOK_SOME = ''SOME''"
| "token_type_name TOK_NONE = ''NONE''"
| "token_type_name TOK_TYPE_INT = ''TYPE_INT''"
| "token_type_name TOK_TYPE_FLOAT = ''TYPE_FLOAT''"
| "token_type_name TOK_TYPE_STRING = ''TYPE_STRING''"
| "token_type_name TOK_TYPE_BOOL = ''TYPE_BOOL''"
| "token_type_name TOK_TYPE_VOID = ''TYPE_VOID''"
| "token_type_name TOK_TYPE_BYTES = ''TYPE_BYTES''"
| "token_type_name TOK_TYPE_OPTION = ''TYPE_OPTION''"
| "token_type_name TOK_TYPE_RESULT = ''TYPE_RESULT''"
| "token_type_name TOK_TYPE_MAP = ''TYPE_MAP''"
| "token_type_name TOK_TYPE_PID = ''TYPE_PID''"
| "token_type_name TOK_PLUS = ''PLUS''"
| "token_type_name TOK_MINUS = ''MINUS''"
| "token_type_name TOK_STAR = ''STAR''"
| "token_type_name TOK_SLASH = ''SLASH''"
| "token_type_name TOK_PERCENT = ''PERCENT''"
| "token_type_name TOK_EQ = ''EQ''"
| "token_type_name TOK_NE = ''NE''"
| "token_type_name TOK_LT = ''LT''"
| "token_type_name TOK_LE = ''LE''"
| "token_type_name TOK_GT = ''GT''"
| "token_type_name TOK_GE = ''GE''"
| "token_type_name TOK_ASSIGN = ''ASSIGN''"
| "token_type_name TOK_PLUS_ASSIGN = ''PLUS_ASSIGN''"
| "token_type_name TOK_MINUS_ASSIGN = ''MINUS_ASSIGN''"
| "token_type_name TOK_STAR_ASSIGN = ''STAR_ASSIGN''"
| "token_type_name TOK_SLASH_ASSIGN = ''SLASH_ASSIGN''"
| "token_type_name TOK_LPAREN = ''LPAREN''"
| "token_type_name TOK_RPAREN = ''RPAREN''"
| "token_type_name TOK_LBRACE = ''LBRACE''"
| "token_type_name TOK_RBRACE = ''RBRACE''"
| "token_type_name TOK_LBRACKET = ''LBRACKET''"
| "token_type_name TOK_RBRACKET = ''RBRACKET''"
| "token_type_name TOK_COMMA = ''COMMA''"
| "token_type_name TOK_DOT = ''DOT''"
| "token_type_name TOK_COLON = ''COLON''"
| "token_type_name TOK_COLON_COLON = ''COLON_COLON''"
| "token_type_name TOK_ARROW = ''ARROW''"
| "token_type_name TOK_QUESTION = ''QUESTION''"
| "token_type_name TOK_RANGE = ''RANGE''"
| "token_type_name TOK_RANGE_INCL = ''RANGE_INCL''"
| "token_type_name TOK_SPREAD = ''SPREAD''"
| "token_type_name TOK_AT = ''AT''"
| "token_type_name TOK_FAT_ARROW = ''FAT_ARROW''"
| "token_type_name TOK_SEMICOLON = ''SEMICOLON''"
| "token_type_name TOK_NEWLINE = ''NEWLINE''"
| "token_type_name TOK_EOF = ''EOF''"
| "token_type_name TOK_ERROR = ''ERROR''"

text \<open>A token's text is a slice of the source or, for errors, a message of the lexer.\<close>

datatype tok_text = Source nat | Message string

record Token =
  tok_type :: TokenType
  tok_start :: tok_text
  tok_length :: nat
  tok_line :: u32
  tok_column :: u32

subsection \<open>Lexer state\<close>

record Lexer =
  lx_source :: string
  lx_start :: nat
  lx_current :: nat
  lx_line :: u32
  lx_column :: u32
  lx_start_column :: u32
  lx_peeked :: Token
  lx_has_peeked :: bool

definition keyword_table :: "(string \<times> TokenType) list" where
  "keyword_table =
    [(''tool'', TOK_TOOL), (''fn'', TOK_FN), (''let'', TOK_LET), (''mut'', TOK_MUT),
     (''const'', TOK_CONST), (''if'', TOK_IF), (''else'', TOK_ELSE), (''for'', TOK_FOR),
     (''while'', TOK_WHILE), (''in'', TOK_IN), (''return'', TOK_RETURN),
     (''break'', TOK_BREAK), (''continue'', TOK_CONTINUE), (''true'', TOK_TRUE),
     (''false'', TOK_FALSE), (''nil'', TOK_NIL), (''and'', TOK_AND), (''or'', TOK_OR),
     (''not'', TOK_NOT), (''import'', TOK_IMPORT), (''from'', TOK_FROM),
     (''export'', TOK_EXPORT), (''match'', TOK_MATCH), (''ok'', TOK_OK), (''err'', TOK_ERR),
     (''try'', TOK_TRY), (''struct'', TOK_STRUCT), (''enum'', TOK_ENUM),
     (''alias'', TOK_ALIAS), (''some'', TOK_SOME), (''none'', TOK_NONE),
     (''int'', TOK_TYPE_INT), (''float'', TOK_TYPE_FLOAT), (''string'', TOK_TYPE_STRING),
     (''bool'', TOK_TYPE_BOOL), (''void'', TOK_TYPE_VOID), (''bytes'', TOK_TYPE_BYTES),
     (''Option'', TOK_TYPE_OPTION), (''Result'', TOK_TYPE_RESULT), (''map'', TOK_TYPE_MAP),
     (''Pid'', TOK_TYPE_PID)]"

text \<open>\<open>lexer_new\<close> leaves the peeked token uninitialised; the model takes it as a parameter.\<close>

definition lexer_new :: "Token \<Rightarrow> string \<Rightarrow> Lexer" where
  "lexer_new junk src =
     \<lparr>lx_source = src, lx_start = 0, lx_current = 0, lx_line = 1, lx_column = 1,
      lx_start_column = 1, lx_peeked = junk, lx_has_peeked = False\<rparr>"

definition lexer_line :: "Lexer \<Rightarrow> u32" where "lexer_line lexer = lx_line lexer"

definition lexer_column :: "Lexer \<Rightarrow> u32" where "lexer_column lexer = lx_column lexer"

subsection \<open>Characters\<close>

definition char_at :: "string \<Rightarrow> nat \<Rightarrow> char" where
  "char_at s i = (if i < length s then s ! i else NUL)"

definition is_at_end :: "Lexer \<Rightarrow> bool" where
  "is_at_end lexer \<longleftrightarrow> char_at (lx_source lexer) (lx_current lexer) = NUL"

definition peek_char :: "Lexer \<Rightarrow> char" where
  "peek_char lexer = char_at (lx_source lexer) (lx_current lexer)"

definition peek_next :: "Lexer \<Rightarrow> char" where
  "peek_next lexer =
     (if is_at_end lexer then NUL else char_at (lx_source lexer) (lx_current lexer + 1))"

definition advance :: "Lexer \<Rightarrow> Lexer" where
  "advance lexer =
     lexer\<lparr>lx_current := lx_current lexer + 1, lx_column := lx_column lexer + 1\<rparr>"

definition match :: "Lexer \<Rightarrow> char \<Rightarrow> bool \<times> Lexer" where
  "match lexer expected =
     (if is_at_end lexer then (False, lexer)
      else if peek_char lexer \<noteq> expected then (False, lexer)
      else (True, lexer\<lparr>lx_current := lx_current lexer + 1, lx_column := lx_column lexer + 1\<rparr>))"

definition isdigit :: "char \<Rightarrow> bool" where
  "isdigit c \<longleftrightarrow> CHR ''0'' \<le> c \<and> c \<le> CHR ''9''"

definition is_alpha :: "char \<Rightarrow> bool" where
  "is_alpha c \<longleftrightarrow> (CHR ''a'' \<le> c \<and> c \<le> CHR ''z'') \<or> (CHR ''A'' \<le> c \<and> c \<le> CHR ''Z'')
     \<or> c = CHR ''_''"

definition is_alnum :: "char \<Rightarrow> bool" where
  "is_alnum c \<longleftrightarrow> is_alpha c \<or> isdigit c"

definition make_token :: "Lexer \<Rightarrow> TokenType \<Rightarrow> Token" where
  "make_token lexer type =
     \<lparr>tok_type = type, tok_start = Source (lx_start lexer),
      tok_length = lx_current lexer - lx_start lexer,
      tok_line = lx_line lexer, tok_column = lx_start_column lexer\<rparr>"

definition error_token :: "Lexer \<Rightarrow> string \<Rightarrow> Token" where
  "error_token lexer message =
     \<lparr>tok_type = TOK_ERROR, tok_start = Message message, tok_length = strlen message,
      tok_line = lx_line lexer, tok_column = lx_start_column lexer\<rparr>"

subsection \<open>Loops\<close>

lemma not_at_end_less: "\<not> is_at_end lexer \<Longrightarrow> lx_current lexer < length (lx_source lexer)"
  by (auto simp: is_at_end_def char_at_def split: if_splits)

text \<open>
  \<^verbatim>\<open>while (P(peek_char(lexer))) advance(lexer);\<close> for the scanning loops, none of whose tests
  accepts the terminator.
\<close>

function advance_while :: "(char \<Rightarrow> bool) \<Rightarrow> Lexer \<Rightarrow> Lexer" where
  "advance_while P lexer =
     (if \<not> is_at_end lexer \<and> P (peek_char lexer) then advance_while P (advance lexer) else lexer)"
  by pat_completeness auto
termination
  by (relation "measure (\<lambda>(P, lexer). length (lx_source lexer) - lx_current lexer)")
    (auto simp: advance_def dest!: not_at_end_less)

declare advance_while.simps [simp del]

definition newline_in_token :: "Lexer \<Rightarrow> Lexer" where
  "newline_in_token lexer =
     (if peek_char lexer = CHR 0x0A then lexer\<lparr>lx_line := lx_line lexer + 1, lx_column := 0\<rparr>
      else lexer)"

function block_comment :: "Lexer \<Rightarrow> Lexer" where
  "block_comment lexer =
     (if is_at_end lexer then lexer
      else if peek_char lexer = CHR ''*'' \<and> peek_next lexer = CHR ''/''
      then advance (advance lexer)
      else block_comment (advance (newline_in_token lexer)))"
  by pat_completeness auto
termination
  by (relation "measure (\<lambda>lexer. length (lx_source lexer) - lx_current lexer)")
    (auto simp: advance_def newline_in_token_def dest!: not_at_end_less)

declare block_comment.simps [simp del]

text \<open>What the loops keep: the source and the start of the token, and the cursor never moves back.\<close>

definition ahead :: "Lexer \<Rightarrow> Lexer \<Rightarrow> bool" where
  "ahead a b \<longleftrightarrow> lx_source b = lx_source a \<and> lx_start b = lx_start a
     \<and> lx_start_column b = lx_start_column a \<and> lx_current a \<le> lx_current b
     \<and> lx_peeked b = lx_peeked a \<and> lx_has_peeked b = lx_has_peeked a"

lemma ahead_sourceD: "ahead a b \<Longrightarrow> lx_source b = lx_source a"
  and ahead_currentD: "ahead a b \<Longrightarrow> lx_current a \<le> lx_current b"
  and ahead_startD: "ahead a b \<Longrightarrow> lx_start b = lx_start a"
  by (simp_all add: ahead_def)

lemma advance_sel [simp]:
  "lx_source (advance a) = lx_source a" "lx_current (advance a) = Suc (lx_current a)"
  "lx_start (advance a) = lx_start a" "lx_line (advance a) = lx_line a"
  "lx_column (advance a) = lx_column a + 1"
  by (simp_all add: advance_def)

lemma ahead_refl [simp]: "ahead a a"
  by (simp add: ahead_def)

lemma ahead_trans: "ahead a b \<Longrightarrow> ahead b c \<Longrightarrow> ahead a c"
  by (auto simp: ahead_def)

lemma ahead_advance [simp]: "ahead a (advance a)"
  by (simp add: ahead_def advance_def)

lemma ahead_newline [simp]: "ahead a (newline_in_token a)"
  by (simp add: ahead_def newline_in_token_def)

lemma ahead_advance_while [simp]: "ahead a (advance_while P a)"
proof (induction P a rule: advance_while.induct)
  case (1 P a)
  then show ?case
    by (subst advance_while.simps) (auto intro: ahead_trans [OF ahead_advance])
qed

lemma ahead_block_comment [simp]: "ahead a (block_comment a)"
proof (induction a rule: block_comment.induct)
  case (1 a)
  then show ?case
    by (subst block_comment.simps)
      (auto intro: ahead_trans [OF ahead_advance] ahead_trans [OF ahead_newline])
qed

lemmas loop_sel [simp] =
  ahead_advance_while [THEN ahead_sourceD] ahead_advance_while [THEN ahead_startD]
  ahead_block_comment [THEN ahead_sourceD] ahead_block_comment [THEN ahead_startD]
lemmas loop_mono =
  ahead_advance_while [THEN ahead_currentD] ahead_block_comment [THEN ahead_currentD]

definition line_comment :: "Lexer \<Rightarrow> Lexer" where
  "line_comment lexer = advance_while (\<lambda>c. c \<noteq> CHR 0x0A) lexer"

function skip_whitespace :: "Lexer \<Rightarrow> Lexer" where
  "skip_whitespace lexer =
     (let c = peek_char lexer
      in if c = CHR '' '' \<or> c = CHR 0x09 \<or> c = CHR 0x0D then skip_whitespace (advance lexer)
         else if c = CHR ''/'' then
           (if peek_next lexer = CHR ''/'' then skip_whitespace (line_comment lexer)
            else if peek_next lexer = CHR ''*''
            then skip_whitespace (block_comment (advance (advance lexer)))
            else lexer)
         else lexer)"
  by pat_completeness auto
termination
proof (relation "measure (\<lambda>lexer. length (lx_source lexer) - lx_current lexer)", goal_cases)
  case (2 a c)
  then have "lx_current a < length (lx_source a)"
    by (auto simp: peek_char_def char_at_def split: if_splits)
  then show ?case by (auto simp: advance_def)
next
  case (3 a c)
  then have e: "\<not> is_at_end a" and "peek_char a \<noteq> CHR 0x0A"
    by (auto simp: peek_char_def is_at_end_def)
  then have "line_comment a = advance_while (\<lambda>c. c \<noteq> CHR 0x0A) (advance a)"
    unfolding line_comment_def by (subst advance_while.simps) simp
  then have "lx_source (line_comment a) = lx_source a"
    "Suc (lx_current a) \<le> lx_current (line_comment a)"
    using loop_mono(1) [of "advance a"] by simp_all
  then show ?case using not_at_end_less [OF e] by simp
next
  case (4 a c)
  then have e: "\<not> is_at_end a"
    by (auto simp: peek_char_def is_at_end_def)
  have "lx_source (block_comment (advance (advance a))) = lx_source a"
    "Suc (Suc (lx_current a)) \<le> lx_current (block_comment (advance (advance a)))"
    using loop_mono(2) [of "advance (advance a)"] by simp_all
  then show ?case using not_at_end_less [OF e] by simp
qed auto

declare skip_whitespace.simps [simp del]

lemma ahead_skip_whitespace [simp]: "ahead a (skip_whitespace a)"
proof (induction a rule: skip_whitespace.induct)
  case (1 a)
  have "ahead a (block_comment (advance (advance a)))"
    by (rule ahead_trans [OF ahead_advance ahead_trans [OF ahead_advance ahead_block_comment]])
  then have 2: "ahead (block_comment (advance (advance a))) b \<Longrightarrow> ahead a b" for b
    by (rule ahead_trans)
  have "ahead a (line_comment a)" by (simp add: line_comment_def)
  then have 3: "ahead (line_comment a) b \<Longrightarrow> ahead a b" for b by (rule ahead_trans)
  have 4: "ahead (advance a) b \<Longrightarrow> ahead a b" for b by (rule ahead_trans [OF ahead_advance])
  show ?case
    using 1(1) [OF refl, THEN 4] 1(2) [OF refl, THEN 3] 1(3) [OF refl, THEN 2]
    by (subst skip_whitespace.simps) (simp add: Let_def)
qed

subsection \<open>Scanning\<close>

definition num_char :: "char \<Rightarrow> bool" where
  "num_char c \<longleftrightarrow> isdigit c \<or> c = CHR ''_''"

definition number_fraction :: "Lexer \<Rightarrow> bool \<times> Lexer" where
  "number_fraction lexer =
     (if peek_char lexer = CHR ''.'' \<and> isdigit (peek_next lexer)
      then (True, advance_while num_char (advance lexer)) else (False, lexer))"

definition number_exponent :: "bool \<times> Lexer \<Rightarrow> bool \<times> Lexer" where
  "number_exponent = (\<lambda>(is_float, lexer).
     if peek_char lexer = CHR ''e'' \<or> peek_char lexer = CHR ''E''
     then let lexer = advance lexer;
              lexer = (if peek_char lexer = CHR ''+'' \<or> peek_char lexer = CHR ''-''
                       then advance lexer else lexer)
          in (True, advance_while isdigit lexer)
     else (is_float, lexer))"

definition scan_number :: "Lexer \<Rightarrow> Token \<times> Lexer" where
  "scan_number lexer =
     (let (is_float, lexer) = number_exponent (number_fraction (advance_while num_char lexer))
      in (make_token lexer (if is_float then TOK_FLOAT else TOK_INT), lexer))"

function string_loop :: "Lexer \<Rightarrow> Lexer" where
  "string_loop lexer =
     (if peek_char lexer = CHR 0x22 \<or> is_at_end lexer then lexer
      else let lexer = newline_in_token lexer;
               lexer = (if peek_char lexer = CHR 0x5C \<and> peek_next lexer \<noteq> NUL
                        then advance lexer else lexer)
           in string_loop (advance lexer))"
  by pat_completeness auto
termination
  by (relation "measure (\<lambda>lexer. length (lx_source lexer) - lx_current lexer)")
    (auto simp: newline_in_token_def dest!: not_at_end_less)

declare string_loop.simps [simp del]

definition scan_string :: "Lexer \<Rightarrow> Token \<times> Lexer" where
  "scan_string lexer =
     (let lexer = string_loop lexer
      in if is_at_end lexer then (error_token lexer ''unterminated string'', lexer)
         else let lexer = advance lexer in (make_token lexer TOK_STRING, lexer))"

fun lookup_keyword :: "(string \<times> TokenType) list \<Rightarrow> string \<Rightarrow> TokenType" where
  "lookup_keyword [] word = TOK_IDENT"
| "lookup_keyword ((name, type) # rest) word =
     (if length name = length word \<and> word = name then type else lookup_keyword rest word)"

definition check_keyword :: "Lexer \<Rightarrow> TokenType" where
  "check_keyword lexer =
     lookup_keyword keyword_table
       (take (lx_current lexer - lx_start lexer) (drop (lx_start lexer) (lx_source lexer)))"

definition scan_identifier :: "Lexer \<Rightarrow> Token \<times> Lexer" where
  "scan_identifier lexer =
     (let lexer = advance_while is_alnum lexer in (make_token lexer (check_keyword lexer), lexer))"

definition tok :: "Lexer \<Rightarrow> TokenType \<Rightarrow> Token \<times> Lexer" where
  "tok lexer type = (make_token lexer type, lexer)"

text \<open>\<^verbatim>\<open>match(lexer, c) ? t : e\<close>, as the operators use it.\<close>

definition tok_match :: "Lexer \<Rightarrow> char \<Rightarrow> TokenType \<Rightarrow> (Lexer \<Rightarrow> Token \<times> Lexer) \<Rightarrow> Token \<times> Lexer" where
  "tok_match lexer c t e =
     (let (matched, lexer) = match lexer c in if matched then tok lexer t else e lexer)"

definition scan_operator :: "Lexer \<Rightarrow> char \<Rightarrow> Token \<times> Lexer" where
  "scan_operator lexer c =
     (if c = CHR 0x0A then
        (let lexer = lexer\<lparr>lx_line := lx_line lexer + 1, lx_column := 1\<rparr> in tok lexer TOK_NEWLINE)
      else if c = CHR ''('' then tok lexer TOK_LPAREN
      else if c = CHR '')'' then tok lexer TOK_RPAREN
      else if c = CHR ''{'' then tok lexer TOK_LBRACE
      else if c = CHR ''}'' then tok lexer TOK_RBRACE
      else if c = CHR ''['' then tok lexer TOK_LBRACKET
      else if c = CHR '']'' then tok lexer TOK_RBRACKET
      else if c = CHR '','' then tok lexer TOK_COMMA
      else if c = CHR '':'' then
        tok_match lexer CHR '':'' TOK_COLON_COLON (\<lambda>lexer. tok lexer TOK_COLON)
      else if c = CHR ''?'' then tok lexer TOK_QUESTION
      else if c = CHR ''%'' then tok lexer TOK_PERCENT
      else if c = CHR ''+'' then
        tok_match lexer CHR ''='' TOK_PLUS_ASSIGN (\<lambda>lexer. tok lexer TOK_PLUS)
      else if c = CHR ''-'' then
        tok_match lexer CHR ''>'' TOK_ARROW
          (\<lambda>lexer. tok_match lexer CHR ''='' TOK_MINUS_ASSIGN (\<lambda>lexer. tok lexer TOK_MINUS))
      else if c = CHR ''*'' then
        tok_match lexer CHR ''='' TOK_STAR_ASSIGN (\<lambda>lexer. tok lexer TOK_STAR)
      else if c = CHR ''/'' then
        tok_match lexer CHR ''='' TOK_SLASH_ASSIGN (\<lambda>lexer. tok lexer TOK_SLASH)
      else if c = CHR ''='' then
        tok_match lexer CHR ''='' TOK_EQ
          (\<lambda>lexer. tok_match lexer CHR ''>'' TOK_FAT_ARROW (\<lambda>lexer. tok lexer TOK_ASSIGN))
      else if c = CHR ''!'' then tok_match lexer CHR ''='' TOK_NE (\<lambda>lexer. tok lexer TOK_NOT)
      else if c = CHR ''<'' then tok_match lexer CHR ''='' TOK_LE (\<lambda>lexer. tok lexer TOK_LT)
      else if c = CHR ''>'' then tok_match lexer CHR ''='' TOK_GE (\<lambda>lexer. tok lexer TOK_GT)
      else if c = CHR ''.'' then
        (let (matched, lexer) = match lexer CHR ''.''
         in if matched
            then tok_match lexer CHR ''.'' TOK_SPREAD
                   (\<lambda>lexer. tok_match lexer CHR ''='' TOK_RANGE_INCL (\<lambda>lexer. tok lexer TOK_RANGE))
            else tok lexer TOK_DOT)
      else if c = CHR '';'' then tok lexer TOK_SEMICOLON
      else if c = CHR 0x22 then scan_string lexer
      else if c = CHR ''@'' then tok lexer TOK_AT
      else (error_token lexer ''unexpected character'', lexer))"

definition scan_token :: "Lexer \<Rightarrow> Token \<times> Lexer" where
  "scan_token lexer =
     (let lexer = skip_whitespace lexer;
          lexer = lexer\<lparr>lx_start := lx_current lexer, lx_start_column := lx_column lexer\<rparr>
      in if is_at_end lexer then tok lexer TOK_EOF
         else let c = peek_char lexer;
                  lexer = advance lexer
              in if is_alpha c then scan_identifier lexer
                 else if isdigit c then scan_number lexer
                 else scan_operator lexer c)"

definition lexer_next :: "Lexer \<Rightarrow> Token \<times> Lexer" where
  "lexer_next lexer =
     (if lx_has_peeked lexer then (lx_peeked lexer, lexer\<lparr>lx_has_peeked := False\<rparr>)
      else scan_token lexer)"

definition lexer_peek :: "Lexer \<Rightarrow> Token \<times> Lexer" where
  "lexer_peek lexer =
     (if \<not> lx_has_peeked lexer
      then let (t, lexer) = scan_token lexer;
               lexer = lexer\<lparr>lx_peeked := t, lx_has_peeked := True\<rparr>
           in (lx_peeked lexer, lexer)
      else (lx_peeked lexer, lexer))"

subsection \<open>The cursor stays inside the source\<close>

lemma char_at_strlen: "i < strlen s \<Longrightarrow> char_at s i \<noteq> NUL"
  unfolding strlen_def cstr_def char_at_def
  using nth_mem [of i "takeWhile (\<lambda>c. c \<noteq> NUL) s"] length_takeWhile_le [of "\<lambda>c. c \<noteq> NUL" s]
  by (auto simp: takeWhile_nth dest: set_takeWhileD)

lemma char_at_end: "char_at s (strlen s) = NUL"
  unfolding strlen_def cstr_def char_at_def
  using nth_length_takeWhile [of "\<lambda>c. c \<noteq> NUL" s] by auto

definition within :: "Lexer \<Rightarrow> bool" where
  "within lexer \<longleftrightarrow> lx_current lexer \<le> strlen (lx_source lexer)"

lemma within_not_end:
  assumes "within a" shows "is_at_end a \<longleftrightarrow> lx_current a = strlen (lx_source a)"
proof -
  have "lx_current a < strlen (lx_source a) \<or> lx_current a = strlen (lx_source a)"
    using assms by (auto simp: within_def)
  then show ?thesis
    using char_at_strlen [of "lx_current a" "lx_source a"] char_at_end [of "lx_source a"]
    by (auto simp: is_at_end_def)
qed

lemma within_advance: "within a \<Longrightarrow> \<not> is_at_end a \<Longrightarrow> within (advance a)"
  by (auto simp: within_not_end) (simp add: within_def)

lemma peek_char_end: "peek_char a = NUL \<longleftrightarrow> is_at_end a"
  by (simp add: peek_char_def is_at_end_def)

lemma peek_next_advance: "\<not> is_at_end a \<Longrightarrow> peek_next a = peek_char (advance a)"
  by (simp add: peek_next_def peek_char_def)

lemma peek_next_not_end: "peek_next a \<noteq> NUL \<Longrightarrow> \<not> is_at_end a \<and> \<not> is_at_end (advance a)"
  by (auto simp: peek_next_def is_at_end_def split: if_splits)

lemma newline_sel [simp]:
  "lx_source (newline_in_token a) = lx_source a" "lx_current (newline_in_token a) = lx_current a"
  "is_at_end (newline_in_token a) = is_at_end a" "peek_char (newline_in_token a) = peek_char a"
  "peek_next (newline_in_token a) = peek_next a" "within (newline_in_token a) = within a"
  by (simp_all add: newline_in_token_def is_at_end_def peek_char_def peek_next_def within_def)

lemma ahead_string_loop [simp]: "ahead a (string_loop a)"
proof (induction a rule: string_loop.induct)
  case (1 a)
  let ?n = "newline_in_token a"
  let ?m = "if peek_char ?n = CHR 0x5C \<and> peek_next ?n \<noteq> NUL then advance ?n else ?n"
  have "ahead ?n (advance ?m)" by (auto intro: ahead_trans [OF ahead_advance])
  then have "ahead a (advance ?m)" by (rule ahead_trans [OF ahead_newline])
  then have "ahead (advance ?m) b \<Longrightarrow> ahead a b" for b by (rule ahead_trans)
  then show ?case using 1 by (subst string_loop.simps) (simp add: Let_def)
qed

lemma string_loop_stops: "is_at_end (string_loop a) \<or> peek_char (string_loop a) = CHR 0x22"
proof (induction a rule: string_loop.induct)
  case (1 a)
  then show ?case
    by (cases "peek_char a = CHR 0x22 \<or> is_at_end a") (auto simp: string_loop.simps [of a] Let_def)
qed

subsection \<open>Invariants of the cursor\<close>

text \<open>
  A property of the lexer that single steps of the cursor keep is kept by every scanner. The
  steps are: over a character other than a newline, over a newline with the line counted, and
  over an escape sequence. A property that also survives the start of a new token and the peek
  buffer is kept by the whole interface.
\<close>

locale cursor_inv =
  fixes I :: "Lexer \<Rightarrow> bool"
  assumes step: "I a \<Longrightarrow> \<not> is_at_end a \<Longrightarrow> peek_char a \<noteq> CHR 0x0A \<Longrightarrow> I (advance a)"
    and newline: "I a \<Longrightarrow> peek_char a = CHR 0x0A \<Longrightarrow> I (advance (newline_in_token a))"
    and escape: "I a \<Longrightarrow> peek_char a = CHR 0x5C \<Longrightarrow> peek_next a \<noteq> NUL \<Longrightarrow> I (advance (advance a))"
begin

lemma cursor_advance_while:
  assumes "\<not> P (CHR 0x0A)" shows "I a \<Longrightarrow> I (advance_while P a)"
  using assms
proof (induction P a rule: advance_while.induct)
  case (1 P a)
  have "peek_char a \<noteq> CHR 0x0A" if "P (peek_char a)" using that 1(3) by auto
  then show ?case using 1 step [of a] by (subst advance_while.simps) simp
qed

lemma cursor_newline_step:
  "I a \<Longrightarrow> \<not> is_at_end a \<Longrightarrow> I (advance (newline_in_token a))"
  using newline [of a] step [of a] by (cases "peek_char a = CHR 0x0A") (simp_all add: newline_in_token_def)

lemma cursor_step2:
  "I a \<Longrightarrow> peek_char a \<noteq> CHR 0x0A \<Longrightarrow> peek_next a \<noteq> CHR 0x0A \<Longrightarrow> peek_next a \<noteq> NUL
    \<Longrightarrow> I (advance (advance a))"
  using peek_next_not_end [of a] peek_next_advance [of a] by (simp add: step)

lemma cursor_block_comment: "I a \<Longrightarrow> I (block_comment a)"
proof (induction a rule: block_comment.induct)
  case (1 a)
  then show ?case
    using cursor_newline_step [of a] cursor_step2 [of a] by (subst block_comment.simps) simp
qed

lemma cursor_skip_whitespace: "I a \<Longrightarrow> I (skip_whitespace a)"
proof (induction a rule: skip_whitespace.induct)
  case (1 a)
  have w: "I (advance a)" if "peek_char a = CHR '' '' \<or> peek_char a = CHR 0x09 \<or> peek_char a = CHR 0x0D"
    using that 1(4) by (intro step) (auto simp: peek_char_end [symmetric])
  have "I (block_comment (advance (advance a)))" if "peek_char a = CHR ''/''" "peek_next a = CHR ''*''"
    using that 1(4) by (simp add: cursor_step2 cursor_block_comment)
  moreover have "I (line_comment a)"
    using 1(4) unfolding line_comment_def by (intro cursor_advance_while) simp_all
  ultimately show ?case
    using 1(1) [OF refl _ w] 1(2) [OF refl] 1(3) [OF refl] 1(4)
    by (subst skip_whitespace.simps) (auto simp: Let_def)
qed

lemma cursor_string_loop: "I a \<Longrightarrow> I (string_loop a)"
proof (induction a rule: string_loop.induct)
  case (1 a)
  let ?n = "newline_in_token a"
  let ?m = "if peek_char ?n = CHR 0x5C \<and> peek_next ?n \<noteq> NUL then advance ?n else ?n"
  have "I (advance ?m)" if "\<not> is_at_end a"
  proof (cases "peek_char a = CHR 0x5C \<and> peek_next a \<noteq> NUL")
    case True
    then show ?thesis using 1(2) by (simp add: escape newline_in_token_def)
  next
    case False
    then show ?thesis using cursor_newline_step [OF 1(2) that] by (simp only: newline_sel if_False)
  qed
  then show ?case using 1 by (subst string_loop.simps) (simp add: Let_def)
qed

lemma cursor_char: "I a \<Longrightarrow> peek_char a = c \<Longrightarrow> c \<noteq> NUL \<Longrightarrow> c \<noteq> CHR 0x0A \<Longrightarrow> I (advance a)"
  using step [of a] peek_char_end [of a] by auto

lemma cursor_num_char: "I a \<Longrightarrow> I (advance_while num_char a)"
  by (rule cursor_advance_while) (simp_all add: num_char_def isdigit_def less_eq_char_def)

lemma cursor_isdigit: "I a \<Longrightarrow> I (advance_while isdigit a)"
  by (rule cursor_advance_while) (simp_all add: isdigit_def less_eq_char_def)

lemma cursor_number_fraction: "I a \<Longrightarrow> I (snd (number_fraction a))"
  using cursor_char [of a "CHR ''.''"] by (simp add: number_fraction_def cursor_num_char)

lemma cursor_number_exponent: "I a \<Longrightarrow> I (snd (number_exponent (f, a)))"
proof (cases "peek_char a = CHR ''e'' \<or> peek_char a = CHR ''E''")
  case True
  assume "I a"
  with True have 1: "I (advance a)" using cursor_char [of a] by auto
  then have "I (advance (advance a))"
    if "peek_char (advance a) = CHR ''+'' \<or> peek_char (advance a) = CHR ''-''"
    using that cursor_char [OF 1] by auto
  with 1 True show ?thesis by (simp add: number_exponent_def Let_def cursor_isdigit)
qed (simp add: number_exponent_def)

lemma cursor_scan_number: "I a \<Longrightarrow> I (snd (scan_number a))"
  using cursor_number_exponent [of "snd (number_fraction (advance_while num_char a))"
      "fst (number_fraction (advance_while num_char a))"]
    cursor_number_fraction [OF cursor_num_char, of a]
  by (auto simp: scan_number_def split: prod.splits)

lemma cursor_scan_string: "I a \<Longrightarrow> I (snd (scan_string a))"
proof -
  assume "I a"
  then have "I (string_loop a)" by (rule cursor_string_loop)
  moreover have "is_at_end (string_loop a) \<or> peek_char (string_loop a) = CHR 0x22"
    by (rule string_loop_stops)
  ultimately show ?thesis using cursor_char [of "string_loop a"]
    by (auto simp: scan_string_def Let_def)
qed

lemma cursor_scan_identifier: "I a \<Longrightarrow> I (snd (scan_identifier a))"
  unfolding scan_identifier_def Let_def
  by (simp add: cursor_advance_while is_alnum_def is_alpha_def isdigit_def less_eq_char_def)

lemma cursor_match: "I a \<Longrightarrow> c \<noteq> CHR 0x0A \<Longrightarrow> I (snd (match a c))"
  using step [of a] by (simp add: match_def advance_def)

lemma cursor_tok_match:
  "I a \<Longrightarrow> c \<noteq> CHR 0x0A \<Longrightarrow> (\<And>b. I b \<Longrightarrow> I (snd (e b))) \<Longrightarrow> I (snd (tok_match a c t e))"
  using cursor_match [of a c] by (cases "match a c") (simp add: tok_match_def tok_def)

lemma cursor_dot:
  "I a \<Longrightarrow> (\<And>b. I b \<Longrightarrow> I (snd (e b))) \<Longrightarrow>
    I (snd (case match a CHR ''.'' of (m, b) \<Rightarrow> if m then e b else tok b TOK_DOT))"
  using cursor_match [of a "CHR ''.''"] by (cases "match a CHR ''.''") (simp add: tok_def)

lemma cursor_tok: "I a \<Longrightarrow> I (snd (tok a t))"
  by (simp add: tok_def)

lemma cursor_scan_operator: "I a \<Longrightarrow> c \<noteq> CHR 0x0A \<Longrightarrow> I (snd (scan_operator a c))"
  unfolding scan_operator_def
  by (simp add: cursor_tok cursor_tok_match cursor_dot cursor_scan_string)

end

locale lexer_inv = cursor_inv +
  assumes restart: "I a \<Longrightarrow> I (a\<lparr>lx_start := n, lx_start_column := c\<rparr>)"
    and peeked: "I (a\<lparr>lx_peeked := t\<rparr>) \<longleftrightarrow> I a"
    and has_peeked: "I (a\<lparr>lx_has_peeked := h\<rparr>) \<longleftrightarrow> I a"
begin

lemma cursor_scan_token: assumes "I a" shows "I (snd (scan_token a))"
proof -
  let ?b = "(skip_whitespace a)\<lparr>lx_start := lx_current (skip_whitespace a),
      lx_start_column := lx_column (skip_whitespace a)\<rparr>"
  have b: "I ?b" by (intro restart cursor_skip_whitespace assms)
  show ?thesis
  proof (cases "is_at_end ?b")
    case False
    show ?thesis
    proof (cases "peek_char ?b = CHR 0x0A")
      case True
      then have "\<not> is_alpha (peek_char ?b)" "\<not> isdigit (peek_char ?b)"
        by (simp_all add: is_alpha_def isdigit_def less_eq_char_def)
      moreover have "snd (scan_operator (advance ?b) (peek_char ?b)) = advance (newline_in_token ?b)"
        using True by (simp add: scan_operator_def tok_def newline_in_token_def advance_def Let_def)
      ultimately show ?thesis
        using False newline [OF b True] unfolding scan_token_def Let_def by simp
    next
      case ne: False
      then have "I (advance ?b)" using step [OF b False] by blast
      then show ?thesis
        using False ne cursor_scan_identifier cursor_scan_number cursor_scan_operator
        unfolding scan_token_def Let_def by simp
    qed
  qed (use b in \<open>simp add: scan_token_def Let_def tok_def\<close>)
qed

lemma cursor_lexer_next: "I a \<Longrightarrow> I (snd (lexer_next a))"
  by (simp add: lexer_next_def has_peeked cursor_scan_token)

lemma cursor_lexer_peek: "I a \<Longrightarrow> I (snd (lexer_peek a))"
  using cursor_scan_token [of a]
  by (auto simp: lexer_peek_def has_peeked peeked split: prod.splits)

end

interpretation cur: cursor_inv "ahead a" for a
proof
  show "ahead a (advance (newline_in_token b))" if "ahead a b" for b
    using that ahead_newline ahead_advance by (blast intro: ahead_trans)
qed (blast intro: ahead_trans ahead_advance)+

interpretation win: lexer_inv within
proof
  show "within (advance (advance a))" if "within a" "peek_next a \<noteq> NUL" for a
    using that peek_next_not_end [of a] by (simp add: within_advance)
  show "within (advance (newline_in_token a))" if "within a" "peek_char a = CHR 0x0A" for a
    using that by (intro within_advance) (auto simp: peek_char_end [symmetric])
qed (simp_all add: within_advance, simp_all add: within_def)

subsection \<open>Shape of tokens\<close>

text \<open>Every scanner's token is made from the state the scanner leaves.\<close>

definition token_of :: "Token \<times> Lexer \<Rightarrow> bool" where
  "token_of r \<longleftrightarrow> (\<exists>ty. ty \<noteq> TOK_EOF \<and> fst r = make_token (snd r) ty)
     \<or> (\<exists>m. fst r = error_token (snd r) m)"

lemma token_of_tok: "ty \<noteq> TOK_EOF \<Longrightarrow> token_of (tok a ty)"
  by (auto simp: token_of_def tok_def)

lemma token_of_make: "ty \<noteq> TOK_EOF \<Longrightarrow> token_of (make_token a ty, a)"
  by (auto simp: token_of_def)

lemma token_of_error: "token_of (error_token a m, a)"
  by (auto simp: token_of_def)

lemma token_of_tok_match:
  "ty \<noteq> TOK_EOF \<Longrightarrow> (\<And>b. token_of (e b)) \<Longrightarrow> token_of (tok_match a c ty e)"
  by (auto simp: tok_match_def token_of_tok split: prod.splits)

lemma lookup_keyword_ne:
  "list_all (\<lambda>k. snd k \<noteq> ty) ks \<Longrightarrow> TOK_IDENT \<noteq> ty \<Longrightarrow> lookup_keyword ks w \<noteq> ty"
  by (induction ks) (simp_all add: split_paired_all)

lemma keyword_not_eof: "lookup_keyword keyword_table w \<noteq> TOK_EOF"
  by (rule lookup_keyword_ne) (simp_all only: keyword_table_def list.pred_inject snd_conv
      TokenType.distinct not_False_eq_True simp_thms)

lemma token_of_scanners:
  "token_of (scan_identifier a)" "token_of (scan_number a)" "token_of (scan_string a)"
  "token_of (scan_operator a c)"
proof -
  show "token_of (scan_identifier a)"
    by (simp add: scan_identifier_def Let_def token_of_make check_keyword_def keyword_not_eof)
  show "token_of (scan_number a)"
    by (auto simp: scan_number_def intro!: token_of_make split: prod.splits)
  show s: "token_of (scan_string b)" for b
    by (simp add: scan_string_def Let_def token_of_make token_of_error)
  have "token_of (case match a CHR ''.'' of (m, b) \<Rightarrow> if m then e b else tok b TOK_DOT)"
    if "\<And>b. token_of (e b)" for e
    using that by (simp add: token_of_tok split: prod.splits)
  then show "token_of (scan_operator a c)"
    unfolding scan_operator_def
    by (simp add: token_of_tok token_of_tok_match token_of_error s Let_def)
qed

text \<open>The two outcomes of a scan.\<close>

lemma scan_token_cases:
  assumes "scan_token a = (t, b)"
  obtains (eof) s where "ahead a s" "is_at_end s" "lx_source s = lx_source a"
      "b = s\<lparr>lx_start := lx_current s, lx_start_column := lx_column s\<rparr>"
      "t = make_token b TOK_EOF" "s = skip_whitespace a"
  | (token) "token_of (t, b)" "lx_source b = lx_source a"
      "lx_current a \<le> lx_start b" "lx_start b < lx_current b"
      "lx_peeked b = lx_peeked a" "lx_has_peeked b = lx_has_peeked a"
      "lx_start b = lx_current (skip_whitespace a)"
      "lx_start_column b = lx_column (skip_whitespace a)"
proof -
  let ?s = "skip_whitespace a"
  let ?b = "?s\<lparr>lx_start := lx_current ?s, lx_start_column := lx_column ?s\<rparr>"
  have s: "ahead a ?s" by simp
  show thesis
  proof (cases "is_at_end ?b")
    case True
    then have "b = ?b" "t = make_token ?b TOK_EOF" "is_at_end ?s"
      using assms by (auto simp: scan_token_def Let_def tok_def is_at_end_def)
    then show thesis using eof [OF s] ahead_sourceD [OF s] by blast
  next
    case False
    let ?r = "if is_alpha (peek_char ?b) then scan_identifier (advance ?b)
      else if isdigit (peek_char ?b) then scan_number (advance ?b)
      else scan_operator (advance ?b) (peek_char ?b)"
    have r: "(t, b) = ?r" using assms False by (simp add: scan_token_def Let_def)
    have 1: "token_of (t, b)" unfolding r by (simp add: token_of_scanners)
    have "ahead (advance ?b) (snd (t, b))"
    proof (cases "peek_char ?b = CHR 0x0A")
      case True
      then show ?thesis unfolding r
        by (simp add: is_alpha_def isdigit_def less_eq_char_def scan_operator_def tok_def ahead_def Let_def)
    next
      case False
      then show ?thesis unfolding r
        by (simp add: cur.cursor_scan_identifier cur.cursor_scan_number cur.cursor_scan_operator)
    qed
    then have 2: "ahead (advance ?b) b" by simp
    show thesis
    proof (rule token [OF 1])
      show "lx_source b = lx_source a" "lx_current a \<le> lx_start b" "lx_start b < lx_current b"
        "lx_peeked b = lx_peeked a" "lx_has_peeked b = lx_has_peeked a"
        "lx_start b = lx_current ?s" "lx_start_column b = lx_column ?s"
        using s 2 by (simp_all add: ahead_def advance_def)
    qed
  qed
qed

subsection \<open>The token stream\<close>

inductive lexer_reach :: "Token \<Rightarrow> string \<Rightarrow> Lexer \<Rightarrow> bool" for junk src where
  reach_new: "lexer_reach junk src (lexer_new junk src)"
| reach_next: "lexer_reach junk src a \<Longrightarrow> lexer_reach junk src (snd (lexer_next a))"
| reach_peek: "lexer_reach junk src a \<Longrightarrow> lexer_reach junk src (snd (lexer_peek a))"

definition slice_ok :: "Token \<Rightarrow> nat \<Rightarrow> bool" where
  "slice_ok t n \<longleftrightarrow> (\<forall>s. tok_start t = Source s \<longrightarrow>
     s + tok_length t \<le> n \<and> (tok_type t \<noteq> TOK_EOF \<longrightarrow> 0 < tok_length t))"

lemma scan_token_slice:
  assumes "scan_token a = (t, b)"
  shows "slice_ok t (lx_current b) \<and> lx_source b = lx_source a \<and> lx_current a \<le> lx_current b
    \<and> lx_has_peeked b = lx_has_peeked a
    \<and> (tok_type t = TOK_EOF \<and> is_at_end b \<or> lx_current a < lx_current b)"
  using assms
proof (cases rule: scan_token_cases)
  case (eof s)
  then show ?thesis
    by (auto simp: slice_ok_def make_token_def is_at_end_def ahead_def)
next
  case token
  then show ?thesis
    by (auto simp: token_of_def slice_ok_def make_token_def error_token_def)
qed

lemma lexer_reach_inv:
  "lexer_reach junk src a \<Longrightarrow>
    lx_source a = src \<and> within a \<and> (lx_has_peeked a \<longrightarrow> slice_ok (lx_peeked a) (lx_current a))"
proof (induction rule: lexer_reach.induct)
  case reach_new
  show ?case by (simp add: lexer_new_def within_def)
next
  case (reach_next a)
  then have "within (snd (lexer_next a))" by (simp add: win.cursor_lexer_next)
  then show ?case
    using reach_next scan_token_slice [of a "fst (scan_token a)" "snd (scan_token a)"]
    by (auto simp: lexer_next_def split: if_splits)
next
  case (reach_peek a)
  then have "within (snd (lexer_peek a))" by (simp add: win.cursor_lexer_peek)
  then show ?case
    using reach_peek scan_token_slice [of a "fst (scan_token a)" "snd (scan_token a)"]
    by (auto simp: lexer_peek_def Let_def split: if_splits prod.splits)
qed

definition no_token :: Token where
  "no_token = \<lparr>tok_type = TOK_ERROR, tok_start = Message [], tok_length = 0, tok_line = 0, tok_column = 0\<rparr>"

text \<open>
  C29. Memory safety of the lexer: from the start of a source string, whatever mixture of
  \<open>lexer_next\<close> and \<open>lexer_peek\<close> calls was made before, the cursor never passes the terminator,
  a token's text is a slice of the string before the cursor, and it is not empty unless the
  token is the end of file.
\<close>

theorem lexer_token_slice:
  assumes "lexer_reach junk src a" and "lexer_next a = (t, b)"
  shows "lx_current b \<le> strlen src \<and> slice_ok t (lx_current b)"
proof -
  have "lexer_reach junk src b" using reach_next [OF assms(1)] assms(2) by simp
  then have "lx_current b \<le> strlen src" using lexer_reach_inv by (auto simp: within_def)
  moreover have "slice_ok t (lx_current b)"
  proof (cases "lx_has_peeked a")
    case True
    then show ?thesis using assms lexer_reach_inv [OF assms(1)] by (auto simp: lexer_next_def)
  next
    case False
    then show ?thesis using assms scan_token_slice [of a t b] by (simp add: lexer_next_def)
  qed
  ultimately show ?thesis ..
qed

theorem lexer_token_slice_witness:
  "\<exists>b. lexer_next (lexer_new no_token ''let'') =
      (\<lparr>tok_type = TOK_LET, tok_start = Source 0, tok_length = 3, tok_line = 1, tok_column = 1\<rparr>, b)
    \<and> lx_current b \<le> strlen ''let''"
proof -
  let ?a = "lexer_new no_token ''let''"
  have "fst (lexer_next ?a) =
    \<lparr>tok_type = TOK_LET, tok_start = Source 0, tok_length = 3, tok_line = 1, tok_column = 1\<rparr>"
    by (simp add: lexer_next_def lexer_new_def scan_token_def skip_whitespace.simps peek_char_def
        char_at_def is_at_end_def Let_def tok_def advance_def is_alpha_def less_eq_char_def
        scan_identifier_def advance_while.simps is_alnum_def make_token_def check_keyword_def
        keyword_table_def)
  then show ?thesis
    using lexer_token_slice [OF reach_new, of no_token "''let''"]
    by (intro exI [of _ "snd (lexer_next ?a)"]) (metis prod.collapse)
qed

lemma at_end_eof:
  assumes "is_at_end a" shows "tok_type (fst (scan_token a)) = TOK_EOF"
proof -
  have "skip_whitespace a = a"
    using assms by (subst skip_whitespace.simps) (simp add: peek_char_end [symmetric])
  then show ?thesis using assms
    by (simp add: scan_token_def Let_def tok_def make_token_def is_at_end_def)
qed

lemma lexer_next_iterate:
  defines "step \<equiv> \<lambda>a. snd (lexer_next a)"
  shows "lx_source ((step ^^ n) (lexer_new junk src)) = src
    \<and> \<not> lx_has_peeked ((step ^^ n) (lexer_new junk src))
    \<and> within ((step ^^ n) (lexer_new junk src))
    \<and> (is_at_end ((step ^^ n) (lexer_new junk src)) \<or> n \<le> lx_current ((step ^^ n) (lexer_new junk src)))"
proof (induction n)
  case 0
  then show ?case by (simp add: lexer_new_def within_def)
next
  case (Suc n)
  let ?a = "(step ^^ n) (lexer_new junk src)"
  obtain t b where s: "scan_token ?a = (t, b)" by force
  then have b: "(step ^^ Suc n) (lexer_new junk src) = b"
    using Suc by (simp add: step_def lexer_next_def)
  have e: "is_at_end b" if "is_at_end ?a"
  proof -
    have "skip_whitespace ?a = ?a"
      using that by (subst skip_whitespace.simps) (simp add: peek_char_end [symmetric])
    then show ?thesis using s that by (auto simp: scan_token_def Let_def tok_def is_at_end_def)
  qed
  show ?case unfolding b
    using scan_token_slice [OF s] e Suc win.cursor_scan_token [of ?a] s by auto
qed

text \<open>
  C30. The lexer always ends: on every source string, every call of \<open>lexer_next\<close> from the
  \<open>strlen src\<close>-th on (counting from zero) returns the end-of-file token.
\<close>

theorem lexer_reaches_eof:
  assumes "strlen src \<le> n"
  shows "tok_type (fst (lexer_next (((\<lambda>a. snd (lexer_next a)) ^^ n) (lexer_new junk src)))) = TOK_EOF"
proof -
  let ?a = "((\<lambda>a. snd (lexer_next a)) ^^ n) (lexer_new junk src)"
  note i = lexer_next_iterate [of n junk src]
  then have "is_at_end ?a" using assms within_not_end [of ?a] by (auto simp: within_def)
  then show ?thesis using at_end_eof i by (simp add: lexer_next_def)
qed

theorem lexer_reaches_eof_witness:
  "strlen ''a+b'' \<le> 5 \<and>
   tok_type (fst (lexer_next (((\<lambda>a. snd (lexer_next a)) ^^ 5) (lexer_new no_token ''a+b'')))) = TOK_EOF"
  using lexer_reaches_eof [of "''a+b''" 5 no_token] by (simp add: strlen_def cstr_def)

text \<open>
  C31. Peeking is transparent: \<open>lexer_peek\<close> returns the token \<open>lexer_next\<close> would return, a
  following \<open>lexer_next\<close> returns it again, and leaves the lexer in the state \<open>lexer_next\<close> alone
  would have left it in, up to the contents of the emptied peek buffer.
\<close>

theorem lexer_peek_transparent:
  assumes "lexer_peek a = (t, b)"
  shows "fst (lexer_next a) = t \<and> fst (lexer_next b) = t \<and> lexer_peek b = (t, b)
    \<and> (snd (lexer_next b))\<lparr>lx_peeked := p\<rparr> = (snd (lexer_next a))\<lparr>lx_peeked := p\<rparr>"
proof (cases "lx_has_peeked a")
  case True
  then show ?thesis using assms by (auto simp: lexer_peek_def lexer_next_def)
next
  case False
  obtain u c where s: "scan_token a = (u, c)" by force
  then have "\<not> lx_has_peeked c" using scan_token_slice [OF s] False by simp
  then have "c\<lparr>lx_has_peeked := False\<rparr> = c" by simp
  moreover have "t = u" "b = c\<lparr>lx_peeked := u, lx_has_peeked := True\<rparr>"
    using assms s False by (auto simp: lexer_peek_def)
  ultimately show ?thesis using False s by (simp add: lexer_next_def lexer_peek_def)
qed

theorem lexer_peek_transparent_witness:
  "fst (lexer_next (snd (lexer_peek (lexer_new no_token ''x'')))) =
   fst (lexer_next (lexer_new no_token ''x''))"
  using lexer_peek_transparent [of "lexer_new no_token ''x''"]
  by (cases "lexer_peek (lexer_new no_token ''x'')") simp

subsection \<open>Positions\<close>

definition newlines :: "string \<Rightarrow> nat" where
  "newlines s = length (filter (\<lambda>c. c = CHR 0x0A) s)"

definition column_of :: "string \<Rightarrow> nat" where
  "column_of s = Suc (length (takeWhile (\<lambda>c. c \<noteq> CHR 0x0A) (rev s)))"

text \<open>No backslash stands directly before a newline.\<close>

definition no_escaped_break :: "string \<Rightarrow> bool" where
  "no_escaped_break s \<longleftrightarrow> (CHR 0x5C, CHR 0x0A) \<notin> set (zip s (tl s))"

lemma no_escaped_breakD:
  assumes "no_escaped_break s" "s ! i = CHR 0x5C" "Suc i < length s"
  shows "s ! Suc i \<noteq> CHR 0x0A"
proof
  assume "s ! Suc i = CHR 0x0A"
  then have "zip s (tl s) ! i = (CHR 0x5C, CHR 0x0A)" "i < length (zip s (tl s))"
    using assms(2,3) by (simp_all add: nth_tl)
  then show False using assms(1) unfolding no_escaped_break_def by (metis nth_mem)
qed

text \<open>
  \<open>pos_ok\<close>: the counters are the line and column of the cursor.
\<close>

definition pos_ok :: "Lexer \<Rightarrow> bool" where
  "pos_ok a \<longleftrightarrow> no_escaped_break (lx_source a)
     \<and> lx_line a = of_nat (Suc (newlines (take (lx_current a) (lx_source a))))
     \<and> lx_column a = of_nat (column_of (take (lx_current a) (lx_source a)))"

lemma take_advance:
  "\<not> is_at_end a \<Longrightarrow>
    take (Suc (lx_current a)) (lx_source a) = take (lx_current a) (lx_source a) @ [peek_char a]"
  using not_at_end_less [of a]
  by (simp add: take_Suc_conv_app_nth peek_char_def char_at_def)

lemma pos_ok_step:
  assumes "pos_ok a" "\<not> is_at_end a" "peek_char a \<noteq> CHR 0x0A"
  shows "pos_ok (advance a)"
  using assms by (simp add: pos_ok_def take_advance newlines_def column_of_def add_ac)

interpretation pos: lexer_inv pos_ok
proof
  fix a n c t h
  show "pos_ok (advance a)" if "pos_ok a" "\<not> is_at_end a" "peek_char a \<noteq> CHR 0x0A"
    using that by (rule pos_ok_step)
  show "pos_ok (advance (newline_in_token a))" if "pos_ok a" "peek_char a = CHR 0x0A"
  proof -
    have "\<not> is_at_end a" using that(2) by (auto simp: peek_char_end [symmetric])
    then show ?thesis using that
      by (simp add: pos_ok_def take_advance newlines_def column_of_def newline_in_token_def)
  qed
  show "pos_ok (advance (advance a))" if "pos_ok a" "peek_char a = CHR 0x5C" "peek_next a \<noteq> NUL"
  proof -
    have e: "\<not> is_at_end a" "\<not> is_at_end (advance a)" using peek_next_not_end [OF that(3)] by simp_all
    have "peek_char (advance a) \<noteq> CHR 0x0A"
      using that(1,2) no_escaped_breakD [of "lx_source a" "lx_current a"] not_at_end_less [OF e(1)] not_at_end_less [OF e(2)]
      by (simp add: pos_ok_def peek_char_def char_at_def)
    moreover have "pos_ok (advance a)" using that(2) by (intro pos_ok_step [OF that(1) e(1)]) simp
    ultimately show ?thesis using e(2) pos_ok_step [of "advance a"] by blast
  qed
qed (simp_all add: pos_ok_def)

text \<open>A token that sits between the two cursors of the lexer, with its counters.\<close>

definition placed_token :: "Token \<Rightarrow> Lexer \<Rightarrow> bool" where
  "placed_token t a \<longleftrightarrow> tok_line t = lx_line a
     \<and> tok_column t = of_nat (column_of (take (lx_start a) (lx_source a)))
     \<and> (\<forall>k. tok_start t = Source k \<longrightarrow> k = lx_start a \<and> k + tok_length t = lx_current a)"

lemma scan_token_placed:
  assumes "pos_ok a" and s: "scan_token a = (t, b)"
  shows "placed_token t b" and "pos_ok b"
proof -
  have w: "pos_ok (skip_whitespace a)" by (rule pos.cursor_skip_whitespace [OF assms(1)])
  have src: "lx_source (skip_whitespace a) = lx_source a" by (rule ahead_sourceD) simp
  show "placed_token t b" using s
  proof (cases rule: scan_token_cases)
    case (eof s)
    then show ?thesis using w by (simp add: placed_token_def pos_ok_def make_token_def)
  next
    case token
    have "lx_start_column b = of_nat (column_of (take (lx_start b) (lx_source b)))"
      using token w src by (simp add: pos_ok_def)
    then show ?thesis using token(1,4)
      by (auto simp: placed_token_def token_of_def make_token_def error_token_def)
  qed
  show "pos_ok b" using pos.cursor_scan_token [OF assms(1)] s by simp
qed

lemma lexer_reach_pos:
  assumes "no_escaped_break src"
  shows "lexer_reach junk src a \<Longrightarrow> pos_ok a \<and> (lx_has_peeked a \<longrightarrow> placed_token (lx_peeked a) a)"
proof (induction rule: lexer_reach.induct)
  case reach_new
  show ?case using assms by (simp add: lexer_new_def pos_ok_def newlines_def column_of_def)
next
  case (reach_next a)
  then show ?case
    using scan_token_placed [of a "fst (scan_token a)" "snd (scan_token a)"]
      scan_token_slice [of a "fst (scan_token a)" "snd (scan_token a)"]
    by (auto simp: lexer_next_def pos_ok_def)
next
  case (reach_peek a)
  then show ?case
    using scan_token_placed [of a "fst (scan_token a)" "snd (scan_token a)"]
    by (auto simp: lexer_peek_def pos_ok_def placed_token_def split: prod.splits)
qed

lemma column_of_le: "column_of (take n s) \<le> Suc (length s)"
  using length_takeWhile_le [of "\<lambda>c. c \<noteq> CHR 0x0A" "rev (take n s)"]
  by (simp add: column_of_def min_def split: if_splits)

lemma newlines_le: "newlines (take n s) \<le> length s"
  using length_filter_le [of "\<lambda>c. c = CHR 0x0A" "take n s"] by (simp add: newlines_def)

lemma sint_of_nat_u32: "n < 2 ^ 31 \<Longrightarrow> sint (of_nat n :: u32) = int n"
  by (simp add: signed_of_nat signed_take_bit_int_eq_self)

text \<open>
  C32. Tokens carry their position: in a source of less than \<open>2^31 - 1\<close> characters in which no
  backslash stands directly before a newline, whatever mixture of \<open>lexer_next\<close> and \<open>lexer_peek\<close>
  calls was made before, the column of the next token is the column of its first character and
  its line is one more than the number of newlines up to its end. The text of the token, unless it
  is an error message, is what lies between the two cursors.
\<close>

theorem lexer_token_position:
  assumes "lexer_reach junk src a" and "lexer_next a = (t, b)"
    and "no_escaped_break src" and "length src < 2 ^ 31 - 1"
  shows "sint (tok_column t) = int (column_of (take (lx_start b) src))
    \<and> sint (tok_line t) = 1 + int (newlines (take (lx_current b) src))
    \<and> (\<forall>k. tok_start t = Source k \<longrightarrow> k = lx_start b \<and> k + tok_length t = lx_current b)"
proof -
  have src: "lx_source b = src"
    using lexer_reach_inv [OF reach_next [OF assms(1)]] assms(2) by simp
  have "pos_ok b \<and> placed_token t b"
  proof (cases "lx_has_peeked a")
    case True
    then show ?thesis using lexer_reach_pos [OF assms(3,1)] assms(2)
      by (auto simp: lexer_next_def pos_ok_def placed_token_def)
  next
    case False
    then show ?thesis using lexer_reach_pos [OF assms(3,1)] assms(2) scan_token_placed [of a t b]
      by (simp add: lexer_next_def)
  qed
  moreover have "column_of (take (lx_start b) src) < 2 ^ 31" "Suc (newlines (take (lx_current b) src)) < 2 ^ 31"
    using column_of_le [of "lx_start b" src] newlines_le [of "lx_current b" src] assms(4) by simp_all
  ultimately show ?thesis
    using src sint_of_nat_u32 [of "column_of (take (lx_start b) src)"]
      sint_of_nat_u32 [of "Suc (newlines (take (lx_current b) src))"]
    by (simp add: pos_ok_def placed_token_def)
qed

theorem lexer_token_position_witness:
  "sint (tok_column (fst (lexer_next (lexer_new no_token ''  7'')))) = 3"
proof -
  let ?a = "lexer_new no_token ''  7''"
  have s: "lx_start (snd (lexer_next ?a)) = 2"
    by (simp add: lexer_next_def lexer_new_def scan_token_def skip_whitespace.simps peek_char_def
        char_at_def is_at_end_def Let_def advance_def is_alpha_def less_eq_char_def isdigit_def
        scan_number_def number_fraction_def number_exponent_def advance_while.simps)
  have "no_escaped_break ''  7''" by (simp add: no_escaped_break_def)
  then show ?thesis
    using lexer_token_position [OF reach_new [of no_token "''  7''"], of "fst (lexer_next ?a)" "snd (lexer_next ?a)"] s
    by (simp add: column_of_def)
qed

subsection \<open>Line breaks in strings\<close>

text \<open>
  The text between the quotes of a string: a backslash takes the character after it along, and
  only an escaped quote may occur. The newlines that follow a backslash in it are escaped.
\<close>

fun string_body :: "string \<Rightarrow> bool" where
  "string_body [] = True"
| "string_body [c] \<longleftrightarrow> c \<noteq> CHR 0x5C \<and> c \<noteq> CHR 0x22 \<and> c \<noteq> NUL"
| "string_body (c # d # w) \<longleftrightarrow>
     (if c = CHR 0x5C then d \<noteq> NUL \<and> string_body w else c \<noteq> CHR 0x22 \<and> c \<noteq> NUL \<and> string_body (d # w))"

fun escaped_newlines :: "string \<Rightarrow> nat" where
  "escaped_newlines [] = 0"
| "escaped_newlines [c] = 0"
| "escaped_newlines (c # d # w) =
     (if c = CHR 0x5C then (if d = CHR 0x0A then 1 else 0) + escaped_newlines w else escaped_newlines (d # w))"

lemma newlines_simps [simp]:
  "newlines [] = 0" "newlines (c # s) = (if c = CHR 0x0A then Suc (newlines s) else newlines s)"
  by (simp_all add: newlines_def)

lemma escaped_le: "escaped_newlines w \<le> newlines w"
  by (induction w rule: escaped_newlines.induct) auto

lemma peek_drop:
  assumes "drop (lx_current a) (lx_source a) = c # s" "c \<noteq> NUL"
  shows "peek_char a = c" "\<not> is_at_end a" "drop (lx_current (advance a)) (lx_source (advance a)) = s"
    "peek_next a = (case s of [] \<Rightarrow> NUL | d # _ \<Rightarrow> d)"
proof -
  have l: "lx_current a < length (lx_source a)" and n: "lx_source a ! lx_current a = c"
    and s: "drop (Suc (lx_current a)) (lx_source a) = s"
    using assms(1) by (metis drop_eq_Nil2 leI list.distinct(1), metis assms(1) Cons_nth_drop_Suc drop_eq_Nil2 leI list.distinct(1) list.inject,
        metis assms(1) Cons_nth_drop_Suc drop_eq_Nil2 leI list.distinct(1) list.inject)
  show p: "peek_char a = c" using l n by (simp add: peek_char_def char_at_def)
  show e: "\<not> is_at_end a" using p assms(2) by (auto simp: peek_char_end [symmetric])
  show "drop (lx_current (advance a)) (lx_source (advance a)) = s" using s by simp
  show "peek_next a = (case s of [] \<Rightarrow> NUL | d # _ \<Rightarrow> d)"
  proof (cases s)
    case Nil
    then show ?thesis using s e by (simp add: peek_next_def char_at_def)
  next
    case (Cons d s')
    then have "Suc (lx_current a) < length (lx_source a)" "lx_source a ! Suc (lx_current a) = d"
      using s by (metis drop_eq_Nil2 leI list.distinct(1), metis s Cons_nth_drop_Suc drop_eq_Nil2 leI list.distinct(1) list.inject)
    then show ?thesis using Cons e by (simp add: peek_next_def char_at_def)
  qed
qed

lemma newline_line: "lx_line (newline_in_token a) = lx_line a + (if peek_char a = CHR 0x0A then 1 else 0)"
  by (simp add: newline_in_token_def)

lemma string_loop_body:
  assumes "string_body w" and "drop (lx_current a) (lx_source a) = w @ CHR 0x22 # rest"
  shows "lx_current (string_loop a) = lx_current a + length w
    \<and> lx_line (string_loop a) = lx_line a + of_nat (newlines w - escaped_newlines w)
    \<and> drop (lx_current (string_loop a)) (lx_source (string_loop a)) = CHR 0x22 # rest"
  using assms
proof (induction w arbitrary: a rule: string_body.induct)
  case 1
  then have "string_loop a = a" using peek_drop(1) [of a "CHR 0x22" rest] by (subst string_loop.simps) simp
  then show ?case using 1 by simp
next
  case (2 c)
  note p = peek_drop [of a c "CHR 0x22 # rest"]
  have c: "peek_char a = c" "\<not> is_at_end a" "c \<noteq> CHR 0x5C" "c \<noteq> CHR 0x22" using 2 p by auto
  let ?b = "advance (newline_in_token a)"
  have b: "drop (lx_current ?b) (lx_source ?b) = CHR 0x22 # rest" using 2 p(3) by simp
  have "string_loop a = string_loop ?b" using c by (subst string_loop.simps) simp
  also have "\<dots> = ?b" using peek_drop(1) [OF b] by (subst string_loop.simps) simp
  finally show ?case using b c by (simp add: newline_line)
next
  case (3 c d w)
  note p = peek_drop [of a c "d # w @ CHR 0x22 # rest"]
  show ?case
  proof (cases "c = CHR 0x5C")
    case True
    let ?b = "advance (advance a)"
    have a: "peek_char a = c" "\<not> is_at_end a" "peek_next a = d" "d \<noteq> NUL"
      "drop (lx_current (advance a)) (lx_source (advance a)) = d # w @ CHR 0x22 # rest"
      using 3(3,4) p True by auto
    have b: "drop (lx_current ?b) (lx_source ?b) = w @ CHR 0x22 # rest" by (rule peek_drop(3) [OF a(5,4)])
    have e: "string_loop a = string_loop ?b"
      using a True by (subst string_loop.simps) (simp add: newline_in_token_def Let_def)
    have "string_body w" using 3(3) True by simp
    from 3(1) [OF True this b] have ih: "lx_current (string_loop ?b) = lx_current ?b + length w"
      "lx_line (string_loop ?b) = lx_line ?b + of_nat (newlines w - escaped_newlines w)"
      "drop (lx_current (string_loop ?b)) (lx_source (string_loop ?b)) = CHR 0x22 # rest" by blast+
    have "newlines (c # d # w) - escaped_newlines (c # d # w) = newlines w - escaped_newlines w"
      using True by simp
    then show ?thesis unfolding e using ih by simp
  next
    case False
    let ?b = "advance (newline_in_token a)"
    have a: "peek_char a = c" "\<not> is_at_end a" "c \<noteq> CHR 0x22" "string_body (d # w)"
      "drop (lx_current (advance a)) (lx_source (advance a)) = d # w @ CHR 0x22 # rest"
      using 3(3,4) p False by auto
    have b: "drop (lx_current ?b) (lx_source ?b) = (d # w) @ CHR 0x22 # rest" using a(5) by simp
    have e: "string_loop a = string_loop ?b" using a False by (subst string_loop.simps) simp
    from 3(2) [OF False a(4) b] have ih: "lx_current (string_loop ?b) = lx_current ?b + length (d # w)"
      "lx_line (string_loop ?b) = lx_line ?b + of_nat (newlines (d # w) - escaped_newlines (d # w))"
      "drop (lx_current (string_loop ?b)) (lx_source (string_loop ?b)) = CHR 0x22 # rest" by blast+
    have "newlines (c # d # w) - escaped_newlines (c # d # w)
        = (if c = CHR 0x0A then 1 else 0) + (newlines (d # w) - escaped_newlines (d # w))"
      using False escaped_le [of "d # w"] newlines_simps(2) [of c "d # w"] by (simp add: Suc_diff_le del: newlines_simps)
    then show ?thesis unfolding e using ih a(1) by (simp add: newline_line del: newlines_simps)
  qed
qed

text \<open>
  C33. An escaped newline is not counted: from any state in which the next character opens a
  string whose text contains line breaks, plain or escaped, the lexer returns the whole string as
  one token, but advances the line counter only by the newlines that no backslash precedes. The
  line of the token and of everything after it is too small by the number of escaped newlines.
\<close>

theorem escaped_newline_not_counted:
  assumes "\<not> lx_has_peeked a" and "drop (lx_current a) (lx_source a) = CHR 0x22 # w @ CHR 0x22 # rest"
    and "string_body w" and "lexer_next a = (t, b)"
  shows "tok_type t = TOK_STRING \<and> tok_start t = Source (lx_current a) \<and> tok_length t = length w + 2
    \<and> lx_current b = lx_current a + length w + 2
    \<and> lx_line b + of_nat (escaped_newlines w) = lx_line a + of_nat (newlines w) \<and> tok_line t = lx_line b"
proof -
  let ?s = "a\<lparr>lx_start := lx_current a, lx_start_column := lx_column a\<rparr>" and ?q = "CHR 0x22"
  note p = peek_drop [OF assms(2), simplified]
  have "skip_whitespace a = a" using p(1) by (subst skip_whitespace.simps) simp
  moreover have "is_at_end ?s = is_at_end a" "peek_char ?s = peek_char a" by (simp_all add: is_at_end_def peek_char_def)
  ultimately have "lexer_next a = scan_string (advance ?s)"
    using assms(1) p(1,2)
    by (simp add: lexer_next_def scan_token_def Let_def is_alpha_def isdigit_def less_eq_char_def scan_operator_def)
  moreover have "drop (lx_current (advance ?s)) (lx_source (advance ?s)) = w @ ?q # rest" using p(3) by simp
  note l = string_loop_body [OF assms(3) this]
  have "\<not> is_at_end (string_loop (advance ?s))" using peek_drop(2) l by blast
  moreover have "lx_start (string_loop (advance ?s)) = lx_current a"
    using ahead_startD [OF ahead_string_loop, of "advance ?s"] by simp
  ultimately have "t = make_token (advance (string_loop (advance ?s))) TOK_STRING"
      "b = advance (string_loop (advance ?s))" "lx_start b = lx_current a"
    using assms(4) by (auto simp: scan_string_def Let_def)
  moreover have "(of_nat (newlines w - escaped_newlines w) :: u32) = of_nat (newlines w) - of_nat (escaped_newlines w)"
    using escaped_le [of w] by (rule of_nat_diff)
  ultimately show ?thesis using l by (simp add: make_token_def)
qed

theorem escaped_newline_not_counted_witness:
  "let (t, b) = lexer_next (lexer_new no_token [CHR 0x22, CHR 0x5C, CHR 0x0A, CHR 0x22, CHR ''x''])
   in tok_type t = TOK_STRING \<and> tok_line t = 1 \<and> newlines (take (lx_current b) (lx_source b)) = 1"
proof -
  let ?w = "[CHR 0x5C, CHR 0x0A]"
  let ?a = "lexer_new no_token (CHR 0x22 # ?w @ CHR 0x22 # ''x'')"
  obtain t b where tb: "lexer_next ?a = (t, b)" by force
  have "\<not> lx_has_peeked ?a" "drop (lx_current ?a) (lx_source ?a) = CHR 0x22 # ?w @ CHR 0x22 # ''x''"
    by (simp_all add: lexer_new_def)
  from escaped_newline_not_counted [OF this _ tb]
  have t: "tok_type t = TOK_STRING" "lx_current b = 4" "lx_line b = 1" "tok_line t = lx_line b"
    by (simp_all add: lexer_new_def)
  have "lx_source b = lx_source ?a"
    using scan_token_slice [of ?a t b] tb by (simp add: lexer_next_def lexer_new_def)
  then show ?thesis using t tb by (simp add: lexer_new_def)
qed

subsection \<open>Words\<close>

lemma advance_while_eq:
  assumes "\<not> P NUL"
  shows "advance_while P a =
    (let n = length (takeWhile P (drop (lx_current a) (lx_source a)))
     in a\<lparr>lx_current := lx_current a + n, lx_column := lx_column a + of_nat n\<rparr>)"
  using assms
proof (induction P a rule: advance_while.induct)
  case (1 P a)
  show ?case
  proof (cases "\<not> is_at_end a \<and> P (peek_char a)")
    case True
    then have "drop (lx_current a) (lx_source a) = peek_char a # drop (Suc (lx_current a)) (lx_source a)"
      using not_at_end_less [of a] by (simp add: Cons_nth_drop_Suc peek_char_def char_at_def)
    then show ?thesis
      using True 1 by (subst advance_while.simps) (simp add: advance_def Let_def)
  next
    case False
    have "takeWhile P (drop (lx_current a) (lx_source a)) = []"
    proof (cases "drop (lx_current a) (lx_source a)")
      case (Cons c cs)
      then have "peek_char a = c"
        by (metis char_at_def drop_eq_Nil2 hd_drop_conv_nth leI list.distinct(1) list.sel(1) peek_char_def)
      then have "\<not> P c" using False 1(2) by (auto simp: peek_char_end [symmetric])
      then show ?thesis by (simp add: Cons)
    qed simp
    moreover have "advance_while P a = a"
      using False by (simp only: advance_while.simps [of P a] if_False)
    ultimately show ?thesis by (simp add: Let_def)
  qed
qed

definition blank :: "char \<Rightarrow> bool" where
  "blank c \<longleftrightarrow> c = CHR '' '' \<or> c = CHR 0x09 \<or> c = CHR 0x0D"

lemma skip_blanks:
  assumes "list_all blank bl" and "drop (lx_current a) (lx_source a) = bl @ c # s" and "is_alpha c"
  shows "skip_whitespace a = a\<lparr>lx_current := lx_current a + length bl, lx_column := lx_column a + of_nat (length bl)\<rparr>"
  using assms
proof (induction bl arbitrary: a)
  case Nil
  have c: "c \<noteq> NUL" "\<not> blank c" "c \<noteq> CHR ''/''" using Nil(3) by (auto simp: is_alpha_def blank_def less_eq_char_def)
  then show ?case using Nil(2) peek_drop(1) [of a c s] by (subst skip_whitespace.simps) (simp add: blank_def)
next
  case (Cons d bl)
  have d: "blank d" "d \<noteq> NUL" using Cons.prems(1) by (auto simp: blank_def)
  note p = peek_drop [of a d "bl @ c # s"]
  have "skip_whitespace a = skip_whitespace (advance a)"
    using d p(1) Cons.prems(2) by (subst skip_whitespace.simps) (simp add: blank_def)
  then show ?case using Cons.IH [of "advance a"] Cons.prems p(3) d by (simp add: advance_def)
qed

text \<open>
  C34. Words are lexed by longest match: from any state of the lexer with no token peeked, after
  blanks, a letter followed by letters, digits and underscores is one token, ending before the
  first character that is none of these; it is a keyword token exactly when the whole word is in
  the keyword table, and an identifier otherwise. The token starts at the letter and carries the
  line of the lexer and the column of the letter; the cursor moves behind it.
\<close>

theorem lex_word:
  assumes "\<not> lx_has_peeked a" and "drop (lx_current a) (lx_source a) = bl @ c # w @ rest"
    and "list_all blank bl" and "is_alpha c" and "list_all is_alnum w" and "rest = [] \<or> \<not> is_alnum (hd rest)"
  shows "fst (lexer_next a) =
    \<lparr>tok_type = (case map_of keyword_table (c # w) of Some ty \<Rightarrow> ty | None \<Rightarrow> TOK_IDENT),
     tok_start = Source (lx_current a + length bl), tok_length = Suc (length w),
     tok_line = lx_line a, tok_column = lx_column a + of_nat (length bl)\<rparr>
    \<and> lx_current (snd (lexer_next a)) = lx_current a + length bl + Suc (length w)"
proof -
  let ?i = "lx_current a + length bl" and ?k = "lx_column a + of_nat (length bl)"
  let ?s = "a\<lparr>lx_current := ?i, lx_column := ?k, lx_start := ?i, lx_start_column := ?k\<rparr>"
  have d: "drop (lx_current ?s) (lx_source ?s) = c # w @ rest"
    using arg_cong [OF assms(2), of "drop (length bl)"] by (simp add: add.commute)
  have c: "c \<noteq> NUL" using assms(4) by (auto simp: is_alpha_def less_eq_char_def)
  note p = peek_drop [OF d c]
  have "scan_token a = scan_identifier (advance ?s)"
    unfolding scan_token_def skip_blanks [OF assms(3,2,4)] Let_def using p(1,2) assms(4) by simp
  then have s: "lexer_next a = scan_identifier (advance ?s)" using assms(1) by (simp add: lexer_next_def)
  have "takeWhile is_alnum (w @ rest) = w"
    using assms(5,6) by (cases rest) (auto simp: takeWhile_append list_all_iff)
  moreover have "\<not> is_alnum NUL" by (simp add: is_alnum_def is_alpha_def isdigit_def less_eq_char_def)
  ultimately have "advance_while is_alnum (advance ?s) =
      (advance ?s)\<lparr>lx_current := Suc ?i + length w, lx_column := ?k + 1 + of_nat (length w)\<rparr>"
    using p(3) by (subst advance_while_eq) (simp_all add: Let_def)
  moreover have "lookup_keyword ks v = (case map_of ks v of Some ty \<Rightarrow> ty | None \<Rightarrow> TOK_IDENT)" for ks v
    by (induction ks v rule: lookup_keyword.induct) auto
  moreover have "take (Suc (length w)) (drop ?i (lx_source a)) = c # w" using d by simp
  ultimately show ?thesis unfolding s
    by (simp add: scan_identifier_def Let_def make_token_def check_keyword_def advance_def)
qed

theorem lex_word_witness:
  "map (\<lambda>k. tok_type (fst (lexer_next (((\<lambda>a. snd (lexer_next a)) ^^ k) (lexer_new no_token ''iffy  let{'')))))
     [0, 1] = [TOK_IDENT, TOK_LET]"
proof -
  let ?a = "lexer_new no_token ''iffy  let{''"
  let ?b = "snd (lexer_next ?a)"
  note ch = is_alpha_def is_alnum_def isdigit_def less_eq_char_def blank_def
  have "map_of keyword_table ''iffy'' = None" "map_of keyword_table ''let'' = Some TOK_LET"
    by (simp_all add: keyword_table_def)
  note k = this
  have a: "\<not> lx_has_peeked ?a" "drop (lx_current ?a) (lx_source ?a) = [] @ CHR ''i'' # ''ffy'' @ ''  let{''"
    by (simp_all add: lexer_new_def)
  have 1: "tok_type (fst (lexer_next ?a)) = TOK_IDENT" "lx_current ?b = 4"
    using lex_word [OF a] k by (simp_all add: ch lexer_new_def)
  have "lx_source ?b = lx_source ?a \<and> \<not> lx_has_peeked ?b"
    using scan_token_slice [of ?a "fst (scan_token ?a)" ?b] a(1) by (simp add: lexer_next_def)
  then have b: "\<not> lx_has_peeked ?b" "drop (lx_current ?b) (lx_source ?b) = ''  '' @ CHR ''l'' # ''et'' @ ''{''"
    using 1(2) by (simp_all add: lexer_new_def)
  have "tok_type (fst (lexer_next ?b)) = TOK_LET"
    using lex_word [OF b] k by (simp add: ch)
  then show ?thesis using 1(1) by simp
qed

end
