(* ===== verification/Float64.thy ===== *)
theory Float64
  imports Prelude
begin

text \<open>
  The C type \<^verbatim>\<open>double\<close> as its IEEE 754 binary64 bit pattern: comparison, conversion from
  an integer with round to nearest, ties to even, and the truncating conversion to
  \<^verbatim>\<open>int64_t\<close>, which is undefined for values out of range (\<open>None\<close>). The pattern without
  its sign bit orders like the magnitude it denotes, so comparison needs no rational arithmetic.
\<close>

type_synonym f64 = u64

definition f64_neg :: "f64 \<Rightarrow> bool" where
  "f64_neg x = bit x 63"

definition f64_mag :: "f64 \<Rightarrow> nat" where
  "f64_mag x = unat (take_bit 63 x)"

definition f64_is_nan :: "f64 \<Rightarrow> bool" where
  "f64_is_nan x \<longleftrightarrow> 2047 * 2 ^ 52 < f64_mag x"

definition f64_key :: "f64 \<Rightarrow> int" where
  "f64_key x = (if f64_neg x then - int (f64_mag x) else int (f64_mag x))"

definition f64_eq :: "f64 \<Rightarrow> f64 \<Rightarrow> bool" where
  "f64_eq x y \<longleftrightarrow> \<not> f64_is_nan x \<and> \<not> f64_is_nan y \<and> f64_key x = f64_key y"

definition f64_lt :: "f64 \<Rightarrow> f64 \<Rightarrow> bool" where
  "f64_lt x y \<longleftrightarrow> \<not> f64_is_nan x \<and> \<not> f64_is_nan y \<and> f64_key x < f64_key y"

subsection \<open>From integers\<close>

fun bit_length :: "nat \<Rightarrow> nat" where
  "bit_length n = (if n = 0 then 0 else Suc (bit_length (n div 2)))"

declare bit_length.simps [simp del]

definition round_shift :: "nat \<Rightarrow> nat \<Rightarrow> nat" where
  "round_shift m k =
     (let q = m div 2 ^ k; r = m mod 2 ^ k
      in if 2 ^ k < 2 * r \<or> (2 * r = 2 ^ k \<and> odd q) then Suc q else q)"

definition f64_mag_of_nat :: "nat \<Rightarrow> nat" where
  "f64_mag_of_nat m =
     (if m = 0 then 0
      else let b = bit_length m;
               f = (if b \<le> 53 then m * 2 ^ (53 - b) else round_shift m (b - 53))
           in (b + 1021) * 2 ^ 52 + f)"

definition f64_of_int :: "int \<Rightarrow> f64" where
  "f64_of_int i =
     of_nat (f64_mag_of_nat (nat \<bar>i\<bar>)) + (if i < 0 then 2 ^ 63 else 0)"

subsection \<open>To integers\<close>

definition f64_to_int :: "f64 \<Rightarrow> int option" where
  "f64_to_int x =
     (let e = f64_mag x div 2 ^ 52;
          s = f64_mag x mod 2 ^ 52 + 2 ^ 52;
          m = (if e < 1023 then 0
               else if e < 1075 then s div 2 ^ (1075 - e)
               else s * 2 ^ (e - 1075));
          i = (if f64_neg x then - int m else int m)
      in if e = 2047 \<or> i < - (2 ^ 63) \<or> 2 ^ 63 \<le> i then None else Some i)"

subsection \<open>Comparison\<close>

lemma f64_eq_sym: "f64_eq x y \<longleftrightarrow> f64_eq y x"
  by (auto simp: f64_eq_def)

lemma f64_eq_trans: "f64_eq x y \<Longrightarrow> f64_eq y z \<Longrightarrow> f64_eq x z"
  by (auto simp: f64_eq_def)

lemma f64_eq_refl_iff: "f64_eq x x \<longleftrightarrow> \<not> f64_is_nan x"
  by (simp add: f64_eq_def)

subsection \<open>Exact integers\<close>

lemma bit_length_bounds: "0 < m \<Longrightarrow> 2 ^ (bit_length m - 1) \<le> m \<and> m < 2 ^ bit_length m \<and> 0 < bit_length m"
proof (induction m rule: bit_length.induct)
  case (1 m)
  have b: "bit_length m = Suc (bit_length (m div 2))"
    using "1.prems" by (simp add: bit_length.simps [of m])
  show ?case
  proof (cases "m div 2 = 0")
    case True
    with "1.prems" have "m = 1" by simp
    with True b show ?thesis by (simp add: bit_length.simps [of 0])
  next
    case False
    then have IH: "2 ^ (bit_length (m div 2) - 1) \<le> m div 2"
      "m div 2 < 2 ^ bit_length (m div 2)" "0 < bit_length (m div 2)"
      using "1.IH" "1.prems" by auto
    define k where "k = bit_length (m div 2) - 1"
    have k: "bit_length (m div 2) = Suc k" using IH(3) by (simp add: k_def)
    have "2 ^ k \<le> m div 2" "m div 2 < 2 * 2 ^ k" using IH(1,2) k by auto
    then have "2 * 2 ^ k \<le> m" "m < 2 * (2 * 2 ^ k)" by linarith+
    with b k show ?thesis by simp
  qed
qed

lemma bit_length_le: "m < 2 ^ k \<Longrightarrow> bit_length m \<le> k"
proof (cases "m = 0")
  case False
  assume "m < 2 ^ k"
  moreover have "2 ^ (bit_length m - 1) \<le> m" "0 < bit_length m"
    using False bit_length_bounds by auto
  ultimately have "(2::nat) ^ (bit_length m - 1) < 2 ^ k" by linarith
  then have "bit_length m - 1 < k" by (simp add: power_less_imp_less_exp)
  then show ?thesis using \<open>0 < bit_length m\<close> by linarith
qed (simp add: bit_length.simps)

lemma bit_length_mono: "m \<le> n \<Longrightarrow> bit_length m \<le> bit_length n"
proof (cases "n = 0")
  case False
  assume "m \<le> n"
  have "n < 2 ^ bit_length n" using False bit_length_bounds by auto
  with \<open>m \<le> n\<close> have "m < 2 ^ bit_length n" by linarith
  then show ?thesis by (rule bit_length_le)
qed simp

text \<open>An integer below \<open>2 ^ 53\<close> fills the significand exactly.\<close>

lemma f64_mag_of_nat_exact:
  assumes "0 < m" and "m < 2 ^ 53"
  obtains f where "f64_mag_of_nat m = (bit_length m + 1021) * 2 ^ 52 + f"
    and "f = m * 2 ^ (53 - bit_length m)" and "2 ^ 52 \<le> f" and "f < 2 ^ 53"
    and "bit_length m \<le> 53" and "0 < bit_length m"
proof -
  let ?b = "bit_length m"
  have b: "?b \<le> 53" using bit_length_le [OF assms(2)] .
  have lo: "2 ^ (?b - 1) \<le> m" and hi: "m < 2 ^ ?b" and pos: "0 < ?b"
    using bit_length_bounds [OF assms(1)] by auto
  have "(2::nat) ^ (?b - 1) * 2 ^ (53 - ?b) = 2 ^ 52"
    using b pos by (simp add: power_add [symmetric])
  then have "2 ^ 52 \<le> m * 2 ^ (53 - ?b)"
    using mult_le_mono1 [OF lo, of "2 ^ (53 - ?b)"] by simp
  moreover have "(2::nat) ^ ?b * 2 ^ (53 - ?b) = 2 ^ 53"
    using b by (simp add: power_add [symmetric])
  then have "m * 2 ^ (53 - ?b) < 2 ^ 53"
    using mult_less_mono1 [OF hi, of "2 ^ (53 - ?b)"] by simp
  moreover have "f64_mag_of_nat m = (?b + 1021) * 2 ^ 52 + m * 2 ^ (53 - ?b)"
    using assms(1) b by (simp add: f64_mag_of_nat_def Let_def)
  ultimately show ?thesis using that b pos by blast
qed

lemma f64_mag_of_nat_mono:
  assumes "m < n" and "n < 2 ^ 53"
  shows "f64_mag_of_nat m < f64_mag_of_nat n"
proof -
  have "0 < n" using assms(1) by simp
  then obtain g where g: "f64_mag_of_nat n = (bit_length n + 1021) * 2 ^ 52 + g"
    "g = n * 2 ^ (53 - bit_length n)" "2 ^ 52 \<le> g"
    using f64_mag_of_nat_exact [OF _ assms(2)] by metis
  show ?thesis
  proof (cases "m = 0")
    case True
    then show ?thesis using g by (simp add: f64_mag_of_nat_def)
  next
    case False
    moreover have "m < 2 ^ 53" using assms by linarith
    ultimately obtain f where f: "f64_mag_of_nat m = (bit_length m + 1021) * 2 ^ 52 + f"
      "f = m * 2 ^ (53 - bit_length m)" "f < 2 ^ 53"
      using f64_mag_of_nat_exact by (metis bot_nat_0.not_eq_extremum)
    have le: "bit_length m \<le> bit_length n" using assms(1) by (simp add: bit_length_mono)
    show ?thesis
    proof (cases "bit_length m = bit_length n")
      case True
      have "f < g" using f(2) g(2) True assms(1) by simp
      then show ?thesis using f(1) g(1) True by simp
    next
      case False
      with le have "Suc (bit_length m) \<le> bit_length n" by simp
      then have "(Suc (bit_length m) + 1021) * 2 ^ 52 \<le> (bit_length n + 1021) * (2 ^ 52 :: nat)"
        by (intro mult_le_mono1) simp
      then show ?thesis using f(1,3) g(1,3) by simp
    qed
  qed
qed

lemma f64_mag_of_nat_inject:
  assumes "m < 2 ^ 53" and "n < 2 ^ 53"
  shows "f64_mag_of_nat m = f64_mag_of_nat n \<longleftrightarrow> m = n"
  using f64_mag_of_nat_mono [of m n] f64_mag_of_nat_mono [of n m] assms
  by (cases m n rule: linorder_cases) auto

lemma f64_mag_of_nat_bound:
  assumes "m < 2 ^ 53"
  shows "f64_mag_of_nat m < 1076 * 2 ^ 52"
proof (cases "m = 0")
  case False
  then obtain f where "f64_mag_of_nat m = (bit_length m + 1021) * 2 ^ 52 + f"
    "f < 2 ^ 53" "bit_length m \<le> 53"
    using f64_mag_of_nat_exact [OF _ assms] by (metis bot_nat_0.not_eq_extremum)
  then show ?thesis by simp
qed (simp add: f64_mag_of_nat_def)

lemma nat_abs_less_53: "\<bar>i\<bar> < 2 ^ 53 \<Longrightarrow> nat \<bar>i\<bar> < 2 ^ 53"
  by (simp add: nat_less_iff)

lemma f64_of_int_parts:
  assumes "\<bar>i\<bar> < 2 ^ 53"
  shows "f64_mag (f64_of_int i) = f64_mag_of_nat (nat \<bar>i\<bar>)"
    and "f64_neg (f64_of_int i) = (i < 0)"
    and "\<not> f64_is_nan (f64_of_int i)"
proof -
  let ?m = "f64_mag_of_nat (nat \<bar>i\<bar>)"
  have "nat \<bar>i\<bar> < 2 ^ 53" using assms by (rule nat_abs_less_53)
  then have m: "?m < 1076 * 2 ^ 52" by (rule f64_mag_of_nat_bound)
  then have m63: "?m < 2 ^ 63" by simp
  have u: "unat (f64_of_int i) = ?m + (if i < 0 then 2 ^ 63 else 0)"
  proof -
    have "f64_of_int i = of_nat (?m + (if i < 0 then 2 ^ 63 else 0))"
      by (simp add: f64_of_int_def)
    moreover have "?m + (if i < 0 then 2 ^ 63 else 0) < 2 ^ LENGTH(64)" using m63 by auto
    ultimately show ?thesis by (simp only: unat_of_nat mod_less)
  qed
  show mag: "f64_mag (f64_of_int i) = ?m"
  proof -
    have "f64_mag (f64_of_int i) = (?m + (if i < 0 then 2 ^ 63 else 0)) mod 2 ^ 63"
      unfolding f64_mag_def unsigned_take_bit_eq u by (rule take_bit_eq_mod)
    also have "\<dots> = ?m" using m63 by (cases "i < 0") (simp_all only: if_True if_False
      mod_add_self2 mod_less add_0_right)
    finally show ?thesis .
  qed
  show "\<not> f64_is_nan (f64_of_int i)"
    using m by (simp add: f64_is_nan_def mag)
  show "f64_neg (f64_of_int i) = (i < 0)"
  proof -
    have "f64_neg (f64_of_int i) = odd (unat (f64_of_int i) div 2 ^ 63)"
      by (simp only: f64_neg_def bit_unsigned_iff bit_iff_odd [symmetric]) simp
    also have "\<dots> = (i < 0)"
      unfolding u using m63 by (cases "i < 0") (simp_all only: if_True if_False add_0_right
        div_less div_add_self2, simp_all)
    finally show ?thesis .
  qed
qed

lemma f64_of_int_eq_iff:
  assumes "\<bar>i\<bar> < 2 ^ 53" and "\<bar>j\<bar> < 2 ^ 53"
  shows "f64_eq (f64_of_int i) (f64_of_int j) \<longleftrightarrow> i = j"
proof -
  have ni: "nat \<bar>i\<bar> < 2 ^ 53" and nj: "nat \<bar>j\<bar> < 2 ^ 53"
    using assms by (auto intro: nat_abs_less_53)
  have z: "f64_mag_of_nat m = 0 \<longleftrightarrow> m = 0" if "m < 2 ^ 53" for m
    using f64_mag_of_nat_inject [OF that, of 0] by (simp add: f64_mag_of_nat_def)
  have inj: "f64_mag_of_nat (nat \<bar>i\<bar>) = f64_mag_of_nat (nat \<bar>j\<bar>) \<longleftrightarrow> nat \<bar>i\<bar> = nat \<bar>j\<bar>"
    by (rule f64_mag_of_nat_inject [OF ni nj])
  have key: "f64_key (f64_of_int k) =
      (if k < 0 then - int (f64_mag_of_nat (nat \<bar>k\<bar>)) else int (f64_mag_of_nat (nat \<bar>k\<bar>)))"
    if "\<bar>k\<bar> < 2 ^ 53" for k
    by (simp only: f64_key_def f64_of_int_parts [OF that])
  have "i = j" if eq: "f64_key (f64_of_int i) = f64_key (f64_of_int j)"
  proof (cases "i < 0 \<longleftrightarrow> j < 0")
    case True
    with eq have "nat \<bar>i\<bar> = nat \<bar>j\<bar>"
      unfolding key [OF assms(1)] key [OF assms(2)] using inj by (simp split: if_splits)
    with True show ?thesis by linarith
  next
    case False
    with eq have "f64_mag_of_nat (nat \<bar>i\<bar>) = 0 \<and> f64_mag_of_nat (nat \<bar>j\<bar>) = 0"
      unfolding key [OF assms(1)] key [OF assms(2)] by (simp split: if_splits)
    then have "nat \<bar>i\<bar> = 0" "nat \<bar>j\<bar> = 0" using z [OF ni] z [OF nj] by blast+
    with False show ?thesis by linarith
  qed
  then have "f64_key (f64_of_int i) = f64_key (f64_of_int j) \<longleftrightarrow> i = j" by blast
  then show ?thesis
    by (simp add: f64_eq_def f64_of_int_parts [OF assms(1)] f64_of_int_parts [OF assms(2)])
qed

text \<open>Converting to \<^verbatim>\<open>double\<close> and back is exact below \<open>2 ^ 53\<close>.\<close>

lemma f64_to_of_int:
  assumes "\<bar>i\<bar> < 2 ^ 53"
  shows "f64_to_int (f64_of_int i) = Some i"
proof (cases "i = 0")
  case True
  then show ?thesis
    by (simp add: f64_to_int_def f64_of_int_def f64_mag_of_nat_def f64_mag_def f64_neg_def Let_def)
next
  case False
  let ?m = "nat \<bar>i\<bar>" and ?b = "bit_length (nat \<bar>i\<bar>)"
  have "0 < ?m" "?m < 2 ^ 53" using False assms by (simp, intro nat_abs_less_53)
  then obtain f where f: "f64_mag_of_nat ?m = (?b + 1021) * 2 ^ 52 + f"
    "f = ?m * 2 ^ (53 - ?b)" "2 ^ 52 \<le> f" "f < 2 ^ 53" "?b \<le> 53" "0 < ?b"
    using f64_mag_of_nat_exact by metis
  define r where "r = f - 2 ^ 52"
  have r: "r < 2 ^ 52" "f = 2 ^ 52 + r" using f(3,4) by (auto simp: r_def)
  have mag: "f64_mag (f64_of_int i) = (?b + 1022) * 2 ^ 52 + r"
    using f(1) r(2) by (simp add: f64_of_int_parts [OF assms])
  have "((?b + 1022) * 2 ^ 52 + r) div 2 ^ 52 = ?b + 1022" using r(1) by simp
  then have e: "f64_mag (f64_of_int i) div 2 ^ 52 = ?b + 1022" by (simp only: mag)
  have "((?b + 1022) * 2 ^ 52 + r) mod 2 ^ 52 = r mod 2 ^ 52" by (rule mod_mult_self3)
  then have s: "f64_mag (f64_of_int i) mod 2 ^ 52 + 2 ^ 52 = f"
    using r by (simp only: mag mod_less add.commute)
  have d: "f div 2 ^ (1075 - (?b + 1022)) = ?m" using f(2,5) by simp
  have i: "(if f64_neg (f64_of_int i) then - int ?m else int ?m) = i"
    by (simp add: f64_of_int_parts [OF assms])
  have m: "(if ?b + 1022 < 1023 then 0 else if ?b + 1022 < 1075 then f div 2 ^ (1075 - (?b + 1022))
      else f * 2 ^ (?b + 1022 - 1075)) = ?m"
  proof (cases "?b = 53")
    case True
    then show ?thesis using f(2) by simp
  next
    case False
    then have "\<not> ?b + 1022 < 1023" "?b + 1022 < 1075" using f(5,6) by linarith+
    then show ?thesis using d by (simp only: if_False if_True)
  qed
  have "\<not> (?b + 1022 = 2047 \<or> i < - (2 ^ 63) \<or> 2 ^ 63 \<le> i)"
    using f(5) assms by (auto simp: abs_if split: if_splits)
  then show ?thesis
    unfolding f64_to_int_def e s Let_def m i by simp
qed

end
