(* ===== verification/Ast.thy ===== *)
theory Ast
  imports Lexer Float64
begin

text \<open>
  The syntax tree of \<^verbatim>\<open>lang/ast.h\<close>: one constructor per \<^verbatim>\<open>NodeType\<close>, carrying the line and the
  fields of its member of the union. \<open>NODE_NULL\<close> is the null pointer. A pointer to an array of
  nodes with its count is a list; the parallel arrays of keys and values are a list of pairs.
\<close>

datatype MatchPatternKind =
    MATCH_PATTERN_OK | MATCH_PATTERN_ERR | MATCH_PATTERN_SOME | MATCH_PATTERN_NONE | MATCH_PATTERN_ENUM

datatype (plugins only: code size) AstNode =
    NODE_NULL
  | NODE_PROGRAM int "AstNode list"
  | NODE_TOOL_DECL int string "AstNode list" AstNode AstNode "string option" AstNode
  | NODE_FN_DECL int string "AstNode list" AstNode AstNode "string option" AstNode
  | NODE_PARAM int string AstNode
  | NODE_IMPORT int string
  | NODE_IMPORT_FROM int "string list" string
  | NODE_EXPORT int AstNode
  | NODE_STRUCT_DECL int string "AstNode list"
  | NODE_STRUCT_FIELD int string AstNode
  | NODE_ENUM_DECL int string "AstNode list"
  | NODE_ENUM_VARIANT int string AstNode
  | NODE_TYPE_ALIAS int string AstNode
  | NODE_BLOCK int "AstNode list"
  | NODE_LET int string AstNode AstNode bool
  | NODE_CONST int string AstNode AstNode bool
  | NODE_IF int AstNode AstNode AstNode
  | NODE_FOR int string "string option" AstNode AstNode
  | NODE_WHILE int AstNode AstNode
  | NODE_RETURN int AstNode
  | NODE_BREAK int
  | NODE_CONTINUE int
  | NODE_EXPR_STMT int AstNode
  | NODE_TYPE_NAME int string
  | NODE_TYPE_GENERIC int string "AstNode list"
  | NODE_TYPE_ARRAY int AstNode
  | NODE_TYPE_MAP int AstNode AstNode
  | NODE_TYPE_FUNC int "AstNode list" AstNode
  | NODE_BINARY int TokenType AstNode AstNode
  | NODE_UNARY int TokenType AstNode
  | NODE_CALL int AstNode "AstNode list"
  | NODE_MEMBER int AstNode string
  | NODE_INDEX int AstNode AstNode
  | NODE_TERNARY int AstNode AstNode AstNode
  | NODE_ASSIGN int AstNode TokenType AstNode
  | NODE_IDENT int string
  | NODE_INT int u64
  | NODE_FLOAT int f64
  | NODE_STRING int string
  | NODE_BOOL int bool
  | NODE_NIL int
  | NODE_ARRAY int "AstNode list"
  | NODE_MAP int "(string \<times> AstNode) list"
  | NODE_MATCH int AstNode "AstNode list"
  | NODE_MATCH_ARM int MatchPatternKind "string option" "string option" AstNode
  | NODE_RESULT_OK int AstNode
  | NODE_RESULT_ERR int AstNode
  | NODE_TRY int AstNode
  | NODE_SOME int AstNode
  | NODE_NONE int
  | NODE_STRUCT_INIT int string "(string \<times> AstNode) list" AstNode
  | NODE_SPREAD int AstNode
  | NODE_ENUM_EXPR int string string AstNode
  | NODE_RANGE int AstNode AstNode bool

text \<open>\<^verbatim>\<open>node->line\<close>.\<close>

primrec ast_line :: "AstNode \<Rightarrow> int" where
  "ast_line NODE_NULL = 0"
| "ast_line (NODE_PROGRAM line _) = line"
| "ast_line (NODE_TOOL_DECL line _ _ _ _ _ _) = line"
| "ast_line (NODE_FN_DECL line _ _ _ _ _ _) = line"
| "ast_line (NODE_PARAM line _ _) = line"
| "ast_line (NODE_IMPORT line _) = line"
| "ast_line (NODE_IMPORT_FROM line _ _) = line"
| "ast_line (NODE_EXPORT line _) = line"
| "ast_line (NODE_STRUCT_DECL line _ _) = line"
| "ast_line (NODE_STRUCT_FIELD line _ _) = line"
| "ast_line (NODE_ENUM_DECL line _ _) = line"
| "ast_line (NODE_ENUM_VARIANT line _ _) = line"
| "ast_line (NODE_TYPE_ALIAS line _ _) = line"
| "ast_line (NODE_BLOCK line _) = line"
| "ast_line (NODE_LET line _ _ _ _) = line"
| "ast_line (NODE_CONST line _ _ _ _) = line"
| "ast_line (NODE_IF line _ _ _) = line"
| "ast_line (NODE_FOR line _ _ _ _) = line"
| "ast_line (NODE_WHILE line _ _) = line"
| "ast_line (NODE_RETURN line _) = line"
| "ast_line (NODE_BREAK line) = line"
| "ast_line (NODE_CONTINUE line) = line"
| "ast_line (NODE_EXPR_STMT line _) = line"
| "ast_line (NODE_TYPE_NAME line _) = line"
| "ast_line (NODE_TYPE_GENERIC line _ _) = line"
| "ast_line (NODE_TYPE_ARRAY line _) = line"
| "ast_line (NODE_TYPE_MAP line _ _) = line"
| "ast_line (NODE_TYPE_FUNC line _ _) = line"
| "ast_line (NODE_BINARY line _ _ _) = line"
| "ast_line (NODE_UNARY line _ _) = line"
| "ast_line (NODE_CALL line _ _) = line"
| "ast_line (NODE_MEMBER line _ _) = line"
| "ast_line (NODE_INDEX line _ _) = line"
| "ast_line (NODE_TERNARY line _ _ _) = line"
| "ast_line (NODE_ASSIGN line _ _ _) = line"
| "ast_line (NODE_IDENT line _) = line"
| "ast_line (NODE_INT line _) = line"
| "ast_line (NODE_FLOAT line _) = line"
| "ast_line (NODE_STRING line _) = line"
| "ast_line (NODE_BOOL line _) = line"
| "ast_line (NODE_NIL line) = line"
| "ast_line (NODE_ARRAY line _) = line"
| "ast_line (NODE_MAP line _) = line"
| "ast_line (NODE_MATCH line _ _) = line"
| "ast_line (NODE_MATCH_ARM line _ _ _ _) = line"
| "ast_line (NODE_RESULT_OK line _) = line"
| "ast_line (NODE_RESULT_ERR line _) = line"
| "ast_line (NODE_TRY line _) = line"
| "ast_line (NODE_SOME line _) = line"
| "ast_line (NODE_NONE line) = line"
| "ast_line (NODE_STRUCT_INIT line _ _ _) = line"
| "ast_line (NODE_SPREAD line _) = line"
| "ast_line (NODE_ENUM_EXPR line _ _ _) = line"
| "ast_line (NODE_RANGE line _ _ _) = line"

end
