(* ===== verification/RegAlloc.thy ===== *)
theory RegAlloc
  imports Prelude
begin

text \<open>
  The register allocator of the register compiler, \<^verbatim>\<open>lang/regalloc.c\<close>: locals are given
  registers from 0 upwards, temporaries live in a stack above the locals. The operations take
  the allocator itself (the null-pointer guards of the C functions are outside the model) and
  return it updated, with the register where the function returns one. The C \<^verbatim>\<open>uint8_t\<close>
  fields are 8-bit words, the sums the C code computes in \<^verbatim>\<open>int\<close> are sums of naturals.
\<close>

definition REG_MAX :: nat where "REG_MAX = 256"
definition REG_NONE :: u8 where "REG_NONE = 255"

record RegAlloc =
  next_reg :: u8
  max_used :: u8
  local_to_reg :: "u8 list"
  local_count :: int
  temp_base :: u8
  temp_count :: u8
  result_reg :: u8

definition regalloc_reset :: RegAlloc where
  "regalloc_reset =
     \<lparr>next_reg = 0, max_used = 0, local_to_reg = replicate REG_MAX REG_NONE,
      local_count = 0, temp_base = 0, temp_count = 0, result_reg = REG_NONE\<rparr>"

definition regalloc_local :: "RegAlloc \<Rightarrow> int \<Rightarrow> u8 \<times> RegAlloc" where
  "regalloc_local ra local_slot =
     (if local_slot < 0 \<or> int REG_MAX \<le> local_slot then (REG_NONE, ra)
      else if local_to_reg ra ! nat local_slot \<noteq> REG_NONE
      then (local_to_reg ra ! nat local_slot, ra)
      else if REG_NONE \<le> next_reg ra then (REG_NONE, ra)
      else let reg = next_reg ra;
               ra = ra\<lparr>next_reg := next_reg ra + 1,
                       local_to_reg := (local_to_reg ra)[nat local_slot := reg]\<rparr>;
               ra = (if local_count ra \<le> local_slot
                     then ra\<lparr>local_count := local_slot + 1\<rparr> else ra);
               ra = (if max_used ra < reg then ra\<lparr>max_used := reg\<rparr> else ra);
               ra = ra\<lparr>temp_base := next_reg ra\<rparr>
           in (reg, ra))"

definition regalloc_get_local :: "RegAlloc \<Rightarrow> int \<Rightarrow> u8" where
  "regalloc_get_local ra local_slot =
     (if local_slot < 0 \<or> int REG_MAX \<le> local_slot then REG_NONE
      else local_to_reg ra ! nat local_slot)"

definition regalloc_temp :: "RegAlloc \<Rightarrow> u8 \<times> RegAlloc" where
  "regalloc_temp ra =
     (let reg_idx = unat (temp_base ra) + unat (temp_count ra)
      in if REG_MAX \<le> reg_idx then (REG_NONE, ra)
         else let reg = of_nat reg_idx;
                  ra = ra\<lparr>temp_count := temp_count ra + 1\<rparr>;
                  ra = (if max_used ra < reg then ra\<lparr>max_used := reg\<rparr> else ra)
              in (reg, ra))"

definition regalloc_free_temp :: "RegAlloc \<Rightarrow> u8 \<Rightarrow> RegAlloc" where
  "regalloc_free_temp ra reg =
     (if 0 < temp_count ra
         \<and> int (unat reg) = int (unat (temp_base ra)) + int (unat (temp_count ra)) - 1
      then ra\<lparr>temp_count := temp_count ra - 1\<rparr> else ra)"

definition regalloc_free_all_temps :: "RegAlloc \<Rightarrow> RegAlloc" where
  "regalloc_free_all_temps ra = ra\<lparr>temp_count := 0\<rparr>"

definition regalloc_count :: "RegAlloc \<Rightarrow> u8" where
  "regalloc_count ra = max_used ra + 1"

definition regalloc_is_temp :: "RegAlloc \<Rightarrow> u8 \<Rightarrow> bool" where
  "regalloc_is_temp ra reg \<longleftrightarrow>
     temp_base ra \<le> reg \<and> unat reg < unat (temp_base ra) + unat (temp_count ra)"

definition regalloc_set_result :: "RegAlloc \<Rightarrow> u8 \<Rightarrow> RegAlloc" where
  "regalloc_set_result ra reg = ra\<lparr>result_reg := reg\<rparr>"

definition regalloc_get_result :: "RegAlloc \<Rightarrow> u8" where
  "regalloc_get_result ra = result_reg ra"

definition regalloc_new_result :: "RegAlloc \<Rightarrow> u8 \<times> RegAlloc" where
  "regalloc_new_result ra =
     (let (reg, ra) = regalloc_temp ra in (reg, ra\<lparr>result_reg := reg\<rparr>))"

subsection \<open>Invariant\<close>

text \<open>
  \<open>ra_ok\<close>: the locals' registers are the \<open>next_reg\<close> lowest ones, one per slot; the temporaries
  start right above them and stay inside the register file; \<open>max_used\<close> bounds every register
  handed out and still in use.
\<close>

definition ra_ok :: "RegAlloc \<Rightarrow> bool" where
  "ra_ok ra \<longleftrightarrow>
     length (local_to_reg ra) = REG_MAX
   \<and> (\<forall>s < REG_MAX. local_to_reg ra ! s \<noteq> REG_NONE \<longrightarrow> local_to_reg ra ! s < next_reg ra)
   \<and> (\<forall>s < REG_MAX. \<forall>t < REG_MAX. local_to_reg ra ! s \<noteq> REG_NONE
        \<longrightarrow> local_to_reg ra ! s = local_to_reg ra ! t \<longrightarrow> s = t)
   \<and> temp_base ra = next_reg ra
   \<and> unat (next_reg ra) + unat (temp_count ra) \<le> REG_MAX
   \<and> unat (next_reg ra) + unat (temp_count ra) \<le> Suc (unat (max_used ra))
   \<and> (\<forall>s < REG_MAX. int s \<ge> local_count ra \<longrightarrow> local_to_reg ra ! s = REG_NONE)
   \<and> 0 \<le> local_count ra \<and> local_count ra \<le> int REG_MAX"

lemma ra_okD:
  assumes "ra_ok ra"
  shows ra_ok_length: "length (local_to_reg ra) = REG_MAX"
    and ra_ok_local: "s < REG_MAX \<Longrightarrow> local_to_reg ra ! s \<noteq> REG_NONE \<Longrightarrow> local_to_reg ra ! s < next_reg ra"
    and ra_ok_inj: "s < REG_MAX \<Longrightarrow> t < REG_MAX \<Longrightarrow> local_to_reg ra ! s \<noteq> REG_NONE
      \<Longrightarrow> local_to_reg ra ! s = local_to_reg ra ! t \<Longrightarrow> s = t"
    and ra_ok_base: "temp_base ra = next_reg ra"
    and ra_ok_used: "unat (next_reg ra) + unat (temp_count ra) \<le> Suc (unat (max_used ra))"
    and ra_ok_count: "int s \<ge> local_count ra \<Longrightarrow> s < REG_MAX \<Longrightarrow> local_to_reg ra ! s = REG_NONE"
    and ra_ok_count_range: "0 \<le> local_count ra" "local_count ra \<le> int REG_MAX"
  using assms unfolding ra_ok_def by auto

lemma ra_ok_reset: "ra_ok regalloc_reset"
  by (simp add: ra_ok_def regalloc_reset_def)

lemma unat_Suc_u8: "w < 255 \<Longrightarrow> unat (w + 1) = Suc (unat w)" for w :: u8
  by (simp add: unat_word_ariths(1) word_less_nat_alt)

lemma ra_ok_free_all_temps [inv_intros]: "ra_ok ra \<Longrightarrow> ra_ok (regalloc_free_all_temps ra)"
  unfolding regalloc_free_all_temps_def ra_ok_def by auto

lemma ra_ok_set_result [inv_intros]: "ra_ok ra \<Longrightarrow> ra_ok (regalloc_set_result ra r)"
  unfolding regalloc_set_result_def ra_ok_def by simp

lemma unat_dec_le: "unat (w - 1) \<le> unat w" if "0 < w" for w :: u8
  using that by unat_arith

lemma ra_ok_free_temp [inv_intros]:
  assumes "ra_ok ra" shows "ra_ok (regalloc_free_temp ra r)"
proof (cases "regalloc_free_temp ra r = ra")
  case False
  then have "0 < temp_count ra" "regalloc_free_temp ra r = ra\<lparr>temp_count := temp_count ra - 1\<rparr>"
    by (auto simp: regalloc_free_temp_def split: if_splits)
  then show ?thesis
    using assms unat_dec_le [of "temp_count ra"] unfolding ra_ok_def by simp
qed (use assms in simp)

lemma regalloc_temp_room:
  assumes "unat (temp_base ra) + unat (temp_count ra) < REG_MAX"
  shows "regalloc_temp ra = (temp_base ra + temp_count ra,
      ra\<lparr>temp_count := temp_count ra + 1, max_used := max (max_used ra) (temp_base ra + temp_count ra)\<rparr>)"
    and "unat (temp_base ra + temp_count ra) = unat (temp_base ra) + unat (temp_count ra)"
proof -
  have "\<not> REG_MAX \<le> unat (temp_base ra) + unat (temp_count ra)" using assms by simp
  moreover have "(of_nat (unat (temp_base ra) + unat (temp_count ra)) :: u8) = temp_base ra + temp_count ra"
    by simp
  ultimately have "regalloc_temp ra =
    (let reg = temp_base ra + temp_count ra;
         ra = ra\<lparr>temp_count := temp_count ra + 1\<rparr>;
         ra = (if max_used ra < reg then ra\<lparr>max_used := reg\<rparr> else ra)
     in (reg, ra))"
    by (simp only: regalloc_temp_def Let_def if_False)
  then show "regalloc_temp ra = (temp_base ra + temp_count ra,
      ra\<lparr>temp_count := temp_count ra + 1, max_used := max (max_used ra) (temp_base ra + temp_count ra)\<rparr>)"
    by (cases "max_used ra < temp_base ra + temp_count ra") (simp_all add: Let_def max_def)
  show "unat (temp_base ra + temp_count ra) = unat (temp_base ra) + unat (temp_count ra)"
    using assms by (simp add: unat_word_ariths(1) REG_MAX_def)
qed

lemma regalloc_temp_full:
  "REG_MAX \<le> unat (temp_base ra) + unat (temp_count ra) \<Longrightarrow> regalloc_temp ra = (REG_NONE, ra)"
  by (simp add: regalloc_temp_def)

lemma ra_ok_temp [inv_intros]:
  assumes "ra_ok ra" shows "ra_ok (snd (regalloc_temp ra))"
proof (cases "unat (temp_base ra) + unat (temp_count ra) < REG_MAX")
  case True
  let ?r = "temp_base ra + temp_count ra"
  have c: "unat (temp_count ra + 1) \<le> Suc (unat (temp_count ra))" by unat_arith
  have m: "unat (max (max_used ra) ?r) = max (unat (max_used ra)) (unat ?r)"
    by (simp add: max_def word_le_nat_alt)
  have "unat (next_reg ra) + unat (temp_count ra + 1) \<le> REG_MAX"
    "unat (next_reg ra) + unat (temp_count ra + 1) \<le> Suc (unat (max (max_used ra) ?r))"
    unfolding m regalloc_temp_room(2) [OF True]
    using c True ra_ok_base [OF assms] by simp_all
  with assms show ?thesis
    unfolding ra_ok_def regalloc_temp_room(1) [OF True] by simp
qed (use assms in \<open>simp add: regalloc_temp_full\<close>)

lemma ra_ok_new_result [inv_intros]:
  assumes "ra_ok ra" shows "ra_ok (snd (regalloc_new_result ra))"
  using ra_ok_temp [OF assms]
  by (cases "regalloc_temp ra") (simp add: regalloc_new_result_def ra_ok_def)

text \<open>A call of \<open>regalloc_local\<close> either answers from the table, fails, or takes \<open>next_reg\<close>.\<close>

definition local_fresh :: "RegAlloc \<Rightarrow> int \<Rightarrow> bool" where
  "local_fresh ra s \<longleftrightarrow> 0 \<le> s \<and> s < int REG_MAX \<and> local_to_reg ra ! nat s = REG_NONE
     \<and> next_reg ra < REG_NONE"

lemma regalloc_local_old:
  "\<not> local_fresh ra s \<Longrightarrow> regalloc_local ra s = (regalloc_get_local ra s, ra)"
  by (auto simp: local_fresh_def regalloc_local_def regalloc_get_local_def Let_def)

lemma regalloc_local_new:
  assumes "local_fresh ra s"
  shows "regalloc_local ra s = (next_reg ra,
    ra\<lparr>next_reg := next_reg ra + 1, local_to_reg := (local_to_reg ra)[nat s := next_reg ra],
       local_count := max (local_count ra) (s + 1), max_used := max (max_used ra) (next_reg ra),
       temp_base := next_reg ra + 1\<rparr>)"
proof -
  have "\<not> (s < 0 \<or> int REG_MAX \<le> s)" "\<not> local_to_reg ra ! nat s \<noteq> REG_NONE"
    "\<not> REG_NONE \<le> next_reg ra"
    using assms by (auto simp: local_fresh_def)
  then show ?thesis
    unfolding regalloc_local_def Let_def
    by (cases "local_count ra \<le> s"; cases "max_used ra < next_reg ra") (simp_all add: max_def)
qed

text \<open>
  What holds of the locals whatever the client does with temporaries: their registers are below
  \<open>next_reg\<close>, one per slot and at most \<open>max_used\<close>, and the temporaries start at \<open>next_reg\<close>.
\<close>

definition ra_locals :: "RegAlloc \<Rightarrow> bool" where
  "ra_locals ra \<longleftrightarrow>
     length (local_to_reg ra) = REG_MAX
   \<and> (\<forall>s < REG_MAX. local_to_reg ra ! s \<noteq> REG_NONE \<longrightarrow> local_to_reg ra ! s < next_reg ra)
   \<and> (\<forall>s < REG_MAX. \<forall>t < REG_MAX. local_to_reg ra ! s \<noteq> REG_NONE
        \<longrightarrow> local_to_reg ra ! s = local_to_reg ra ! t \<longrightarrow> s = t)
   \<and> temp_base ra = next_reg ra
   \<and> unat (next_reg ra) \<le> Suc (unat (max_used ra))"

lemma ra_localsD:
  assumes "ra_locals ra"
  shows ra_locals_length: "length (local_to_reg ra) = REG_MAX"
    and ra_locals_below: "s < REG_MAX \<Longrightarrow> local_to_reg ra ! s \<noteq> REG_NONE \<Longrightarrow> local_to_reg ra ! s < next_reg ra"
    and ra_locals_inj: "s < REG_MAX \<Longrightarrow> t < REG_MAX \<Longrightarrow> local_to_reg ra ! s \<noteq> REG_NONE
      \<Longrightarrow> local_to_reg ra ! s = local_to_reg ra ! t \<Longrightarrow> s = t"
    and ra_locals_base: "temp_base ra = next_reg ra"
    and ra_locals_used: "unat (next_reg ra) \<le> Suc (unat (max_used ra))"
  using assms unfolding ra_locals_def by auto

lemma ra_ok_locals: "ra_ok ra \<Longrightarrow> ra_locals ra"
  unfolding ra_ok_def ra_locals_def by auto

lemma ra_locals_local [inv_intros]:
  assumes ok: "ra_locals ra"
  shows "ra_locals (snd (regalloc_local ra s))"
proof (cases "local_fresh ra s")
  case True
  let ?n = "next_reg ra" and ?L = "local_to_reg ra"
  have n: "unat (?n + 1) = Suc (unat ?n)" and n255: "?n < 255" "?n \<noteq> REG_NONE"
    using True unat_Suc_u8 [of ?n] by (auto simp: local_fresh_def REG_NONE_def)
  have below: "?L ! k < ?n" if "k < REG_MAX" "?L ! k \<noteq> REG_NONE" for k
    using ra_locals_below [OF ok that] .
  have lt: "x < ?n \<Longrightarrow> x < ?n + 1" "?n < ?n + 1" for x
    using n by (simp_all add: word_less_nat_alt)
  have L: "?L[nat s := ?n] ! k = (if k = nat s then ?n else ?L ! k)" if "k < REG_MAX" for k
    using that ra_locals_length [OF ok] by (simp add: nth_list_update)
  have 1: "\<forall>k < REG_MAX. ?L[nat s := ?n] ! k \<noteq> REG_NONE \<longrightarrow> ?L[nat s := ?n] ! k < ?n + 1"
    using below lt by (simp add: L)
  have 2: "\<forall>k < REG_MAX. \<forall>t < REG_MAX. ?L[nat s := ?n] ! k \<noteq> REG_NONE
        \<longrightarrow> ?L[nat s := ?n] ! k = ?L[nat s := ?n] ! t \<longrightarrow> k = t"
  proof -
    have "?L ! k \<noteq> ?n" if "k < REG_MAX" for k using below [OF that] n255(2) by auto
    then show ?thesis using ra_locals_inj [OF ok] by (auto simp: L) metis+
  qed
  have 3: "unat (?n + 1) \<le> Suc (unat (max (max_used ra) ?n))"
    using n by (auto simp: max_def word_le_nat_alt)
  show ?thesis
    unfolding ra_locals_def regalloc_local_new [OF True]
    using 1 2 3 ra_locals_length [OF ok] by simp
qed (use ok in \<open>simp add: regalloc_local_old\<close>)

lemma ra_locals_temp [inv_intros]:
  assumes "ra_locals ra" shows "ra_locals (snd (regalloc_temp ra))"
proof (cases "unat (temp_base ra) + unat (temp_count ra) < REG_MAX")
  case True
  have "unat (max_used ra) \<le> unat (max (max_used ra) r)" for r
    by (simp add: max_def word_le_nat_alt)
  then have "unat (next_reg ra) \<le> Suc (unat (max (max_used ra) r))" for r
    using ra_locals_used [OF assms] by (meson Suc_le_mono le_trans)
  then show ?thesis
    using assms unfolding ra_locals_def regalloc_temp_room(1) [OF True] by simp
qed (use assms in \<open>simp add: regalloc_temp_full\<close>)

lemma ra_locals_new_result [inv_intros]:
  assumes "ra_locals ra" shows "ra_locals (snd (regalloc_new_result ra))"
  using ra_locals_temp [OF assms]
  by (cases "regalloc_temp ra") (simp add: regalloc_new_result_def ra_locals_def)

lemma ra_locals_temps [inv_intros]:
  assumes "ra_locals ra"
  shows "ra_locals (regalloc_free_temp ra r)" "ra_locals (regalloc_free_all_temps ra)"
    "ra_locals (regalloc_set_result ra r)"
  using assms unfolding regalloc_free_temp_def regalloc_free_all_temps_def regalloc_set_result_def ra_locals_def
  by auto

lemma ra_ok_local_step [inv_intros]:
  assumes ok: "ra_ok ra" and t0: "temp_count ra = 0"
  shows "ra_ok (snd (regalloc_local ra s))"
proof (cases "local_fresh ra s")
  case True
  let ?n = "next_reg ra" and ?L = "local_to_reg ra"
  have s: "nat s < REG_MAX" "?L ! nat s = REG_NONE" "0 \<le> s" "s < int REG_MAX"
    using True by (auto simp: local_fresh_def)
  have "unat (?n + 1) = Suc (unat ?n)" and "?n < 255"
    using True unat_Suc_u8 [of ?n] by (auto simp: local_fresh_def REG_NONE_def)
  then have 1: "unat (?n + 1) \<le> REG_MAX" by (simp add: REG_MAX_def word_less_nat_alt)
  have 2: "\<forall>k < REG_MAX. int k \<ge> max (local_count ra) (s + 1) \<longrightarrow> ?L[nat s := ?n] ! k = REG_NONE"
    using ra_ok_count [OF ok] s ra_ok_length [OF ok] by (auto simp: nth_list_update)
  from ra_locals_local [OF ra_ok_locals [OF ok], of s] show ?thesis
    unfolding ra_ok_def ra_locals_def regalloc_local_new [OF True]
    using 1 2 t0 ra_ok_count_range [OF ok] s by simp
qed (use ok in \<open>simp add: regalloc_local_old\<close>)

subsection \<open>Reachable allocators\<close>

text \<open>
  The states a client reaches by any sequence of calls: like the register compiler, it may declare
  a local while it holds temporaries.
\<close>

inductive ra_reach :: "RegAlloc \<Rightarrow> bool" where
  reach_init: "ra_reach regalloc_reset"
| reach_local: "ra_reach ra \<Longrightarrow> ra_reach (snd (regalloc_local ra s))"
| reach_temp: "ra_reach ra \<Longrightarrow> ra_reach (snd (regalloc_temp ra))"
| reach_new_result: "ra_reach ra \<Longrightarrow> ra_reach (snd (regalloc_new_result ra))"
| reach_free_temp: "ra_reach ra \<Longrightarrow> ra_reach (regalloc_free_temp ra r)"
| reach_free_all: "ra_reach ra \<Longrightarrow> ra_reach (regalloc_free_all_temps ra)"
| reach_set_result: "ra_reach ra \<Longrightarrow> ra_reach (regalloc_set_result ra r)"

lemma ra_reach_locals: "ra_reach ra \<Longrightarrow> ra_locals ra"
  by (induction rule: ra_reach.induct) (auto intro: inv_intros ra_ok_reset ra_ok_locals)

lemma get_local_SomeD:
  assumes "regalloc_get_local ra s \<noteq> REG_NONE"
  shows "0 \<le> s" "nat s < REG_MAX" "local_to_reg ra ! nat s \<noteq> REG_NONE"
    "regalloc_get_local ra s = local_to_reg ra ! nat s"
  using assms by (auto simp: regalloc_get_local_def split: if_splits)

text \<open>
  C26. Register safety of locals: in every state reached by any sequence of allocator calls, two
  different local slots never share a register, no register is at once a local's and, by
  \<^verbatim>\<open>regalloc_is_temp\<close>, a temporary, and the register of every local is at most \<open>max_used\<close> and below
  \<open>next_reg\<close>. (Temporaries that were live when a local was declared are the subject of the last
  theorem of this file.)
\<close>

theorem regalloc_no_alias:
  assumes "ra_reach ra"
    and "regalloc_get_local ra s \<noteq> REG_NONE"
  shows "(regalloc_get_local ra s = regalloc_get_local ra t \<longrightarrow> s = t)
    \<and> \<not> regalloc_is_temp ra (regalloc_get_local ra s)
    \<and> regalloc_get_local ra s \<le> max_used ra \<and> regalloc_get_local ra s < next_reg ra"
proof -
  note ok = ra_reach_locals [OF assms(1)]
  note s = get_local_SomeD [OF assms(2)]
  have lt: "local_to_reg ra ! nat s < next_reg ra" using ra_locals_below [OF ok s(2,3)] .
  have 1: "regalloc_get_local ra s = regalloc_get_local ra t \<longrightarrow> s = t"
  proof
    assume e: "regalloc_get_local ra s = regalloc_get_local ra t"
    then have t: "regalloc_get_local ra t \<noteq> REG_NONE" using assms(2) by simp
    note t = get_local_SomeD [OF t]
    have "nat s = nat t"
      by (rule ra_locals_inj [OF ok s(2) t(2) s(3)]) (simp only: e s(4) [symmetric] t(4) [symmetric])
    then show "s = t" using s(1) t(1) by simp
  qed
  have 2: "\<not> regalloc_is_temp ra (regalloc_get_local ra s)"
    using lt by (simp add: regalloc_is_temp_def ra_locals_base [OF ok] s(4) not_le)
  have 3: "regalloc_get_local ra s \<le> max_used ra"
    using lt ra_locals_used [OF ok] by (simp add: s(4) word_le_nat_alt word_less_nat_alt)
  from 1 2 3 lt s(4) show ?thesis by simp
qed

theorem regalloc_no_alias_witness:
  "let ra = snd (regalloc_local (snd (regalloc_temp (snd (regalloc_local regalloc_reset 3)))) 4)
   in regalloc_get_local ra 3 \<noteq> regalloc_get_local ra 4 \<and> \<not> regalloc_is_temp ra (regalloc_get_local ra 4)"
proof -
  let ?ra = "snd (regalloc_local (snd (regalloc_temp (snd (regalloc_local regalloc_reset 3)))) 4)"
  have f: "local_fresh regalloc_reset 3"
    by (simp add: local_fresh_def regalloc_reset_def REG_MAX_def REG_NONE_def)
  have t: "snd (regalloc_temp (snd (regalloc_local regalloc_reset 3)))
    = (snd (regalloc_local regalloc_reset 3))\<lparr>temp_count := 1, max_used := 1\<rparr>"
    unfolding regalloc_local_new [OF f]
    by (subst regalloc_temp_room) (simp_all add: regalloc_reset_def REG_MAX_def)
  have g: "local_fresh ((snd (regalloc_local regalloc_reset 3))\<lparr>temp_count := 1, max_used := 1\<rparr>) 4"
    unfolding regalloc_local_new [OF f]
    by (simp add: local_fresh_def regalloc_reset_def REG_MAX_def REG_NONE_def)
  have "regalloc_get_local ?ra 4 = 1"
    unfolding t regalloc_local_new [OF g] unfolding regalloc_local_new [OF f]
    by (simp add: regalloc_get_local_def regalloc_reset_def REG_MAX_def)
  then have n: "regalloc_get_local ?ra 4 \<noteq> REG_NONE" by (simp add: REG_NONE_def)
  have "ra_reach ?ra" by (intro reach_temp reach_local reach_init)
  from regalloc_no_alias [OF this n, of 3] show ?thesis by (auto simp: Let_def)
qed

text \<open>
  C27. A temporary handed out while the register file has room is new (no live temporary and no
  local has it), becomes live, leaves the other temporaries live, and freeing it gives back
  exactly the temporaries that were live before.
\<close>

theorem regalloc_temp_fresh:
  assumes "ra_ok ra" and "unat (next_reg ra) + unat (temp_count ra) < 255"
    and "regalloc_temp ra = (r, ra')"
  shows "r \<noteq> REG_NONE \<and> \<not> regalloc_is_temp ra r \<and> regalloc_get_local ra s \<noteq> r
    \<and> (regalloc_is_temp ra' q \<longleftrightarrow> regalloc_is_temp ra q \<or> q = r)
    \<and> (regalloc_is_temp (regalloc_free_temp ra' r) q \<longleftrightarrow> regalloc_is_temp ra q)"
proof -
  note base = ra_ok_base [OF assms(1)]
  have room: "unat (temp_base ra) + unat (temp_count ra) < REG_MAX"
    using assms(2) by (simp add: base REG_MAX_def)
  have r: "unat r = unat (temp_base ra) + unat (temp_count ra)"
    and ra': "temp_base ra' = temp_base ra" "temp_count ra' = temp_count ra + 1"
    using assms(3) regalloc_temp_room [OF room] by auto
  have c: "unat (temp_count ra + 1) = Suc (unat (temp_count ra))" "0 < temp_count ra + 1"
    using assms(2) unat_Suc_u8 [of "temp_count ra"] by (simp_all add: word_less_nat_alt)
  have "unat r < 255" using assms(2) r base by simp
  then have 1: "r \<noteq> REG_NONE" by (auto simp: REG_NONE_def)
  have 2: "\<not> regalloc_is_temp ra r" by (simp add: regalloc_is_temp_def r)
  have 3: "regalloc_get_local ra s \<noteq> r"
  proof
    assume e: "regalloc_get_local ra s = r"
    with 1 have "regalloc_get_local ra s < next_reg ra"
      using ra_ok_local [OF assms(1), of "nat s"]
      by (auto simp: regalloc_get_local_def split: if_splits)
    with e r base show False by (simp add: word_less_nat_alt)
  qed
  have 4: "regalloc_is_temp ra' q \<longleftrightarrow> regalloc_is_temp ra q \<or> q = r"
    using r c by (auto simp: regalloc_is_temp_def ra' word_le_nat_alt word_unat_eq_iff)
  have "regalloc_free_temp ra' r = ra'\<lparr>temp_count := temp_count ra\<rparr>"
    using r c by (simp add: regalloc_free_temp_def ra')
  then have 5: "regalloc_is_temp (regalloc_free_temp ra' r) q \<longleftrightarrow> regalloc_is_temp ra q"
    by (simp add: regalloc_is_temp_def ra')
  from 1 2 3 4 5 show ?thesis by simp
qed

theorem regalloc_temp_fresh_witness:
  "regalloc_temp regalloc_reset = (0, snd (regalloc_temp regalloc_reset))
   \<and> regalloc_is_temp (snd (regalloc_temp regalloc_reset)) 0"
proof -
  have e: "regalloc_temp regalloc_reset = (0, snd (regalloc_temp regalloc_reset))"
    by (subst (1 2) regalloc_temp_room) (simp_all add: regalloc_reset_def REG_MAX_def)
  then show ?thesis
    using regalloc_temp_fresh [OF ra_ok_reset _ e] by (simp add: regalloc_reset_def)
qed

text \<open>
  C28. Locals declared at the wrong time take temporaries away: asking for a new local while a temporary
  is live returns the register of the oldest live temporary, which stops being a temporary.
\<close>

theorem regalloc_local_clobbers_temp:
  assumes "ra_ok ra" and "0 < temp_count ra" and "local_fresh ra s"
  shows "regalloc_is_temp ra (fst (regalloc_local ra s))
    \<and> \<not> regalloc_is_temp (snd (regalloc_local ra s)) (fst (regalloc_local ra s))"
proof -
  have "unat (next_reg ra + 1) = Suc (unat (next_reg ra))"
    using assms(3) by (intro unat_Suc_u8) (simp add: local_fresh_def REG_NONE_def)
  then show ?thesis
    using assms(2)
    by (simp add: regalloc_local_new [OF assms(3)] regalloc_is_temp_def ra_ok_base [OF assms(1)]
        word_le_nat_alt word_less_nat_alt)
qed

theorem regalloc_local_clobbers_temp_witness:
  "\<exists>ra. ra_ok ra \<and> regalloc_is_temp ra (fst (regalloc_local ra 0))"
proof -
  let ?ra = "snd (regalloc_temp regalloc_reset)"
  have e: "?ra = regalloc_reset\<lparr>temp_count := 1\<rparr>"
    by (subst regalloc_temp_room) (simp_all add: regalloc_reset_def REG_MAX_def)
  have "0 < temp_count ?ra" "local_fresh ?ra 0"
    unfolding e by (simp_all add: local_fresh_def regalloc_reset_def REG_MAX_def REG_NONE_def)
  then show ?thesis
    using regalloc_local_clobbers_temp [OF ra_ok_temp [OF ra_ok_reset]] ra_ok_temp [OF ra_ok_reset]
    by blast
qed

end
