(* ===== verification/Hash.thy ===== *)
theory Hash
  imports Prelude
begin

text \<open>
  The string hash of \<^verbatim>\<open>util/hash.c\<close>: FNV-1a with the 32-bit offset basis and prime,
  carried out in a 64-bit \<^verbatim>\<open>size_t\<close>, and the hash combiner. The map, the string type
  and the interning cache all index with it.
\<close>

definition FNV_OFFSET_BASIS :: u64 where
  "FNV_OFFSET_BASIS = 2166136261"

definition FNV_PRIME :: u64 where
  "FNV_PRIME = 16777619"

text \<open>One turn of the loop: \<^verbatim>\<open>hash ^= (uint8_t)c; hash *= FNV_PRIME\<close>.\<close>

definition fnv_byte :: "u64 \<Rightarrow> char \<Rightarrow> u64" where
  "fnv_byte h c = (h XOR of_char c) * FNV_PRIME"

definition agim_hash_string :: "string \<Rightarrow> nat \<Rightarrow> u64" where
  "agim_hash_string str n = foldl fnv_byte FNV_OFFSET_BASIS (take n str)"

fun hash_cstring_loop :: "u64 \<Rightarrow> string \<Rightarrow> u64" where
  "hash_cstring_loop h [] = h"
| "hash_cstring_loop h (c # cs) =
     (if c = NUL then h else hash_cstring_loop (fnv_byte h c) cs)"

definition agim_hash_cstring :: "string \<Rightarrow> u64" where
  "agim_hash_cstring str = hash_cstring_loop FNV_OFFSET_BASIS str"

definition agim_hash_combine :: "u64 \<Rightarrow> u64 \<Rightarrow> u64" where
  "agim_hash_combine h1 h2 =
     h1 XOR (h2 + 0x9e3779b9 + push_bit 6 h1 + drop_bit 2 h1)"

lemma hash_cstring_loop_eq: "hash_cstring_loop h s = foldl fnv_byte h (cstr s)"
  by (induction h s rule: hash_cstring_loop.induct) (auto simp: cstr_def)

text \<open>
  One turn is injective in the hash and in the byte: XOR can be undone, and the prime is odd,
  so multiplication by it can be undone modulo \<open>2 ^ 64\<close>.
\<close>

definition FNV_PRIME_INV :: u64 where
  "FNV_PRIME_INV = 9778875398352553115"

lemma fnv_prime_inverse: "FNV_PRIME * FNV_PRIME_INV = 1"
  by (simp add: FNV_PRIME_def FNV_PRIME_INV_def)

lemma mult_fnv_prime_inject [simp]: "a * FNV_PRIME = b * FNV_PRIME \<longleftrightarrow> a = b"
proof
  assume "a * FNV_PRIME = b * FNV_PRIME"
  then have "a * FNV_PRIME * FNV_PRIME_INV = b * FNV_PRIME * FNV_PRIME_INV" by simp
  then show "a = b" by (simp add: mult.assoc fnv_prime_inverse)
qed simp

lemma xor_cancel_left [simp]: "(h :: u64) XOR a = h XOR b \<longleftrightarrow> a = b"
proof
  assume "h XOR a = h XOR b"
  then have "h XOR (h XOR a) = h XOR (h XOR b)" by simp
  then show "a = b" by (simp add: xor.assoc [symmetric])
qed simp

lemma xor_cancel_right [simp]: "a XOR (h :: u64) = b XOR h \<longleftrightarrow> a = b"
  using xor_cancel_left [of h a b] by (simp add: ac_simps)

lemma unat_of_char_u64: "unat (of_char e :: u64) = (of_char e :: nat)"
proof -
  have "(of_char e :: nat) mod 256 = of_char e" by (rule of_char_mod_256)
  then have "(of_char e :: nat) < 256" by (metis mod_less_divisor zero_less_numeral)
  then have "(of_char e :: nat) < 2 ^ LENGTH(64)" by (rule less_le_trans) simp
  then have "unat (of_nat (of_char e) :: u64) = (of_char e :: nat)" 
    by (simp only: unat_of_nat mod_less)
  then show ?thesis by (simp only: of_nat_of_char)
qed

lemma of_char_u64_inject: "(of_char c :: u64) = of_char d \<longleftrightarrow> c = d"
proof
  assume "(of_char c :: u64) = of_char d"
  then have "(of_char c :: nat) = of_char d" by (metis unat_of_char_u64)
  then show "c = d" by (simp only: of_char_eq_iff)
qed simp

lemma fnv_byte_inject_hash: "fnv_byte h c = fnv_byte h' c \<longleftrightarrow> h = h'"
  by (simp add: fnv_byte_def)

lemma fnv_byte_inject_char: "fnv_byte h c = fnv_byte h d \<longleftrightarrow> c = d"
  by (simp add: fnv_byte_def of_char_u64_inject)

lemma foldl_fnv_inject: "foldl fnv_byte h s = foldl fnv_byte h' s \<longleftrightarrow> h = h'"
  by (induction s arbitrary: h h') (auto simp: fnv_byte_inject_hash)

text \<open>
  C24. The two hash functions agree. Insertion hashes a key by length
  (\<^verbatim>\<open>agim_hash_string(key, strlen(key))\<close>), lookup hashes it up to the terminator
  (\<^verbatim>\<open>agim_hash_cstring(key)\<close>); a key stored by one is found by the other because the
  results are equal on every byte array.
\<close>

theorem hash_cstring_is_hash_string: "agim_hash_cstring s = agim_hash_string s (strlen s)"
proof -
  have "take (strlen s) s = cstr s"
    by (simp add: strlen_def cstr_def takeWhile_eq_take [symmetric])
  then show ?thesis
    by (simp add: agim_hash_cstring_def agim_hash_string_def hash_cstring_loop_eq)
qed

text \<open>
  C25. Strings that differ in exactly one byte never collide: changing one character of a
  string always changes its hash, whatever the text around it.
\<close>

theorem hash_one_byte_change:
  "agim_hash_string (pre @ c # post) (length (pre @ c # post)) =
   agim_hash_string (pre @ d # post) (length (pre @ d # post)) \<longleftrightarrow> c = d"
  by (simp add: agim_hash_string_def foldl_fnv_inject fnv_byte_inject_char)

end
