(* ===== verification/Nanbox.thy ===== *)
theory Nanbox
  imports Float64
begin

text \<open>
  The NaN-boxed value word of \<^verbatim>\<open>vm/nanbox.h\<close>: a double, or one of the four tagged kinds
  (48-bit integer, object pointer, special, process id) packed into the quiet-NaN space of a
  64-bit word. An \<^verbatim>\<open>int64_t\<close> is its two's complement word, read by \<open>sint\<close>; a
  \<^verbatim>\<open>double\<close> is its bit pattern (theory \<open>Float64\<close>), so the \<^verbatim>\<open>memcpy\<close> of
  \<open>nanbox_double\<close> and \<open>nanbox_as_double\<close> is the identity.
\<close>

type_synonym NanValue = u64

definition NANBOX_QNAN :: u64 where "NANBOX_QNAN = 0x7FFC000000000000"
definition NANBOX_PAYLOAD :: u64 where "NANBOX_PAYLOAD = 0x0000FFFFFFFFFFFF"
definition NANBOX_TAG_INT :: u64 where "NANBOX_TAG_INT = 0x7FFC000000000000"
definition NANBOX_TAG_OBJ :: u64 where "NANBOX_TAG_OBJ = 0x7FFD000000000000"
definition NANBOX_TAG_SPECIAL :: u64 where "NANBOX_TAG_SPECIAL = 0x7FFE000000000000"
definition NANBOX_TAG_PID :: u64 where "NANBOX_TAG_PID = 0x7FFF000000000000"
definition NANBOX_TAG_MASK :: u64 where "NANBOX_TAG_MASK = 0xFFFF000000000000"

definition NANBOX_NIL :: NanValue where "NANBOX_NIL = NANBOX_TAG_SPECIAL OR 1"
definition NANBOX_TRUE :: NanValue where "NANBOX_TRUE = NANBOX_TAG_SPECIAL OR 2"
definition NANBOX_FALSE :: NanValue where "NANBOX_FALSE = NANBOX_TAG_SPECIAL OR 3"

subsection \<open>Type checking\<close>

definition nanbox_is_double :: "NanValue \<Rightarrow> bool" where
  "nanbox_is_double v \<longleftrightarrow> v AND 0xFFFC000000000000 \<noteq> 0x7FFC000000000000"

definition nanbox_is_int :: "NanValue \<Rightarrow> bool" where
  "nanbox_is_int v \<longleftrightarrow> v AND NANBOX_TAG_MASK = NANBOX_TAG_INT"

definition nanbox_is_obj :: "NanValue \<Rightarrow> bool" where
  "nanbox_is_obj v \<longleftrightarrow> v AND NANBOX_TAG_MASK = NANBOX_TAG_OBJ"

definition nanbox_is_special :: "NanValue \<Rightarrow> bool" where
  "nanbox_is_special v \<longleftrightarrow> v AND NANBOX_TAG_MASK = NANBOX_TAG_SPECIAL"

definition nanbox_is_pid :: "NanValue \<Rightarrow> bool" where
  "nanbox_is_pid v \<longleftrightarrow> v AND NANBOX_TAG_MASK = NANBOX_TAG_PID"

definition nanbox_is_nil :: "NanValue \<Rightarrow> bool" where
  "nanbox_is_nil v \<longleftrightarrow> v = NANBOX_NIL"

definition nanbox_is_true :: "NanValue \<Rightarrow> bool" where
  "nanbox_is_true v \<longleftrightarrow> v = NANBOX_TRUE"

definition nanbox_is_false :: "NanValue \<Rightarrow> bool" where
  "nanbox_is_false v \<longleftrightarrow> v = NANBOX_FALSE"

definition nanbox_is_bool :: "NanValue \<Rightarrow> bool" where
  "nanbox_is_bool v \<longleftrightarrow> v = NANBOX_TRUE \<or> v = NANBOX_FALSE"

definition nanbox_is_number :: "NanValue \<Rightarrow> bool" where
  "nanbox_is_number v \<longleftrightarrow> nanbox_is_double v \<or> nanbox_is_int v"

subsection \<open>Encoding and decoding\<close>

definition nanbox_double :: "f64 \<Rightarrow> NanValue" where
  "nanbox_double d = d"

definition nanbox_int :: "u64 \<Rightarrow> NanValue" where
  "nanbox_int i = NANBOX_TAG_INT OR (i AND NANBOX_PAYLOAD)"

definition nanbox_obj :: "u64 \<Rightarrow> NanValue" where
  "nanbox_obj p = NANBOX_TAG_OBJ OR (p AND NANBOX_PAYLOAD)"

definition nanbox_pid :: "u64 \<Rightarrow> NanValue" where
  "nanbox_pid p = NANBOX_TAG_PID OR (p AND NANBOX_PAYLOAD)"

definition nanbox_bool :: "bool \<Rightarrow> NanValue" where
  "nanbox_bool b = (if b then NANBOX_TRUE else NANBOX_FALSE)"

definition nanbox_as_double :: "NanValue \<Rightarrow> f64" where
  "nanbox_as_double v = v"

definition nanbox_as_int :: "NanValue \<Rightarrow> u64" where
  "nanbox_as_int v =
     (let payload = v AND NANBOX_PAYLOAD
      in if payload AND 0x800000000000 \<noteq> 0 then payload OR 0xFFFF000000000000 else payload)"

definition nanbox_as_obj :: "NanValue \<Rightarrow> u64" where
  "nanbox_as_obj v = v AND NANBOX_PAYLOAD"

definition nanbox_as_pid :: "NanValue \<Rightarrow> u64" where
  "nanbox_as_pid v = v AND NANBOX_PAYLOAD"

definition nanbox_as_bool :: "NanValue \<Rightarrow> bool" where
  "nanbox_as_bool v \<longleftrightarrow> v = NANBOX_TRUE"

subsection \<open>Coercion, truthiness, equality\<close>

definition nanbox_to_float :: "NanValue \<Rightarrow> f64" where
  "nanbox_to_float v =
     (if nanbox_is_double v then nanbox_as_double v
      else if nanbox_is_int v then f64_of_int (sint (nanbox_as_int v))
      else 0)"

text \<open>\<open>None\<close> is the undefined conversion of a double outside the range of \<^verbatim>\<open>int64_t\<close>.\<close>

definition nanbox_to_int :: "NanValue \<Rightarrow> int option" where
  "nanbox_to_int v =
     (if nanbox_is_int v then Some (sint (nanbox_as_int v))
      else if nanbox_is_double v then f64_to_int (nanbox_as_double v)
      else Some 0)"

definition nanbox_is_truthy :: "NanValue \<Rightarrow> bool" where
  "nanbox_is_truthy v =
     (if v = NANBOX_NIL \<or> v = NANBOX_FALSE then False
      else if nanbox_is_int v then nanbox_as_int v \<noteq> 0
      else if nanbox_is_double v then \<not> f64_eq (nanbox_as_double v) 0
      else True)"

definition nanbox_equal :: "NanValue \<Rightarrow> NanValue \<Rightarrow> bool" where
  "nanbox_equal a b =
     (if nanbox_is_double a \<and> nanbox_is_double b
      then f64_eq (nanbox_as_double a) (nanbox_as_double b)
      else if a = b then True
      else if nanbox_is_number a \<and> nanbox_is_number b
      then f64_eq (nanbox_to_float a) (nanbox_to_float b)
      else False)"

subsection \<open>The masks, bit by bit\<close>

lemmas nanbox_is_defs = nanbox_is_double_def nanbox_is_int_def nanbox_is_obj_def
  nanbox_is_special_def nanbox_is_pid_def

lemma payload_mask: "NANBOX_PAYLOAD = mask 48"
  by (simp add: NANBOX_PAYLOAD_def mask_eq_exp_minus_1)

lemma tag_mask: "NANBOX_TAG_MASK = push_bit 48 (mask 16)"
  by (simp add: NANBOX_TAG_MASK_def mask_eq_exp_minus_1 push_bit_eq_mult)

lemma and_payload: "v AND NANBOX_PAYLOAD = take_bit 48 v"
  by (simp add: payload_mask take_bit_eq_mask)

text \<open>The tag of a word: its upper 16 bits.\<close>

lemma and_tag_mask: "v AND NANBOX_TAG_MASK = push_bit 48 (drop_bit 48 v)" for v :: u64
  by (rule bit_word_eqI) (auto simp: tag_mask bit_and_iff bit_push_bit_iff bit_mask_iff bit_drop_bit_eq)

lemma and_double_mask: "v AND 0xFFFC000000000000 = push_bit 50 (drop_bit 50 v)" for v :: u64
proof -
  have c: "(0xFFFC000000000000 :: u64) = push_bit 50 (mask 14)"
    by (simp add: mask_eq_exp_minus_1 push_bit_eq_mult)
  show ?thesis unfolding c
    by (rule bit_word_eqI) (auto simp: bit_and_iff bit_push_bit_iff bit_mask_iff bit_drop_bit_eq)
qed

definition nan_tag :: "NanValue \<Rightarrow> nat" where
  "nan_tag v = unat (drop_bit 48 v)"

lemma drop_push_drop: "drop_bit n (push_bit n (drop_bit n v)) = drop_bit n v" for v :: u64
  by (rule bit_word_eqI)
    (auto simp: bit_push_bit_iff bit_drop_bit_eq dest: bit_imp_le_length)

lemma tag_eq_iff:
  assumes "drop_bit 48 k = j" and "push_bit 48 j = k"
  shows "v AND NANBOX_TAG_MASK = k \<longleftrightarrow> nan_tag v = unat j"
proof -
  have "v AND NANBOX_TAG_MASK = k \<longleftrightarrow> drop_bit 48 v = j"
    using assms drop_push_drop [of 48 v] by (auto simp: and_tag_mask)
  then show ?thesis by (simp only: nan_tag_def unsigned_word_eqI word_unat_eq_iff)
qed

lemma nanbox_is_int_tag: "nanbox_is_int v \<longleftrightarrow> nan_tag v = 0x7FFC"
  unfolding nanbox_is_int_def by (subst tag_eq_iff [of _ "0x7FFC"]) (simp_all add: NANBOX_TAG_INT_def)

lemma nanbox_is_obj_tag: "nanbox_is_obj v \<longleftrightarrow> nan_tag v = 0x7FFD"
  unfolding nanbox_is_obj_def by (subst tag_eq_iff [of _ "0x7FFD"]) (simp_all add: NANBOX_TAG_OBJ_def)

lemma nanbox_is_special_tag: "nanbox_is_special v \<longleftrightarrow> nan_tag v = 0x7FFE"
  unfolding nanbox_is_special_def
  by (subst tag_eq_iff [of _ "0x7FFE"]) (simp_all add: NANBOX_TAG_SPECIAL_def)

lemma nanbox_is_pid_tag: "nanbox_is_pid v \<longleftrightarrow> nan_tag v = 0x7FFF"
  unfolding nanbox_is_pid_def by (subst tag_eq_iff [of _ "0x7FFF"]) (simp_all add: NANBOX_TAG_PID_def)

lemma nanbox_is_double_tag: "nanbox_is_double v \<longleftrightarrow> nan_tag v div 4 \<noteq> 0x1FFF"
proof -
  have "drop_bit 50 v = drop_bit 2 (drop_bit 48 v)" by simp
  then have "unat (drop_bit 50 v) = nan_tag v div 4"
    by (simp only: nan_tag_def unat_drop_bit_eq) (simp add: drop_bit_eq_div)
  moreover have "v AND 0xFFFC000000000000 = 0x7FFC000000000000 \<longleftrightarrow> drop_bit 50 v = 0x1FFF"
    using drop_push_drop [of 50 v] by (auto simp: and_double_mask)
  moreover have "drop_bit 50 v = 0x1FFF \<longleftrightarrow> unat (drop_bit 50 v) = 0x1FFF"
    by (simp add: word_unat_eq_iff)
  ultimately show ?thesis by (simp add: nanbox_is_double_def)
qed

lemmas nanbox_is_tags = nanbox_is_int_tag nanbox_is_obj_tag nanbox_is_special_tag
  nanbox_is_pid_tag nanbox_is_double_tag

lemma nan_tag_or_payload:
  "nan_tag (k OR (w AND NANBOX_PAYLOAD)) = unat (drop_bit 48 k)"
proof -
  have "drop_bit 48 (take_bit 48 w) = 0"
    by (rule bit_word_eqI) (auto simp: bit_drop_bit_eq bit_take_bit_iff)
  then show ?thesis by (simp add: nan_tag_def and_payload)
qed

lemma nan_tag_encode [simp]:
  "nan_tag (nanbox_int i) = 0x7FFC"
  "nan_tag (nanbox_obj p) = 0x7FFD"
  "nan_tag (nanbox_pid q) = 0x7FFF"
  "nan_tag (nanbox_bool b) = 0x7FFE"
  "nan_tag NANBOX_NIL = 0x7FFE"
  "nan_tag NANBOX_TRUE = 0x7FFE"
  "nan_tag NANBOX_FALSE = 0x7FFE"
  by (simp_all add: nanbox_int_def nanbox_obj_def nanbox_pid_def nan_tag_or_payload)
    (simp_all add: nanbox_bool_def nan_tag_def NANBOX_TAG_INT_def NANBOX_TAG_OBJ_def NANBOX_TAG_PID_def
      NANBOX_NIL_def NANBOX_TRUE_def NANBOX_FALSE_def NANBOX_TAG_SPECIAL_def)

lemma payload_or: "take_bit 48 k = 0 \<Longrightarrow> (k OR (w AND NANBOX_PAYLOAD)) AND NANBOX_PAYLOAD = take_bit 48 w"
  for k w :: u64
  by (simp add: and_payload)

lemma payload_encode [simp]:
  "nanbox_int i AND NANBOX_PAYLOAD = take_bit 48 i"
  "nanbox_obj p AND NANBOX_PAYLOAD = take_bit 48 p"
  "nanbox_pid q AND NANBOX_PAYLOAD = take_bit 48 q"
  by (simp_all add: nanbox_int_def nanbox_obj_def nanbox_pid_def payload_or
      NANBOX_TAG_INT_def NANBOX_TAG_OBJ_def NANBOX_TAG_PID_def)

text \<open>Sign extension from bit 47.\<close>

lemma bit_nanbox_as_int:
  "bit (nanbox_as_int v) n \<longleftrightarrow> n < 64 \<and> bit v (min n 47)"
proof -
  have s: "take_bit 48 v AND 0x800000000000 \<noteq> 0 \<longleftrightarrow> bit v 47"
  proof -
    have c: "(0x800000000000 :: u64) = 2 ^ 47" by simp
    show ?thesis unfolding c and_exp_eq_0_iff_not_bit by (simp add: bit_take_bit_iff)
  qed
  have h: "(0xFFFF000000000000 :: u64) = push_bit 48 (mask 16)"
    by (simp add: mask_eq_exp_minus_1 push_bit_eq_mult)
  show ?thesis
    unfolding nanbox_as_int_def and_payload Let_def s h
    by (auto simp: bit_or_iff bit_take_bit_iff bit_push_bit_iff bit_mask_iff min_def
        dest: bit_imp_le_length)
qed

lemma sint_nanbox_as_int: "sint (nanbox_as_int v) = signed_take_bit 47 (uint v)"
  by (rule bit_eqI)
    (auto simp: bit_sint_iff bit_nanbox_as_int bit_signed_take_bit_iff bit_uint_iff min_def)

subsection \<open>Classification\<close>

lemma nan_tag_partition:
  "length (filter (\<lambda>p. p v)
     [nanbox_is_double, nanbox_is_int, nanbox_is_obj, nanbox_is_special, nanbox_is_pid]) = 1"
proof -
  consider "nan_tag v div 4 \<noteq> 0x1FFF" | "nan_tag v = 0x7FFC" | "nan_tag v = 0x7FFD"
    | "nan_tag v = 0x7FFE" | "nan_tag v = 0x7FFF"
    by linarith
  then show ?thesis by cases (auto simp: nanbox_is_tags)
qed

lemma nan_tag_div: "nan_tag v = unat v div 2 ^ 48"
  unfolding nan_tag_def unat_drop_bit_eq by (rule drop_bit_eq_div)

lemma not_nan_is_double:
  assumes "\<not> f64_is_nan d" shows "nanbox_is_double d"
proof (rule ccontr)
  assume "\<not> nanbox_is_double d"
  then have "nan_tag d div 4 = 0x1FFF" by (simp add: nanbox_is_double_tag)
  then have ge: "unat d div 2 ^ 48 \<ge> 0x7FFC" "unat d div 2 ^ 48 \<le> 0x7FFF"
    unfolding nan_tag_div by linarith+
  from ge(2) have "unat d < 2 ^ 63" by simp
  then have "f64_mag d = unat d"
    by (simp only: f64_mag_def unsigned_take_bit_eq take_bit_nat_eq_self)
  moreover have "unat d > 2047 * 2 ^ 52" using ge(1) by simp
  ultimately have "f64_is_nan d" unfolding f64_is_nan_def by (simp only:)
  with assms show False by simp
qed

lemma nanbox_int_sint:
  "sint (nanbox_as_int (nanbox_int i)) = (sint i + 2 ^ 47) mod 2 ^ 48 - 2 ^ 47"
proof -
  have "nanbox_as_int (nanbox_int i) = nanbox_as_int i"
    unfolding nanbox_as_int_def payload_encode by (simp add: and_payload)
  then have "sint (nanbox_as_int (nanbox_int i)) = signed_take_bit 47 (uint i)"
    by (simp only: sint_nanbox_as_int)
  also have "\<dots> = signed_take_bit 47 (sint i)"
    by (rule bit_eqI) (auto simp: bit_signed_take_bit_iff bit_uint_iff bit_sint_iff min_def)
  also have "\<dots> = (sint i + 2 ^ 47) mod 2 ^ 48 - 2 ^ 47"
    by (simp add: signed_take_bit_eq_take_bit_shift take_bit_eq_mod)
  finally show ?thesis .
qed

text \<open>
  C22. Storing a 64-bit integer in a NaN box and reading it back gives the integer wrapped to 48
  bits in two's complement: exact on \<open>-2^47 .. 2^47 - 1\<close>, wrapped outside.
\<close>

theorem nanbox_int_wraps:
  "sint (nanbox_as_int (nanbox_int i)) = (sint i + 2 ^ 47) mod 2 ^ 48 - 2 ^ 47"
  by (rule nanbox_int_sint)

text \<open>
  C23. Every 64-bit word passes exactly one of the five type tests; every encoder produces a word
  its own type test accepts, and its decoder reads the payload back: booleans always, integers
  from \<open>-2^47\<close> to \<open>2^47 - 1\<close>, pointers and process ids below \<open>2^48\<close>, doubles that are not NaNs.
\<close>

theorem nanbox_encode_decode:
  assumes "p < 2 ^ 48" and "q < 2 ^ 48" and "\<not> f64_is_nan d" and "- (2 ^ 47) \<le> sint j" and "sint j < 2 ^ 47"
  shows "length (filter (\<lambda>t. t v)
       [nanbox_is_double, nanbox_is_int, nanbox_is_obj, nanbox_is_special, nanbox_is_pid]) = 1
    \<and> nanbox_is_obj (nanbox_obj p) \<and> nanbox_as_obj (nanbox_obj p) = p
    \<and> nanbox_is_pid (nanbox_pid q) \<and> nanbox_as_pid (nanbox_pid q) = q
    \<and> nanbox_is_double (nanbox_double d) \<and> nanbox_as_double (nanbox_double d) = d
    \<and> nanbox_is_int (nanbox_int i) \<and> nanbox_as_int (nanbox_int j) = j
    \<and> nanbox_is_bool (nanbox_bool b) \<and> nanbox_is_special (nanbox_bool b)
    \<and> nanbox_as_bool (nanbox_bool b) = b"
proof -
  have m: "take_bit 48 w = w" if "w < 2 ^ 48" for w :: u64
    using that by (simp add: word_unat_eq_iff unsigned_take_bit_eq word_less_nat_alt take_bit_nat_eq_self)
  have ne: "NANBOX_TRUE \<noteq> NANBOX_FALSE" "NANBOX_FALSE \<noteq> NANBOX_TRUE"
    by (simp_all add: NANBOX_TRUE_def NANBOX_FALSE_def NANBOX_TAG_SPECIAL_def)
  have "nanbox_as_int (nanbox_int j) = j"
    using nanbox_int_sint [of j] assms(4,5) by (simp add: signed_word_eqI)
  then show ?thesis using assms(1-3) nan_tag_partition [of v]
    by (simp add: nanbox_is_tags not_nan_is_double nanbox_as_obj_def nanbox_as_pid_def m
        nanbox_double_def nanbox_as_double_def nanbox_is_bool_def nanbox_bool_def
        nanbox_as_bool_def ne flip: nanbox_is_double_tag)
qed

theorem nanbox_encode_decode_witness:
  "nanbox_as_obj (nanbox_obj 0x7F00DEADBEEF) = 0x7F00DEADBEEF
    \<and> nanbox_as_pid (nanbox_pid 77) = 77
    \<and> nanbox_is_double (nanbox_double 0x3FF0000000000000)
    \<and> nanbox_as_int (nanbox_int (- 5)) = - 5"
proof -
  have "\<not> f64_is_nan 0x3FF0000000000000"
    by (simp add: f64_is_nan_def f64_mag_def unsigned_take_bit_eq take_bit_eq_mod)
  moreover have "sint (- 5 :: u64) = - 5" by simp
  ultimately show ?thesis
    using nanbox_encode_decode [of "0x7F00DEADBEEF" 77 "0x3FF0000000000000" "- 5" 0] by simp
qed

subsection \<open>Equality\<close>

lemma int_payload_range: "\<bar>sint (nanbox_as_int v)\<bar> < 2 ^ 53"
proof -
  have "- (2 ^ 47) \<le> sint (nanbox_as_int v)" "sint (nanbox_as_int v) < 2 ^ 47"
    by (simp_all only: sint_nanbox_as_int signed_take_bit_int_greater_eq_minus_exp
        signed_take_bit_int_less_exp)
  then show ?thesis by (simp add: abs_less_iff)
qed

lemma to_float_int_not_nan: "nanbox_is_int v \<Longrightarrow> \<not> f64_is_nan (nanbox_to_float v)"
  using f64_of_int_parts(3) [OF int_payload_range]
  by (auto simp: nanbox_to_float_def nanbox_is_tags)

text \<open>Comparison of numbers is comparison as doubles; everything else is identity of words.\<close>

lemma nanbox_equal_iff:
  "nanbox_equal a b \<longleftrightarrow>
     (if nanbox_is_number a \<and> nanbox_is_number b
      then f64_eq (nanbox_to_float a) (nanbox_to_float b) else a = b)"
  using to_float_int_not_nan [of a]
  by (auto simp: nanbox_equal_def nanbox_is_number_def nanbox_to_float_def f64_eq_refl_iff)

text \<open>
  C21. Equality of NaN-boxed values is symmetric and transitive, across the integer and double
  representations of numbers; a value equals itself exactly when it is not a NaN double; and two
  boxed integers are equal exactly when they agree as 48-bit integers.
\<close>

theorem nanbox_equal_equivalence:
  "(nanbox_equal a b \<longleftrightarrow> nanbox_equal b a)
   \<and> (nanbox_equal a b \<and> nanbox_equal b c \<longrightarrow> nanbox_equal a c)
   \<and> (nanbox_equal a a \<longleftrightarrow> \<not> (nanbox_is_double a \<and> f64_is_nan a))
   \<and> (nanbox_equal (nanbox_int i) (nanbox_int j)
        \<longleftrightarrow> (sint i + 2 ^ 47) mod 2 ^ 48 = (sint j + 2 ^ 47) mod 2 ^ 48)"
proof (intro conjI)
  show "nanbox_equal a b \<longleftrightarrow> nanbox_equal b a"
    by (auto simp: nanbox_equal_iff f64_eq_sym)
  show "nanbox_equal a b \<and> nanbox_equal b c \<longrightarrow> nanbox_equal a c"
    by (auto simp: nanbox_equal_iff intro: f64_eq_trans)
  show "nanbox_equal a a \<longleftrightarrow> \<not> (nanbox_is_double a \<and> f64_is_nan a)"
    using to_float_int_not_nan [of a]
    by (auto simp: nanbox_equal_iff nanbox_is_number_def nanbox_to_float_def f64_eq_refl_iff
        nanbox_as_double_def)
  have "nanbox_to_float (nanbox_int k) = f64_of_int (sint (nanbox_as_int (nanbox_int k)))" for k
    by (simp add: nanbox_to_float_def nanbox_is_tags)
  then show "nanbox_equal (nanbox_int i) (nanbox_int j)
        \<longleftrightarrow> (sint i + 2 ^ 47) mod 2 ^ 48 = (sint j + 2 ^ 47) mod 2 ^ 48"
    using f64_of_int_eq_iff [OF int_payload_range int_payload_range, of "nanbox_int i" "nanbox_int j"]
    by (simp add: nanbox_equal_iff nanbox_is_number_def nanbox_is_tags nanbox_int_sint)
qed

lemma one_boxed:
  "nanbox_to_float (nanbox_int 1) = 0x3FF0000000000000"
  "nanbox_to_float (nanbox_double 0x3FF0000000000000) = 0x3FF0000000000000"
  "nanbox_is_number (nanbox_double 0x3FF0000000000000)"
  "nanbox_is_number (nanbox_int i)"
  by (simp_all add: nanbox_to_float_def nanbox_is_number_def nanbox_is_tags nanbox_int_sint
      nanbox_double_def nanbox_as_double_def nan_tag_div [of "0x3FF0000000000000"]
      f64_of_int_def f64_mag_of_nat_def bit_length.simps)

theorem nanbox_equal_equivalence_witness:
  "nanbox_equal (nanbox_int 1) (nanbox_double 0x3FF0000000000000)
   \<and> nanbox_equal (nanbox_double 0x3FF0000000000000) (nanbox_int 1)
   \<and> nanbox_equal (nanbox_int 1) (nanbox_int 1)"
proof -
  have "nanbox_equal (nanbox_int 1) (nanbox_double 0x3FF0000000000000)"
    by (simp add: nanbox_equal_iff one_boxed f64_eq_refl_iff f64_is_nan_def f64_mag_def
        unsigned_take_bit_eq take_bit_eq_mod)
  then show ?thesis using nanbox_equal_equivalence by blast
qed

end
