(* ===== verification/Store.thy ===== *)
theory Store
  imports Hash Nanbox "HOL-Library.Monad_Syntax"
begin

text \<open>
  The value heap of \<^verbatim>\<open>vm/value.h\<close>: what a \<^verbatim>\<open>Value *\<close> points to, allocation with failure,
  and the reference counting of \<^verbatim>\<open>vm/value.c\<close>.

  A pointer is \<open>None\<close> (\<^verbatim>\<open>NULL\<close>) or an address. The structures a value owns alone
  (\<^verbatim>\<open>String\<close>, \<^verbatim>\<open>Array\<close> with its items, \<^verbatim>\<open>Map\<close> with its bucket chains, and so on) are part of
  the value's payload; values themselves are shared and live in the store. Every call of the
  allocator, also for those parts, takes one answer of \<open>oom\<close>, which decides whether it fails.
  Operations are explicit state passing in the option monad: \<open>None\<close> is undefined behaviour, the
  dereference or the free of a null, freed or never allocated pointer. Loops of atomic
  compare-and-exchange are the state change of their successful iteration. Allocation sizes are
  taken not to wrap around.
\<close>

subsection \<open>Data\<close>

type_synonym addr = nat
type_synonym ptr = "addr option"

record String =
  s_hash :: u64
  s_data :: string

record Array =
  a_capacity :: nat
  a_items :: "ptr list"

record MapEntry =
  e_key :: String
  e_value :: ptr

record Map =
  m_size :: nat
  m_buckets :: "MapEntry list list"

record Function =
  fn_name :: "string option"
  fn_arity :: nat
  fn_code_offset :: nat
  fn_locals_count :: nat
  fn_parent :: "nat option"

record Bytes =
  b_capacity :: nat
  b_data :: "u8 list"

record Closure =
  cl_function :: nat
  cl_upvalues :: "nat option list"

record Result =
  r_is_ok :: bool
  r_value :: ptr

record Opt =
  o_is_some :: bool
  o_value :: ptr

record StructInstance =
  st_type_name :: "string option"
  st_field_names :: "string option list"
  st_fields :: "ptr list"

record EnumInstance =
  en_type_name :: "string option"
  en_variant_name :: "string option"
  en_payload :: ptr

text \<open>The type tag together with the member of the union it selects.\<close>

datatype payload =
    VNil
  | VBool bool
  | VInt u64
  | VFloat f64
  | VString String
  | VArray Array
  | VMap Map
  | VPid u64
  | VFunction Function
  | VBytes Bytes
  | VVector "f64 list"
  | VClosure Closure
  | VResult Result
  | VOption Opt
  | VStruct StructInstance
  | VEnum EnumInstance

fun value_type :: "payload \<Rightarrow> nat" where
  "value_type VNil = 0"
| "value_type (VBool _) = 1"
| "value_type (VInt _) = 2"
| "value_type (VFloat _) = 3"
| "value_type (VString _) = 4"
| "value_type (VArray _) = 5"
| "value_type (VMap _) = 6"
| "value_type (VPid _) = 7"
| "value_type (VFunction _) = 8"
| "value_type (VBytes _) = 9"
| "value_type (VVector _) = 10"
| "value_type (VClosure _) = 11"
| "value_type (VResult _) = 12"
| "value_type (VOption _) = 13"
| "value_type (VStruct _) = 14"
| "value_type (VEnum _) = 15"

definition VALUE_COW_SHARED :: u8 where "VALUE_COW_SHARED = 0x01"
definition VALUE_IMMUTABLE :: u8 where "VALUE_IMMUTABLE = 0x02"
definition REFCOUNT_FREEING :: u32 where "REFCOUNT_FREEING = 0xFFFFFFFF"
definition REFCOUNT_SATURATED :: u32 where "REFCOUNT_SATURATED = 0xFFFFFFFE"
definition GC_MARKED :: u8 where "GC_MARKED = 0x01"
definition GC_OLD_GEN :: u8 where "GC_OLD_GEN = 0x02"
definition GC_SURVIVAL_MASK :: u8 where "GC_SURVIVAL_MASK = 0x1C"
definition GC_REMEMBERED :: u8 where "GC_REMEMBERED = 0x20"

record Value =
  refcount :: u32
  flags :: u8
  gc_state :: u8
  v_as :: payload
  v_next :: ptr

definition fresh_value :: "u8 \<Rightarrow> payload \<Rightarrow> Value" where
  "fresh_value fl p = \<lparr>refcount = 1, flags = fl, gc_state = 0, v_as = p, v_next = None\<rparr>"

subsection \<open>Collector state of values\<close>

definition value_is_marked :: "Value \<Rightarrow> bool" where
  "value_is_marked v \<longleftrightarrow> gc_state v AND GC_MARKED \<noteq> 0"

definition value_set_marked :: "bool \<Rightarrow> Value \<Rightarrow> Value" where
  "value_set_marked marked v =
     v\<lparr>gc_state := (if marked then gc_state v OR GC_MARKED else gc_state v AND NOT GC_MARKED)\<rparr>"

definition value_is_old_gen :: "Value \<Rightarrow> bool" where
  "value_is_old_gen v \<longleftrightarrow> gc_state v AND GC_OLD_GEN \<noteq> 0"

definition value_set_old_gen :: "Value \<Rightarrow> Value" where
  "value_set_old_gen v = v\<lparr>gc_state := gc_state v OR GC_OLD_GEN\<rparr>"

definition value_survival_count :: "Value \<Rightarrow> u8" where
  "value_survival_count v = drop_bit 2 (gc_state v AND GC_SURVIVAL_MASK)"

definition value_inc_survival :: "Value \<Rightarrow> Value" where
  "value_inc_survival v =
     (let count = value_survival_count v
      in if count < 7
         then v\<lparr>gc_state := (gc_state v AND NOT GC_SURVIVAL_MASK) OR push_bit 2 (count + 1)\<rparr>
         else v)"

definition value_is_remembered :: "Value \<Rightarrow> bool" where
  "value_is_remembered v \<longleftrightarrow> gc_state v AND GC_REMEMBERED \<noteq> 0"

definition value_set_remembered :: "bool \<Rightarrow> Value \<Rightarrow> Value" where
  "value_set_remembered r v =
     v\<lparr>gc_state := (if r then gc_state v OR GC_REMEMBERED else gc_state v AND NOT GC_REMEMBERED)\<rparr>"

subsection \<open>The collector's heap and the store\<close>

datatype GCPhase = GC_IDLE | GC_MARKING | GC_SWEEPING

record Heap =
  hp_objects :: ptr
  hp_bytes_allocated :: nat
  hp_next_gc :: nat
  hp_max_size :: nat
  hp_gc_phase :: GCPhase
  hp_gray_list :: "ptr list"
  hp_gray_capacity :: nat
  hp_generational_enabled :: bool
  hp_young_count :: nat
  hp_old_count :: nat
  hp_young_bytes :: nat
  hp_old_bytes :: nat
  hp_remember_set :: "addr list"
  hp_remember_capacity :: nat
  hp_max_remember_size :: nat
  hp_needs_full_gc :: bool
  hp_promotion_threshold :: u8
  hp_young_gc_threshold :: nat
  hp_minor_gc_count :: nat
  hp_major_gc_count :: nat
  hp_total_allocated :: nat
  hp_total_freed :: nat
  hp_gc_count :: nat

text \<open>
  \<open>cells\<close> is meaningful below \<open>brk\<close> only: addresses from \<open>brk\<close> on were never handed out.
  \<open>allocs\<close> counts the calls of the allocator, and \<open>oom\<close> says which of them fail.
  \<open>cur_heap\<close> is the thread's current heap (\<^verbatim>\<open>tls_current_heap\<close>).
\<close>

record store =
  cells :: "addr \<Rightarrow> Value option"
  brk :: addr
  allocs :: nat
  oom :: "nat \<Rightarrow> bool"
  cur_heap :: "Heap option"

definition cell :: "store \<Rightarrow> addr \<Rightarrow> Value option" where
  "cell s a = (if a < brk s then cells s a else None)"

definition put :: "addr \<Rightarrow> Value \<Rightarrow> store \<Rightarrow> store" where
  "put a v s = s\<lparr>cells := (cells s)(a := Some v)\<rparr>"

definition kill :: "addr \<Rightarrow> store \<Rightarrow> store" where
  "kill a s = s\<lparr>cells := (cells s)(a := None)\<rparr>"

definition deref :: "ptr \<Rightarrow> store \<Rightarrow> Value option" where
  "deref p s = Option.bind p (cell s)"

text \<open>\<open>agim_alloc\<close> and \<open>agim_realloc\<close>: whether the call succeeds.\<close>

definition agim_alloc :: "store \<Rightarrow> bool \<times> store" where
  "agim_alloc s = (\<not> oom s (allocs s), s\<lparr>allocs := Suc (allocs s)\<rparr>)"

definition agim_free :: "addr \<Rightarrow> store \<Rightarrow> store option" where
  "agim_free a s = (case cell s a of None \<Rightarrow> None | Some _ \<Rightarrow> Some (kill a s))"

text \<open>The value at a fresh address, once its memory is there.\<close>

definition new_cell :: "Value \<Rightarrow> store \<Rightarrow> ptr \<times> store" where
  "new_cell v s = (Some (brk s), s\<lparr>cells := (cells s)(brk s := Some v), brk := Suc (brk s)\<rparr>)"

fun allocs_ok :: "nat \<Rightarrow> store \<Rightarrow> bool \<times> store" where
  "allocs_ok 0 s = (True, s)"
| "allocs_ok (Suc n) s =
     (let (ok, s) = agim_alloc s in if ok then allocs_ok n s else (False, s))"

text \<open>
  The constructors: \<open>n\<close> allocator calls (the value, then its parts); a failing one frees what was
  allocated before it and the constructor returns \<^verbatim>\<open>NULL\<close>.
\<close>

definition construct :: "nat \<Rightarrow> u8 \<Rightarrow> payload \<Rightarrow> store \<Rightarrow> ptr \<times> store" where
  "construct n fl p s =
     (let (ok, s) = allocs_ok n s in if ok then new_cell (fresh_value fl p) s else (None, s))"

definition strdup :: "string \<Rightarrow> store \<Rightarrow> string option \<times> store" where
  "strdup str s = (let (ok, s) = agim_alloc s in (if ok then Some (cstr str) else None, s))"

subsection \<open>Constructors\<close>

definition value_nil :: "store \<Rightarrow> ptr \<times> store" where
  "value_nil s = construct 1 0 VNil s"

definition value_bool :: "bool \<Rightarrow> store \<Rightarrow> ptr \<times> store" where
  "value_bool b s = construct 1 0 (VBool b) s"

definition value_int :: "u64 \<Rightarrow> store \<Rightarrow> ptr \<times> store" where
  "value_int i s = construct 1 0 (VInt i) s"

definition value_float :: "f64 \<Rightarrow> store \<Rightarrow> ptr \<times> store" where
  "value_float d s = construct 1 0 (VFloat d) s"

definition value_pid :: "u64 \<Rightarrow> store \<Rightarrow> ptr \<times> store" where
  "value_pid p s = construct 1 0 (VPid p) s"

definition value_function :: "string option \<Rightarrow> nat \<Rightarrow> store \<Rightarrow> ptr \<times> store" where
  "value_function name arity s =
     (let (ok, s) = allocs_ok 2 s
      in if \<not> ok then (None, s)
         else let (nm, s) = (case name of None \<Rightarrow> (None, s) | Some str \<Rightarrow> strdup str s)
              in new_cell (fresh_value 0 (VFunction \<lparr>fn_name = nm, fn_arity = arity,
                   fn_code_offset = 0, fn_locals_count = 0, fn_parent = None\<rparr>)) s)"

definition value_bytes :: "nat \<Rightarrow> store \<Rightarrow> ptr \<times> store" where
  "value_bytes capacity s =
     construct 3 0 (VBytes \<lparr>b_capacity = (if capacity > 0 then capacity else 64), b_data = []\<rparr>) s"

definition value_result_ok :: "ptr \<Rightarrow> store \<Rightarrow> ptr \<times> store" where
  "value_result_ok v s = construct 2 0 (VResult \<lparr>r_is_ok = True, r_value = v\<rparr>) s"

definition value_result_err :: "ptr \<Rightarrow> store \<Rightarrow> ptr \<times> store" where
  "value_result_err e s = construct 2 0 (VResult \<lparr>r_is_ok = False, r_value = e\<rparr>) s"

definition value_some :: "ptr \<Rightarrow> store \<Rightarrow> ptr \<times> store" where
  "value_some v s = construct 2 0 (VOption \<lparr>o_is_some = True, o_value = v\<rparr>) s"

definition value_none :: "store \<Rightarrow> ptr \<times> store" where
  "value_none s = construct 2 0 (VOption \<lparr>o_is_some = False, o_value = None\<rparr>) s"

text \<open>
  \<open>value_struct_new\<close> does not check the allocations of its two tables; with a field to clear, a
  failed one is a write through \<^verbatim>\<open>NULL\<close>.
\<close>

definition value_struct_new :: "string \<Rightarrow> nat \<Rightarrow> store \<Rightarrow> (ptr \<times> store) option" where
  "value_struct_new type_name field_count s =
     (let (ok, s) = allocs_ok 2 s
      in if \<not> ok then Some (None, s)
         else let (tn, s) = strdup type_name s;
                  (ok1, s) = (if 0 < field_count then agim_alloc s else (True, s));
                  (ok2, s) = (if 0 < field_count then agim_alloc s else (True, s))
              in if \<not> ok1 \<or> \<not> ok2 then None
                 else Some (new_cell (fresh_value 0 (VStruct \<lparr>st_type_name = tn,
                   st_field_names = replicate field_count None,
                   st_fields = replicate field_count None\<rparr>)) s))"

definition value_enum_with_payload :: "string \<Rightarrow> string \<Rightarrow> ptr \<Rightarrow> store \<Rightarrow> ptr \<times> store" where
  "value_enum_with_payload type_name variant_name pl s =
     (let (ok, s) = allocs_ok 2 s
      in if \<not> ok then (None, s)
         else let (tn, s) = strdup type_name s;
                  (vn, s) = strdup variant_name s
              in new_cell (fresh_value 0 (VEnum \<lparr>en_type_name = tn, en_variant_name = vn,
                   en_payload = pl\<rparr>)) s)"

definition value_enum_unit :: "string \<Rightarrow> string \<Rightarrow> store \<Rightarrow> ptr \<times> store" where
  "value_enum_unit type_name variant_name s = value_enum_with_payload type_name variant_name None s"

subsection \<open>Accessors\<close>

text \<open>
  The pattern \<^verbatim>\<open>if (!v || v->type != T) return d;\<close> of the accessors: \<open>d\<close> for \<^verbatim>\<open>NULL\<close>, else
  a function of the payload.
\<close>

definition peek :: "'a \<Rightarrow> (payload \<Rightarrow> 'a) \<Rightarrow> ptr \<Rightarrow> store \<Rightarrow> 'a option" where
  "peek d f p s =
     (case p of None \<Rightarrow> Some d | Some a \<Rightarrow> map_option (\<lambda>v. f (v_as v)) (cell s a))"

definition value_result_is_ok :: "ptr \<Rightarrow> store \<Rightarrow> bool option" where
  "value_result_is_ok = peek False (\<lambda>p. case p of VResult r \<Rightarrow> r_is_ok r | _ \<Rightarrow> False)"

definition value_result_is_err :: "ptr \<Rightarrow> store \<Rightarrow> bool option" where
  "value_result_is_err = peek False (\<lambda>p. case p of VResult r \<Rightarrow> \<not> r_is_ok r | _ \<Rightarrow> False)"

definition value_result_unwrap :: "ptr \<Rightarrow> store \<Rightarrow> ptr option" where
  "value_result_unwrap =
     peek None (\<lambda>p. case p of VResult r \<Rightarrow> if \<not> r_is_ok r then None else r_value r | _ \<Rightarrow> None)"

definition value_result_unwrap_or :: "ptr \<Rightarrow> ptr \<Rightarrow> store \<Rightarrow> ptr option" where
  "value_result_unwrap_or v d =
     peek d (\<lambda>p. case p of VResult r \<Rightarrow> if r_is_ok r then r_value r else d | _ \<Rightarrow> d) v"

definition value_result_unwrap_err :: "ptr \<Rightarrow> store \<Rightarrow> ptr option" where
  "value_result_unwrap_err =
     peek None (\<lambda>p. case p of VResult r \<Rightarrow> if r_is_ok r then None else r_value r | _ \<Rightarrow> None)"

definition value_option_is_some :: "ptr \<Rightarrow> store \<Rightarrow> bool option" where
  "value_option_is_some = peek False (\<lambda>p. case p of VOption r \<Rightarrow> o_is_some r | _ \<Rightarrow> False)"

definition value_option_is_none :: "ptr \<Rightarrow> store \<Rightarrow> bool option" where
  "value_option_is_none = peek False (\<lambda>p. case p of VOption r \<Rightarrow> \<not> o_is_some r | _ \<Rightarrow> False)"

definition value_option_unwrap :: "ptr \<Rightarrow> store \<Rightarrow> ptr option" where
  "value_option_unwrap =
     peek None (\<lambda>p. case p of VOption r \<Rightarrow> if \<not> o_is_some r then None else o_value r | _ \<Rightarrow> None)"

definition value_option_unwrap_or :: "ptr \<Rightarrow> ptr \<Rightarrow> store \<Rightarrow> ptr option" where
  "value_option_unwrap_or v d =
     peek d (\<lambda>p. case p of VOption r \<Rightarrow> if o_is_some r then o_value r else d | _ \<Rightarrow> d) v"

definition value_struct_set_field :: "ptr \<Rightarrow> nat \<Rightarrow> string \<Rightarrow> ptr \<Rightarrow> store \<Rightarrow> store option" where
  "value_struct_set_field p index name x s =
     (case p of None \<Rightarrow> Some s
      | Some a \<Rightarrow> do {
          v \<leftarrow> cell s a;
          (case v_as v of
             VStruct inst \<Rightarrow>
               if length (st_fields inst) \<le> index then Some s
               else let (nm, s) = strdup name s
                    in Some (put a (v\<lparr>v_as := VStruct (inst\<lparr>
                         st_field_names := (st_field_names inst)[index := nm],
                         st_fields := (st_fields inst)[index := x]\<rparr>)\<rparr>) s)
           | _ \<Rightarrow> Some s)})"

fun struct_field_loop :: "string option list \<Rightarrow> ptr list \<Rightarrow> string \<Rightarrow> ptr" where
  "struct_field_loop (n # ns) (f # fs) name =
     (if n \<noteq> None \<and> cstr (the n) = cstr name then f else struct_field_loop ns fs name)"
| "struct_field_loop _ _ name = None"

definition value_struct_get_field :: "ptr \<Rightarrow> string \<Rightarrow> store \<Rightarrow> ptr option" where
  "value_struct_get_field v name =
     peek None (\<lambda>p. case p of
       VStruct inst \<Rightarrow> struct_field_loop (st_field_names inst) (st_fields inst) name
     | _ \<Rightarrow> None) v"

definition value_struct_get_field_index :: "ptr \<Rightarrow> nat \<Rightarrow> store \<Rightarrow> ptr option" where
  "value_struct_get_field_index v index =
     peek None (\<lambda>p. case p of
       VStruct inst \<Rightarrow> if length (st_fields inst) \<le> index then None else st_fields inst ! index
     | _ \<Rightarrow> None) v"

definition value_struct_type_name :: "ptr \<Rightarrow> store \<Rightarrow> string option option" where
  "value_struct_type_name =
     peek None (\<lambda>p. case p of VStruct inst \<Rightarrow> st_type_name inst | _ \<Rightarrow> None)"

definition value_enum_type_name :: "ptr \<Rightarrow> store \<Rightarrow> string option option" where
  "value_enum_type_name = peek None (\<lambda>p. case p of VEnum e \<Rightarrow> en_type_name e | _ \<Rightarrow> None)"

definition value_enum_variant_name :: "ptr \<Rightarrow> store \<Rightarrow> string option option" where
  "value_enum_variant_name = peek None (\<lambda>p. case p of VEnum e \<Rightarrow> en_variant_name e | _ \<Rightarrow> None)"

definition value_enum_payload :: "ptr \<Rightarrow> store \<Rightarrow> ptr option" where
  "value_enum_payload = peek None (\<lambda>p. case p of VEnum e \<Rightarrow> en_payload e | _ \<Rightarrow> None)"

text \<open>A variant without a name (its copy failed) makes \<^verbatim>\<open>strcmp\<close> read through \<^verbatim>\<open>NULL\<close>.\<close>

definition value_enum_is_variant :: "ptr \<Rightarrow> string \<Rightarrow> store \<Rightarrow> bool option" where
  "value_enum_is_variant v name s =
     Option.bind (peek (Some False) (\<lambda>p. case p of
       VEnum e \<Rightarrow> map_option (\<lambda>n. cstr n = cstr name) (en_variant_name e)
     | _ \<Rightarrow> Some False) v s) (\<lambda>r. r)"

definition type_is :: "nat \<Rightarrow> ptr \<Rightarrow> store \<Rightarrow> bool option" where
  "type_is n = peek False (\<lambda>p. value_type p = n)"

definition value_is_nil :: "ptr \<Rightarrow> store \<Rightarrow> bool option" where "value_is_nil = type_is 0"
definition value_is_bool :: "ptr \<Rightarrow> store \<Rightarrow> bool option" where "value_is_bool = type_is 1"
definition value_is_int :: "ptr \<Rightarrow> store \<Rightarrow> bool option" where "value_is_int = type_is 2"
definition value_is_float :: "ptr \<Rightarrow> store \<Rightarrow> bool option" where "value_is_float = type_is 3"
definition value_is_number :: "ptr \<Rightarrow> store \<Rightarrow> bool option" where
  "value_is_number = peek False (\<lambda>p. value_type p = 2 \<or> value_type p = 3)"
definition value_is_string :: "ptr \<Rightarrow> store \<Rightarrow> bool option" where "value_is_string = type_is 4"
definition value_is_array :: "ptr \<Rightarrow> store \<Rightarrow> bool option" where "value_is_array = type_is 5"
definition value_is_map :: "ptr \<Rightarrow> store \<Rightarrow> bool option" where "value_is_map = type_is 6"
definition value_is_pid :: "ptr \<Rightarrow> store \<Rightarrow> bool option" where "value_is_pid = type_is 7"
definition value_is_function :: "ptr \<Rightarrow> store \<Rightarrow> bool option" where "value_is_function = type_is 8"
definition value_is_result :: "ptr \<Rightarrow> store \<Rightarrow> bool option" where "value_is_result = type_is 12"
definition value_is_option :: "ptr \<Rightarrow> store \<Rightarrow> bool option" where "value_is_option = type_is 13"
definition value_is_struct :: "ptr \<Rightarrow> store \<Rightarrow> bool option" where "value_is_struct = type_is 14"
definition value_is_enum :: "ptr \<Rightarrow> store \<Rightarrow> bool option" where "value_is_enum = type_is 15"

fun payload_truthy :: "payload \<Rightarrow> bool" where
  "payload_truthy VNil = False"
| "payload_truthy (VBool b) = b"
| "payload_truthy (VInt i) = (i \<noteq> 0)"
| "payload_truthy (VFloat d) = (\<not> f64_eq d 0)"
| "payload_truthy (VString str) = (0 < length (s_data str))"
| "payload_truthy (VArray arr) = (0 < length (a_items arr))"
| "payload_truthy (VMap m) = (0 < m_size m)"
| "payload_truthy (VOption opt) = o_is_some opt"
| "payload_truthy (VResult r) = r_is_ok r"
| "payload_truthy _ = True"

definition value_is_truthy :: "ptr \<Rightarrow> store \<Rightarrow> bool option" where
  "value_is_truthy = peek False payload_truthy"

subsection \<open>Reference counting\<close>

text \<open>\<open>value_retain\<close> answers \<open>None\<close> (\<^verbatim>\<open>NULL\<close>) for a value that is being freed or is free.\<close>

definition value_retain :: "ptr \<Rightarrow> store \<Rightarrow> (ptr \<times> store) option" where
  "value_retain p s =
     (case p of None \<Rightarrow> Some (None, s)
      | Some a \<Rightarrow> do {
          v \<leftarrow> cell s a;
          let current = refcount v;
          if current = REFCOUNT_FREEING \<or> current = 0 then Some (None, s)
          else if REFCOUNT_SATURATED \<le> current then Some (Some a, s)
          else let new_count = current + 1;
                   new_count = (if REFCOUNT_SATURATED \<le> new_count then REFCOUNT_SATURATED else new_count)
               in Some (Some a, put a (v\<lparr>refcount := new_count\<rparr>) s)})"

definition value_release :: "ptr \<Rightarrow> store \<Rightarrow> store option" where
  "value_release p s =
     (case p of None \<Rightarrow> Some s
      | Some a \<Rightarrow> do {
          v \<leftarrow> cell s a;
          let current = refcount v;
          if current = REFCOUNT_FREEING \<or> current = REFCOUNT_SATURATED then Some s
          else if current = 0 then Some s
          else Some (put a (v\<lparr>refcount := current - 1\<rparr>) s)})"

definition value_needs_cow :: "ptr \<Rightarrow> store \<Rightarrow> bool option" where
  "value_needs_cow p s =
     (case p of None \<Rightarrow> Some False | Some a \<Rightarrow> map_option (\<lambda>v. 1 < refcount v) (cell s a))"

definition value_can_share :: "ptr \<Rightarrow> store \<Rightarrow> bool option" where
  "value_can_share = peek False (\<lambda>p. value_type p \<in> {0, 1, 2, 3, 4, 7, 8, 10} \<or> value_type p \<in> {5, 6, 9})"

definition value_mark_shared :: "ptr \<Rightarrow> store \<Rightarrow> store option" where
  "value_mark_shared p s =
     (case p of None \<Rightarrow> Some s
      | Some a \<Rightarrow> do {v \<leftarrow> cell s a; Some (put a (v\<lparr>flags := flags v OR VALUE_COW_SHARED\<rparr>) s)})"

definition value_is_immutable :: "ptr \<Rightarrow> store \<Rightarrow> bool option" where
  "value_is_immutable p s =
     (case p of None \<Rightarrow> Some True
      | Some a \<Rightarrow> do {
          v \<leftarrow> cell s a;
          Some (if value_type (v_as v) \<in> {0, 1, 2, 3, 4, 7, 8, 10} then True
                else if value_type (v_as v) \<in> {5, 6, 9, 11} then flags v AND VALUE_IMMUTABLE \<noteq> 0
                else False)})"

definition value_cow_share :: "ptr \<Rightarrow> store \<Rightarrow> (ptr \<times> store) option" where
  "value_cow_share p s =
     (case p of None \<Rightarrow> Some (None, s)
      | Some a \<Rightarrow> do {
          imm \<leftarrow> value_is_immutable p s;
          if imm then value_retain p s
          else do {
            s \<leftarrow> value_mark_shared p s;
            value_retain p s}})"

subsection \<open>Freeing\<close>

fun somes :: "'a option list \<Rightarrow> 'a list" where
  "somes [] = []"
| "somes (None # xs) = somes xs"
| "somes (Some x # xs) = x # somes xs"

lemma somes_append [simp]: "somes (xs @ ys) = somes xs @ somes ys"
  by (induction xs rule: somes.induct) simp_all

lemma set_somes [simp]: "set (somes xs) = {x. Some x \<in> set xs}"
  by (induction xs rule: somes.induct) auto

text \<open>The values \<open>value_free\<close> calls itself on, in the order of its loops.\<close>

fun children :: "payload \<Rightarrow> addr list" where
  "children (VArray arr) = somes (a_items arr)"
| "children (VMap m) = somes (map e_value (concat (m_buckets m)))"
| "children (VResult r) = somes [r_value r]"
| "children (VOption opt) = (if o_is_some opt then somes [o_value opt] else [])"
| "children (VStruct inst) = somes (st_fields inst)"
| "children (VEnum e) = somes [en_payload e]"
| "children _ = []"

text \<open>
  The recursion of \<open>value_free\<close> as an explicit stack: \<open>Visit a\<close> is a call on \<open>a\<close>, \<open>Dispose a\<close>
  the final \<^verbatim>\<open>agim_free(v)\<close> after the calls on the children.
\<close>

datatype task = Visit addr | Dispose addr

definition unfreed :: "store \<Rightarrow> addr set" where
  "unfreed s = {a. \<exists>v. cell s a = Some v \<and> refcount v \<noteq> REFCOUNT_FREEING}"

lemma finite_unfreed [simp]: "finite (unfreed s)"
proof (rule finite_subset)
  show "unfreed s \<subseteq> {..< brk s}" by (auto simp: unfreed_def cell_def split: if_splits)
qed simp

lemma cell_put: "a < brk s \<Longrightarrow> cell (put a v s) b = (if b = a then Some v else cell s b)"
  by (auto simp: cell_def put_def)

lemma cell_kill: "cell (kill a s) b = (if b = a then None else cell s b)"
  by (auto simp: cell_def kill_def)

lemma brk_put [simp]: "brk (put a v s) = brk s" "brk (kill a s) = brk s"
  by (simp_all add: put_def kill_def)

lemma cell_SomeD: "cell s a = Some v \<Longrightarrow> a < brk s"
  by (simp add: cell_def split: if_splits)

function free_loop :: "task list \<Rightarrow> store \<Rightarrow> store option" where
  "free_loop [] s = Some s"
| "free_loop (Visit a # ts) s =
     (case cell s a of
        None \<Rightarrow> None
      | Some v \<Rightarrow>
          let current = refcount v
          in if current = REFCOUNT_FREEING \<or> current = 0 then free_loop ts s
             else if current = REFCOUNT_SATURATED then free_loop ts s
             else if current = 1
             then free_loop (map Visit (children (v_as v)) @ Dispose a # ts)
                    (put a (v\<lparr>refcount := REFCOUNT_FREEING\<rparr>) s)
             else free_loop ts (put a (v\<lparr>refcount := current - 1\<rparr>) s))"
| "free_loop (Dispose a # ts) s =
     (case agim_free a s of None \<Rightarrow> None | Some s \<Rightarrow> free_loop ts s)"
  by pat_completeness auto
termination
proof (relation "measures [\<lambda>(ts, s). card (unfreed s), \<lambda>(ts, s). length ts]", goal_cases)
  case (4 a ts s v current)
  have "unfreed (put a (v\<lparr>refcount := REFCOUNT_FREEING\<rparr>) s) \<subset> unfreed s"
    using 4 cell_SomeD [of s a v] by (auto simp: unfreed_def cell_put)
  then show ?case by (simp add: psubset_card_mono)
next
  case (5 a ts s v current)
  have "unfreed (put a (v\<lparr>refcount := current - 1\<rparr>) s) \<subseteq> unfreed s"
    using 5 cell_SomeD [of s a v] by (auto simp: unfreed_def cell_put)
  then have "card (unfreed (put a (v\<lparr>refcount := current - 1\<rparr>) s)) \<le> card (unfreed s)" by (simp add: card_mono)
  then show ?case by (auto simp: le_less)
next
  case (6 a ts s s')
  then have "unfreed s' \<subseteq> unfreed s"
    by (auto simp: unfreed_def agim_free_def cell_kill split: option.splits if_splits)
  then have "card (unfreed s') \<le> card (unfreed s)" by (simp add: card_mono)
  then show ?case by (auto simp: le_less)
qed simp_all

declare free_loop.simps(2,3) [simp del]

definition value_free :: "ptr \<Rightarrow> store \<Rightarrow> store option" where
  "value_free p s = (case p of None \<Rightarrow> Some s | Some a \<Rightarrow> free_loop [Visit a] s)"

text \<open>The stack of calls is a sequence of calls.\<close>

lemma free_loop_append: "free_loop (ts @ us) s = Option.bind (free_loop ts s) (free_loop us)"
proof (induction ts s rule: free_loop.induct)
  case (2 a ts s)
  then show ?case by (auto simp: free_loop.simps(2) Let_def split: option.splits)
next
  case (3 a ts s)
  then show ?case by (auto simp: free_loop.simps(3) split: option.splits)
qed simp

text \<open>\<open>value_free\<close> as the recursive function of the source.\<close>

lemma free_loop_Cons: "free_loop (t # ts) s = Option.bind (free_loop [t] s) (free_loop ts)"
  using free_loop_append [of "[t]" ts s] by simp

fun value_free_each :: "addr list \<Rightarrow> store \<Rightarrow> store option" where
  "value_free_each [] s = Some s"
| "value_free_each (x # xs) s = do {s \<leftarrow> value_free (Some x) s; value_free_each xs s}"

lemma free_loop_visits: "free_loop (map Visit xs) s = value_free_each xs s"
proof (induction xs arbitrary: s)
  case (Cons x xs)
  then have "free_loop (map Visit xs) = value_free_each xs" by (simp add: fun_eq_iff)
  then show ?case by (simp add: value_free_def free_loop_Cons [of "Visit x" "map Visit xs"])
qed simp

lemma value_free_unfold:
  "value_free (Some a) s = do {
     v \<leftarrow> cell s a;
     let current = refcount v;
     if current = REFCOUNT_FREEING \<or> current = 0 \<or> current = REFCOUNT_SATURATED then Some s
     else if current = 1 then do {
       s \<leftarrow> value_free_each (children (v_as v)) (put a (v\<lparr>refcount := REFCOUNT_FREEING\<rparr>) s);
       agim_free a s}
     else Some (put a (v\<lparr>refcount := current - 1\<rparr>) s)}"
  by (auto simp: value_free_def free_loop.simps(2) Let_def free_loop_append free_loop_visits
      free_loop.simps(3) split: option.splits bind_splits)

end
