(* ===== verification/Ownership.thy ===== *)
theory Ownership
  imports Store
begin

text \<open>
  Ownership accounting for the reference-counted store. A multiset \<open>R\<close> of addresses stands for
  the references held outside the store (by the stack, a mailbox, a C local). The store is
  exactly accounted for when the count of every live value is the number of references to it
  from other live values and from \<open>R\<close>. Freeing, retaining and constructing keep the account.
\<close>

subsection \<open>References held inside the store\<close>

definition held :: "Value option \<Rightarrow> addr multiset" where
  "held c = (case c of None \<Rightarrow> {#}
     | Some v \<Rightarrow> if refcount v = REFCOUNT_FREEING then {#} else mset (children (v_as v)))"

lemma held_simps [simp]:
  "held None = {#}"
  "refcount v = REFCOUNT_FREEING \<Longrightarrow> held (Some v) = {#}"
  "refcount v \<noteq> REFCOUNT_FREEING \<Longrightarrow> held (Some v) = mset (children (v_as v))"
  by (simp_all add: held_def)

definition refs :: "store \<Rightarrow> addr multiset" where
  "refs s = (\<Sum>a<brk s. held (cell s a))"

lemma sum_update:
  fixes f g :: "nat \<Rightarrow> 'a multiset"
  assumes "a < n" and "\<And>b. b < n \<Longrightarrow> b \<noteq> a \<Longrightarrow> g b = f b"
  shows "sum g {..<n} + f a = sum f {..<n} + g a"
proof -
  have "sum g ({..<n} - {a}) = sum f ({..<n} - {a})"
    by (rule sum.cong) (use assms(2) in auto)
  then show ?thesis
    using assms(1) sum.remove [of "{..<n}" a g] sum.remove [of "{..<n}" a f]
    by (simp add: ac_simps)
qed

lemma refs_put:
  "cell s a = Some v \<Longrightarrow> refs (put a v' s) + held (Some v) = refs s + held (Some v')"
  using sum_update [of a "brk s" "\<lambda>b. held (cell (put a v' s) b)" "\<lambda>b. held (cell s b)"]
  by (simp add: refs_def cell_put cell_SomeD)

lemma refs_kill: "cell s a = Some v \<Longrightarrow> refs (kill a s) + held (Some v) = refs s"
  using sum_update [of a "brk s" "\<lambda>b. held (cell (kill a s) b)" "\<lambda>b. held (cell s b)"]
  by (simp add: refs_def cell_kill cell_SomeD)

lemma cell_new:
  "new_cell v s = (p, s') \<Longrightarrow> p = Some (brk s) \<and> cell s (brk s) = None
     \<and> cell s' b = (if b = brk s then Some v else cell s b)"
  by (auto simp: new_cell_def cell_def)

lemma refs_new: "new_cell v s = (p, s') \<Longrightarrow> refs s' = refs s + held (Some v)"
proof -
  assume n: "new_cell v s = (p, s')"
  then have "brk s' = Suc (brk s)" by (auto simp: new_cell_def)
  moreover have "(\<Sum>a<brk s. held (cell s' a)) = (\<Sum>a<brk s. held (cell s a))"
    using cell_new [OF n] by (intro sum.cong) auto
  ultimately show ?thesis using cell_new [OF n] by (simp add: refs_def)
qed

subsection \<open>The account\<close>

fun visits :: "task list \<Rightarrow> addr list" where
  "visits [] = []"
| "visits (Visit a # ts) = a # visits ts"
| "visits (Dispose a # ts) = visits ts"

fun disposals :: "task list \<Rightarrow> addr list" where
  "disposals [] = []"
| "disposals (Visit a # ts) = disposals ts"
| "disposals (Dispose a # ts) = a # disposals ts"

lemma visits_append [simp]: "visits (ts @ us) = visits ts @ visits us"
  by (induction ts rule: visits.induct) simp_all

lemma disposals_append [simp]: "disposals (ts @ us) = disposals ts @ disposals us"
  by (induction ts rule: disposals.induct) simp_all

lemma visits_Visit [simp]: "visits (map Visit xs) = xs" "disposals (map Visit xs) = []"
  by (induction xs) simp_all

text \<open>
  What is known of one address, given how often it is referenced (\<open>n\<close>) and how often its
  disposal is pending (\<open>d\<close>).
\<close>

definition accounted :: "Value option \<Rightarrow> nat \<Rightarrow> nat \<Rightarrow> bool" where
  "accounted c n d = (case c of
     None \<Rightarrow> n = 0 \<and> d = 0
   | Some v \<Rightarrow>
       if refcount v = REFCOUNT_FREEING then n = 0 \<and> d = 1
       else d = 0 \<and> unat (refcount v) = n \<and> 0 < n \<and> refcount v < REFCOUNT_SATURATED)"

definition balanced :: "task list \<Rightarrow> addr multiset \<Rightarrow> store \<Rightarrow> bool" where
  "balanced ts R s \<longleftrightarrow>
     (\<forall>a. accounted (cell s a) (count (refs s + mset (visits ts) + R) a) (count (mset (disposals ts)) a))"

definition owns :: "addr multiset \<Rightarrow> store \<Rightarrow> bool" where
  "owns R s \<longleftrightarrow> balanced [] R s"

lemma balancedD:
  "balanced ts R s \<Longrightarrow>
    accounted (cell s a) (count (refs s + mset (visits ts) + R) a) (count (mset (disposals ts)) a)"
  by (simp add: balanced_def)

lemma visited_live:
  assumes "balanced (Visit a # ts) R s"
  obtains v where "cell s a = Some v" "refcount v \<noteq> REFCOUNT_FREEING" "refcount v \<noteq> 0"
    "refcount v < REFCOUNT_SATURATED"
    "unat (refcount v) = Suc (count (refs s + mset (visits ts) + R) a)" "a \<notin> set (disposals ts)"
proof -
  have acc: "accounted (cell s a) (Suc (count (refs s + mset (visits ts) + R) a)) (count (mset (disposals ts)) a)"
    using balancedD [OF assms, of a] by simp
  show thesis
  proof (cases "cell s a")
    case None
    with acc show ?thesis by (simp add: accounted_def)
  next
    case (Some v)
    with acc have r: "refcount v \<noteq> REFCOUNT_FREEING" "refcount v < REFCOUNT_SATURATED"
      "unat (refcount v) = Suc (count (refs s + mset (visits ts) + R) a)" "count (mset (disposals ts)) a = 0"
      by (simp_all add: accounted_def split: if_splits)
    moreover from r(3) have "refcount v \<noteq> 0" by auto
    moreover from r(4) have "a \<notin> set (disposals ts)" by (simp add: count_mset_0_iff)
    ultimately show ?thesis using Some that by blast
  qed
qed

lemma saturated_facts [simp]:
  "REFCOUNT_SATURATED \<noteq> REFCOUNT_FREEING" "REFCOUNT_SATURATED < REFCOUNT_FREEING"
  "REFCOUNT_FREEING \<noteq> 0" "REFCOUNT_SATURATED \<noteq> 0" "REFCOUNT_FREEING \<noteq> 1" "1 < REFCOUNT_SATURATED"
  "\<not> REFCOUNT_FREEING < REFCOUNT_SATURATED" "\<not> REFCOUNT_FREEING \<le> REFCOUNT_SATURATED"
  by (simp_all add: REFCOUNT_SATURATED_def REFCOUNT_FREEING_def)

lemma balanced_last:
  assumes b: "balanced (Visit a # ts) R s" and c: "cell s a = Some v" and one: "refcount v = 1"
  shows "balanced (map Visit (children (v_as v)) @ Dispose a # ts) R (put a (v\<lparr>refcount := REFCOUNT_FREEING\<rparr>) s)"
    (is "balanced ?ts R ?s")
proof -
  obtain v' where v': "cell s a = Some v'" "refcount v' \<noteq> REFCOUNT_FREEING"
    "unat (refcount v') = Suc (count (refs s + mset (visits ts) + R) a)" "a \<notin> set (disposals ts)"
    using visited_live [OF b] by metis
  with c one have zero: "count (refs s + mset (visits ts) + R) a = 0"
    and nf: "refcount v \<noteq> REFCOUNT_FREEING" and nd: "count (mset (disposals ts)) a = 0"
    by (auto simp: count_mset_0_iff)
  have "refs ?s + mset (children (v_as v)) = refs s"
    using refs_put [OF c, of "v\<lparr>refcount := REFCOUNT_FREEING\<rparr>"] nf by simp
  then have W: "refs ?s + mset (visits ?ts) + R = refs s + mset (visits ts) + R"
    by (simp add: ac_simps)
  show ?thesis
    unfolding balanced_def W
  proof
    fix x
    show "accounted (cell ?s x) (count (refs s + mset (visits ts) + R) x) (count (mset (disposals ?ts)) x)"
      using balancedD [OF b, of x] zero nd cell_SomeD [OF c]
      by (cases "x = a") (auto simp: cell_put accounted_def)
  qed
qed

lemma balanced_dec:
  assumes b: "balanced (Visit a # ts) R s" and c: "cell s a = Some v" and one: "refcount v \<noteq> 1"
  shows "balanced ts R (put a (v\<lparr>refcount := refcount v - 1\<rparr>) s)" (is "balanced ts R ?s")
proof -
  obtain v' where v': "cell s a = Some v'" "refcount v' \<noteq> REFCOUNT_FREEING" "refcount v' \<noteq> 0"
    "refcount v' < REFCOUNT_SATURATED"
    "unat (refcount v') = Suc (count (refs s + mset (visits ts) + R) a)" "a \<notin> set (disposals ts)"
    using visited_live [OF b] by metis
  with c have r: "refcount v \<noteq> REFCOUNT_FREEING" "refcount v \<noteq> 0" "refcount v < REFCOUNT_SATURATED"
    "unat (refcount v) = Suc (count (refs s + mset (visits ts) + R) a)"
    and nd: "count (mset (disposals ts)) a = 0"
    by (auto simp: count_mset_0_iff)
  have u: "unat (refcount v - 1) = unat (refcount v) - 1"
    using r(2) by (rule unat_minus_one)
  have lt: "refcount v - 1 < REFCOUNT_SATURATED"
    using r(2,3) u by (simp add: word_less_nat_alt)
  then have nf: "refcount v - 1 \<noteq> REFCOUNT_FREEING" by auto
  have pos: "0 < count (refs s + mset (visits ts) + R) a"
  proof (rule ccontr)
    assume "\<not> ?thesis"
    then have "count (refs s + mset (visits ts) + R) a = 0" by (simp only: not_gr_zero)
    then have "unat (refcount v) = unat (1 :: u32)" using r(4) by (simp only: unsigned_1 One_nat_def)
    then show False using one by (simp only: word_unat_eq_iff)
  qed
  have W: "refs ?s = refs s"
    using refs_put [OF c, of "v\<lparr>refcount := refcount v - 1\<rparr>"] r(1) nf by simp
  show ?thesis
    unfolding balanced_def W
  proof
    fix x
    show "accounted (cell ?s x) (count (refs s + mset (visits ts) + R) x) (count (mset (disposals ts)) x)"
      using balancedD [OF b, of x] nd cell_SomeD [OF c] r u lt nf pos
      by (cases "x = a") (auto simp: cell_put accounted_def)
  qed
qed

lemma balanced_dispose:
  assumes b: "balanced (Dispose a # ts) R s"
  shows "\<exists>s'. agim_free a s = Some s' \<and> balanced ts R s'"
proof -
  from balancedD [OF b, of a] obtain v where c: "cell s a = Some v" and f: "refcount v = REFCOUNT_FREEING"
    and z: "count (refs s + mset (visits ts) + R) a = 0" "count (mset (disposals ts)) a = 0"
    by (auto simp: accounted_def split: option.splits if_splits)
  have W: "refs (kill a s) = refs s" using refs_kill [OF c] f by simp
  have "balanced ts R (kill a s)"
    unfolding balanced_def W
  proof
    fix x
    show "accounted (cell (kill a s) x) (count (refs s + mset (visits ts) + R) x) (count (mset (disposals ts)) x)"
      using balancedD [OF b, of x] z by (cases "x = a") (auto simp: cell_kill accounted_def)
  qed
  then show ?thesis using c by (simp add: agim_free_def)
qed

lemma balanced_free_loop: "balanced ts R s \<Longrightarrow> \<exists>s'. free_loop ts s = Some s' \<and> balanced [] R s'"
proof (induction ts s rule: free_loop.induct)
  case (1 s)
  then show ?case by simp
next
  case (2 a ts s)
  obtain v where v: "cell s a = Some v" "refcount v \<noteq> REFCOUNT_FREEING" "refcount v \<noteq> 0"
    "refcount v < REFCOUNT_SATURATED"
    using visited_live [OF 2(5)] by metis
  then have ns: "refcount v \<noteq> REFCOUNT_SATURATED" by auto
  show ?case
  proof (cases "refcount v = 1")
    case True
    then show ?thesis
      using 2(3) [OF v(1) refl] v ns balanced_last [OF 2(5) v(1)]
      by (simp add: free_loop.simps(2) Let_def)
  next
    case False
    then show ?thesis
      using 2(4) [OF v(1) refl] v ns balanced_dec [OF 2(5) v(1)]
      by (simp add: free_loop.simps(2) Let_def)
  qed
next
  case (3 a ts s)
  then show ?case using balanced_dispose [OF 3(2)] by (auto simp: free_loop.simps(3))
qed

subsection \<open>Constructing, retaining, moving references\<close>

lemma cell_allocs [simp]:
  "cell (snd (agim_alloc s)) a = cell s a" "brk (snd (agim_alloc s)) = brk s"
  by (simp_all add: agim_alloc_def cell_def)

lemma refs_cong: "brk s' = brk s \<Longrightarrow> (\<And>a. cell s' a = cell s a) \<Longrightarrow> refs s' = refs s"
  by (simp add: refs_def)

lemma owns_cong:
  assumes "brk s' = brk s" and "\<And>a. cell s' a = cell s a"
  shows "owns R s' \<longleftrightarrow> owns R s"
  using refs_cong [OF assms] assms by (simp add: owns_def balanced_def)

lemma owns_agim_alloc [simp]: "owns R (snd (agim_alloc s)) \<longleftrightarrow> owns R s"
  by (rule owns_cong) simp_all

lemma allocs_ok_frame [simp]:
  "cell (snd (allocs_ok n s)) a = cell s a" "brk (snd (allocs_ok n s)) = brk s"
proof (induction n arbitrary: s)
  case (Suc n)
  { case 1 then show ?case
      using Suc(1) [of "snd (agim_alloc s)"] cell_allocs [of s] by (cases "agim_alloc s") simp
  next
    case 2 then show ?case
      using Suc(2) [of "snd (agim_alloc s)"] cell_allocs [of s] by (cases "agim_alloc s") simp }
qed simp_all

lemma owns_allocs_ok [simp]: "owns R (snd (allocs_ok n s)) \<longleftrightarrow> owns R s"
  by (rule owns_cong) simp_all

lemma owns_accounted: "owns R s \<Longrightarrow> accounted (cell s a) (count (refs s + R) a) 0"
  using balancedD [of "[]" R s a] by (simp add: owns_def)

lemma ownsD:
  assumes "owns R s" and "cell s a = Some v"
  shows "refcount v \<noteq> REFCOUNT_FREEING" "unat (refcount v) = count (refs s + R) a"
    "0 < count (refs s + R) a" "refcount v < REFCOUNT_SATURATED" "refcount v \<noteq> 0"
proof -
  show *: "refcount v \<noteq> REFCOUNT_FREEING" "unat (refcount v) = count (refs s + R) a"
    "0 < count (refs s + R) a" "refcount v < REFCOUNT_SATURATED"
    using owns_accounted [OF assms(1), of a] assms(2)
    unfolding accounted_def by (simp_all del: count_union split: if_splits)
  show "refcount v \<noteq> 0" using *(2,3) by (metis unsigned_0 less_irrefl)
qed

lemma owns_live:
  assumes "owns R s" and "a \<in># refs s + R" shows "\<exists>v. cell s a = Some v"
proof (cases "cell s a")
  case None
  then have "count (refs s + R) a = 0"
    using owns_accounted [OF assms(1), of a] by (simp add: accounted_def)
  with assms(2) show ?thesis by (metis count_eq_zero_iff)
qed simp

lemma owns_new:
  assumes "owns (mset (children p) + R) s" and "new_cell (fresh_value fl p) s = (q, s')"
  shows "owns (add_mset (brk s) R) s'"
proof -
  have nf: "(1 :: u32) \<noteq> REFCOUNT_FREEING" by (simp add: REFCOUNT_FREEING_def)
  have W: "refs s' = refs s + mset (children p)"
    using refs_new [OF assms(2)] nf by (simp add: fresh_value_def)
  note n = cell_new [OF assms(2)]
  have "accounted (cell s x) (count (refs s + (mset (children p) + R)) x) 0" for x
    using balancedD [of "[]" "mset (children p) + R" s x] assms(1) by (simp add: owns_def)
  note acc = this
  have z: "count (refs s + (mset (children p) + R)) (brk s) = 0"
    using acc [of "brk s"] n by (simp add: accounted_def)
  show ?thesis
    unfolding owns_def balanced_def W
  proof
    fix x
    show "accounted (cell s' x) (count (refs s + mset (children p) + mset (visits []) + add_mset (brk s) R) x)
        (count (mset (disposals [])) x)"
      using acc [of x] z n nf
      by (cases "x = brk s") (auto simp: accounted_def fresh_value_def ac_simps)
  qed
qed

lemma owns_construct:
  assumes "owns (mset (children p) + R) s"
  obtains (ok) s' where "construct n fl p s = (Some (brk s), s')" "owns (add_mset (brk s) R) s'"
      "cell s' (brk s) = Some (fresh_value fl p)" "\<And>a. a \<noteq> brk s \<Longrightarrow> cell s' a = cell s a"
  | (nomem) s' where "construct n fl p s = (None, s')" "owns (mset (children p) + R) s'"
      "\<And>a. cell s' a = cell s a"
proof -
  obtain b s1 where s1: "allocs_ok n s = (b, s1)" by force
  then have o1: "owns (mset (children p) + R) s1" and c1: "\<And>a. cell s1 a = cell s a" "brk s1 = brk s"
    using assms owns_allocs_ok [of _ n s] allocs_ok_frame [of n s] by simp_all
  show thesis
  proof (cases b)
    case True
    obtain q s' where n: "new_cell (fresh_value fl p) s1 = (q, s')" by force
    then have "construct n fl p s = (Some (brk s), s')"
      using True s1 cell_new [OF n] c1 by (simp add: construct_def)
    then show thesis using ok owns_new [OF o1 n] cell_new [OF n] c1 by simp
  next
    case False
    then show thesis using nomem [of s1] s1 o1 c1 by (simp add: construct_def)
  qed
qed

lemma accounted_cong:
  "refcount v' = refcount v \<Longrightarrow> accounted (Some v') n d \<longleftrightarrow> accounted (Some v) n d"
  by (simp add: accounted_def)

lemma move_cancel:
  fixes A B :: "'a multiset"
  assumes "A + k = B + k'" and "k' + R' = k + R" shows "A + R' = B + R"
proof (rule multiset_eqI)
  fix x
  have "count (A + k) x = count (B + k') x" "count (k' + R') x = count (k + R) x"
    by (simp_all only: assms)
  then show "count (A + R') x = count (B + R) x" by simp
qed

lemma owns_put:
  assumes o: "owns R s" and c: "cell s a = Some v" and rc: "refcount v' = refcount v"
    and moved: "mset (children (v_as v')) + R' = mset (children (v_as v)) + R"
  shows "owns R' (put a v' s)"
proof -
  note r = ownsD [OF o c]
  have "refs (put a v' s) + mset (children (v_as v)) = refs s + mset (children (v_as v'))"
    using refs_put [OF c, of v'] r(1) rc by simp
  then have W: "refs (put a v' s) + R' = refs s + R" using moved by (rule move_cancel)
  have "accounted (cell (put a v' s) x) (count (refs (put a v' s) + R') x) 0" for x
    unfolding W cell_put [OF cell_SomeD [OF c]]
    using owns_accounted [OF o, of x] c accounted_cong [OF rc] by (cases "x = a") (simp_all only: simp_thms if_True if_False)
  then show ?thesis by (simp add: owns_def balanced_def)
qed

lemma owns_retain:
  assumes o: "owns R s" and c: "cell s a = Some v" and room: "refcount v + 1 < REFCOUNT_SATURATED"
  shows "value_retain (Some a) s = Some (Some a, put a (v\<lparr>refcount := refcount v + 1\<rparr>) s)"
    and "owns (add_mset a R) (put a (v\<lparr>refcount := refcount v + 1\<rparr>) s)"
proof -
  note r = ownsD [OF o c]
  show "value_retain (Some a) s = Some (Some a, put a (v\<lparr>refcount := refcount v + 1\<rparr>) s)"
    using c r room by (simp add: value_retain_def Let_def not_le)
  have u: "unat (refcount v + 1) = Suc (unat (refcount v))"
  proof -
    have "unat (refcount v) < 2 ^ 32 - 2"
      using r(4) by (simp add: word_less_nat_alt REFCOUNT_SATURATED_def)
    then show ?thesis by (simp add: unat_word_ariths(1))
  qed
  have nf: "refcount v + 1 \<noteq> REFCOUNT_FREEING" using room by auto
  have W: "refs (put a (v\<lparr>refcount := refcount v + 1\<rparr>) s) = refs s"
    using refs_put [OF c, of "v\<lparr>refcount := refcount v + 1\<rparr>"] r(1) nf by simp
  show "owns (add_mset a R) (put a (v\<lparr>refcount := refcount v + 1\<rparr>) s)"
    unfolding owns_def balanced_def W
  proof
    fix x
    have "accounted (cell s x) (count (refs s + R) x) 0"
      using balancedD [of "[]" R s x] o by (simp add: owns_def)
    then show "accounted (cell (put a (v\<lparr>refcount := refcount v + 1\<rparr>) s) x)
        (count (refs s + mset (visits []) + add_mset a R) x) (count (mset (disposals [])) x)"
      using r u nf room cell_SomeD [OF c] c by (cases "x = a") (simp_all add: cell_put accounted_def)
  qed
qed

lemma owns_Visit: "owns (add_mset a R) s \<Longrightarrow> balanced [Visit a] R s"
  by (simp add: owns_def balanced_def)

subsection \<open>Freeing leaves unreferenced containers alone\<close>

text \<open>
  An address that no other live value refers to and that is not itself being freed plays no role
  in a run of \<open>free_loop\<close>: its cell may be replaced before or after.
\<close>

definition unreferenced :: "addr \<Rightarrow> store \<Rightarrow> bool" where
  "unreferenced b s \<longleftrightarrow> (\<forall>a v. a \<noteq> b \<longrightarrow> cell s a = Some v \<longrightarrow> b \<notin> set (children (v_as v)))"

lemma put_put_other: "a \<noteq> b \<Longrightarrow> put a v (put b w s) = put b w (put a v s)"
  by (simp add: put_def fun_upd_twist)

lemma put_kill_other: "a \<noteq> b \<Longrightarrow> kill a (put b w s) = put b w (kill a s)"
  by (simp add: put_def kill_def fun_upd_twist)

lemma cell_put_other: "a \<noteq> b \<Longrightarrow> cell (put b w s) a = cell s a"
  by (simp add: cell_def put_def)

lemma unreferenced_put:
  "unreferenced b s \<Longrightarrow> cell s a = Some v \<Longrightarrow> a \<noteq> b \<Longrightarrow> unreferenced b (put a (v\<lparr>refcount := n\<rparr>) s)"
  using cell_SomeD [of s a v] by (auto simp: unreferenced_def cell_put)

lemma unreferenced_kill: "unreferenced b s \<Longrightarrow> unreferenced b (kill a s)"
  by (auto simp: unreferenced_def cell_kill split: if_splits)

definition framed :: "addr \<Rightarrow> Value \<Rightarrow> task list \<Rightarrow> store \<Rightarrow> bool" where
  "framed b w ts s \<longleftrightarrow> free_loop ts (put b w s) = map_option (put b w) (free_loop ts s)
     \<and> (\<forall>s'. free_loop ts s = Some s' \<longrightarrow> cell s' b = cell s b)"

lemma framed_step:
  "framed b w us t \<Longrightarrow> free_loop ts s = free_loop us t \<Longrightarrow>
   free_loop ts (put b w s) = free_loop us (put b w t) \<Longrightarrow> cell t b = cell s b \<Longrightarrow> framed b w ts s"
  unfolding framed_def by simp

lemma free_loop_frame:
  assumes "b \<notin> set (visits ts)" and "b \<notin> set (disposals ts)" and "unreferenced b s"
  shows "framed b w ts s"
  using assms
proof (induction ts s rule: free_loop.induct)
  case (1 s)
  show ?case by (simp add: framed_def)
next
  case (2 a ts s)
  have ab: "a \<noteq> b" "b \<noteq> a" using "2.prems"(1) by auto
  show ?case
  proof (cases "cell s a")
    case None
    then show ?thesis using ab by (simp add: framed_def free_loop.simps(2) cell_put_other)
  next
    case (Some v)
    have c: "cell (put b w s) a = Some v" using cell_put_other [OF ab(1)] Some by simp
    have nk: "b \<notin> set (children (v_as v))" using "2.prems"(3) Some ab by (auto simp: unreferenced_def)
    have tb: "b \<notin> set (visits ts)" "b \<notin> set (disposals ts)" using "2.prems" by simp_all
    consider (skip) "refcount v = REFCOUNT_FREEING \<or> refcount v = 0 \<or> refcount v = REFCOUNT_SATURATED"
      | (last) "refcount v \<noteq> REFCOUNT_FREEING" "refcount v \<noteq> 0" "refcount v \<noteq> REFCOUNT_SATURATED" "refcount v = 1"
      | (dec) "refcount v \<noteq> REFCOUNT_FREEING" "refcount v \<noteq> 0" "refcount v \<noteq> REFCOUNT_SATURATED" "refcount v \<noteq> 1"
      by blast
    then show ?thesis
    proof cases
      case skip
      then have "framed b w ts s"
        using "2.IH"(1,2) [OF Some refl] tb "2.prems"(3) by blast
      then show ?thesis
        by (rule framed_step) (use skip Some c in \<open>auto simp: free_loop.simps(2) Let_def\<close>)
    next
      case last
      let ?us = "map Visit (children (v_as v)) @ Dispose a # ts"
        and ?t = "put a (v\<lparr>refcount := REFCOUNT_FREEING\<rparr>) s"
      have "framed b w ?us ?t"
        by (rule "2.IH"(3) [OF Some refl])
          (use last nk ab tb unreferenced_put [OF "2.prems"(3) Some ab(1)] in simp_all)
      then show ?thesis
        by (rule framed_step)
          (use last Some c ab in \<open>simp_all add: free_loop.simps(2) Let_def put_put_other cell_put_other\<close>)
    next
      case dec
      let ?t = "put a (v\<lparr>refcount := refcount v - 1\<rparr>) s"
      have "framed b w ts ?t"
        by (rule "2.IH"(4) [OF Some refl])
          (use dec tb unreferenced_put [OF "2.prems"(3) Some ab(1)] in simp_all)
      then show ?thesis
        by (rule framed_step)
          (use dec Some c ab in \<open>simp_all add: free_loop.simps(2) Let_def put_put_other cell_put_other\<close>)
    qed
  qed
next
  case (3 a ts s)
  have ab: "a \<noteq> b" "b \<noteq> a" using "3.prems"(2) by auto
  have c: "cell (put b w s) a = cell s a" by (rule cell_put_other [OF ab(1)])
  show ?case
  proof (cases "cell s a")
    case None
    then show ?thesis by (simp add: framed_def free_loop.simps(3) agim_free_def c)
  next
    case (Some v)
    then have f: "agim_free a s = Some (kill a s)" by (simp add: agim_free_def)
    have "framed b w ts (kill a s)"
      by (rule "3.IH" [OF f]) (use "3.prems" unreferenced_kill in simp_all)
    then show ?thesis
      by (rule framed_step)
        (use Some c ab in \<open>simp_all add: free_loop.simps(3) agim_free_def put_kill_other cell_kill\<close>)
  qed
qed

lemma unreferenced_if_unique:
  assumes "owns (add_mset b R) s" and "cell s b = Some w" and "refcount w = 1"
  shows "unreferenced b s" and "b \<notin># refs s" and "b \<notin># R"
proof -
  have "count (refs s + add_mset b R) b = 1" using ownsD(2) [OF assms(1,2)] assms(3) by simp
  then have z: "count (refs s) b = 0" "count R b = 0" by auto
  then show nr: "b \<notin># refs s" and "b \<notin># R" by (simp_all only: not_in_iff)
  show "unreferenced b s"
    unfolding unreferenced_def
  proof (intro allI impI)
    fix a v assume v: "cell s a = Some v"
    have "held (cell s a) \<subseteq># refs s"
      unfolding refs_def using cell_SomeD [OF v] by (simp add: sum.remove)
    then show "b \<notin> set (children (v_as v))"
      using v ownsD(1) [OF assms(1) v] nr by (auto dest: mset_subset_eqD)
  qed
qed

text \<open>
  Releasing something a uniquely held container refers to and then overwriting the container is
  the same as taking it out of the container first.
\<close>

lemma value_free_in_container:
  assumes o: "owns (add_mset b R) s" and w: "cell s b = Some w" and one: "refcount w = 1"
    and w': "refcount w' = refcount w"
    and moved: "mset (children (v_as w')) + add_mset x (add_mset b R') = mset (children (v_as w)) + add_mset b R"
    and xb: "x \<noteq> b"
  shows "\<exists>s'. value_free (Some x) s = Some s' \<and> cell s' b = Some w \<and> owns (add_mset b R') (put b w' s')
    \<and> value_free (Some x) (put b w' s) = Some (put b w' s')"
proof -
  have "owns (add_mset x (add_mset b R')) (put b w' s)"
    by (rule owns_put [OF o w w' moved])
  then have "balanced [Visit x] (add_mset b R') (put b w' s)" by (rule owns_Visit)
  from balanced_free_loop [OF this] obtain s2 where
    s2: "free_loop [Visit x] (put b w' s) = Some s2" "balanced [] (add_mset b R') s2" by blast
  have "framed b w' [Visit x] s"
    using xb by (intro free_loop_frame unreferenced_if_unique [OF o w one]) simp_all
  then obtain s' where "free_loop [Visit x] s = Some s'" "s2 = put b w' s'" "cell s' b = Some w"
    using s2(1) w unfolding framed_def by (cases "free_loop [Visit x] s") auto
  then show ?thesis using s2 by (simp add: value_free_def owns_def)
qed

text \<open>
  C2. Freeing is safe and exact: in a store whose reference counts account for all references,
  giving up one reference to \<open>a\<close> with \<open>value_free\<close> never touches freed memory and never frees
  twice, whatever sharing and whatever depth the value has, and leaves a store that is again
  accounted for, without that reference: every value still referenced is alive, and every value
  left alive is still referenced.
\<close>

theorem value_free_owns:
  assumes "owns (add_mset a R) s"
  shows "\<exists>s'. value_free (Some a) s = Some s' \<and> owns R s'"
proof -
  have "balanced [Visit a] R s" using assms by (rule owns_Visit)
  then show ?thesis using balanced_free_loop by (simp add: value_free_def owns_def)
qed

subsection \<open>Concrete stores\<close>

definition store_of :: "Value list \<Rightarrow> store" where
  "store_of vs =
     \<lparr>cells = (\<lambda>a. if a < length vs then Some (vs ! a) else None), brk = length vs,
      allocs = 0, oom = (\<lambda>_. False), cur_heap = None\<rparr>"

lemma cell_store_of: "cell (store_of vs) a = (if a < length vs then Some (vs ! a) else None)"
  by (simp add: cell_def store_of_def)

lemma refs_store_of: "refs (store_of vs) = (\<Sum>v\<leftarrow>vs. held (Some v))"
proof -
  have "refs (store_of vs) = (\<Sum>a<length vs. held (Some (vs ! a)))"
    unfolding refs_def by (intro sum.cong) (simp_all add: cell_store_of, simp add: store_of_def)
  also have "\<dots> = (\<Sum>v\<leftarrow>vs. held (Some v))"
    by (simp add: sum_list_sum_nth atLeast0LessThan)
  finally show ?thesis .
qed

lemma owns_store_of:
  assumes "list_all (\<lambda>a. accounted (Some (vs ! a)) (count ((\<Sum>v\<leftarrow>vs. held (Some v)) + R) a) 0) [0..<length vs]"
    and "\<forall>a \<in># (\<Sum>v\<leftarrow>vs. held (Some v)) + R. a < length vs"
  shows "owns R (store_of vs)"
  unfolding owns_def balanced_def refs_store_of
proof
  fix a
  let ?n = "count ((\<Sum>v\<leftarrow>vs. held (Some v)) + R) a"
  have "accounted (cell (store_of vs) a) ?n 0"
  proof (cases "a < length vs")
    case True
    then show ?thesis using assms(1) by (simp only: cell_store_of list_all_iff) auto
  next
    case False
    then have "?n = 0" using assms(2) by (metis not_in_iff)
    then show ?thesis using False by (simp only: cell_store_of accounted_def) simp
  qed
  then show "accounted (cell (store_of vs) a) (count ((\<Sum>v\<leftarrow>vs. held (Some v)) + mset (visits []) + R) a)
      (count (mset (disposals [])) a)"
    by simp
qed

lemmas store_eval = list_all_iff accounted_def held_def fresh_value_def REFCOUNT_FREEING_def
  REFCOUNT_SATURATED_def upt_rec [of _ "Suc _"] upt_rec [of _ "numeral _"] nth_Cons'

text \<open>A value shared twice by an array: \<open>[7, 7]\<close> with one integer cell.\<close>

definition shared_pair :: store where
  "shared_pair = store_of
     [(fresh_value 0 (VInt 7))\<lparr>refcount := 2\<rparr>,
      fresh_value 0 (VArray \<lparr>a_capacity = 8, a_items = [Some 0, Some 0]\<rparr>)]"

lemma shared_pair_owns: "owns {#1#} shared_pair"
  unfolding shared_pair_def by (rule owns_store_of) (simp_all add: store_eval)

theorem value_free_owns_witness:
  "owns {#1#} shared_pair \<and> (\<exists>s'. value_free (Some 1) shared_pair = Some s' \<and> owns {#} s')"
  using value_free_owns [of 1 "{#}" shared_pair] shared_pair_owns by simp

end
