(* ===== verification/Cow.thy ===== *)
theory Cow
  imports Ownership
begin

text \<open>
  What the containers (\<^verbatim>\<open>types/array.c\<close>, \<^verbatim>\<open>types/map.c\<close>) share: the collector's write barrier
  (\<^verbatim>\<open>vm/gc.c\<close>) and copy-on-write. A writing operation first makes its container writable: a
  value held once is written in place, a shared one is copied and the caller's reference moves
  to the copy. The locale \<open>cow_container\<close> states what a container's \<open>ensure_writable\<close> promises,
  and derives what every operation built on it needs.
\<close>

subsection \<open>Write barrier\<close>

definition remember_set_add :: "addr \<Rightarrow> store \<Rightarrow> store option" where
  "remember_set_add a s =
     (case cur_heap s of None \<Rightarrow> Some s
      | Some h \<Rightarrow> do {
          v \<leftarrow> cell s a;
          if value_is_remembered v then Some s
          else if hp_max_remember_size h \<le> length (hp_remember_set h)
          then Some (s\<lparr>cur_heap := Some (h\<lparr>hp_needs_full_gc := True\<rparr>)\<rparr>)
          else let (ok, h, s) =
                     (if hp_remember_capacity h \<le> length (hp_remember_set h)
                      then let new_cap = (if hp_remember_capacity h = 0 then 64
                                          else hp_remember_capacity h * 2);
                               new_cap = min new_cap (hp_max_remember_size h);
                               (ok, s) = agim_alloc s
                           in (ok, h\<lparr>hp_remember_capacity := new_cap\<rparr>, s)
                      else (True, h, s))
               in if \<not> ok then Some s
                  else Some (put a (value_set_remembered True v)
                    (s\<lparr>cur_heap := Some (h\<lparr>hp_remember_set := hp_remember_set h @ [a]\<rparr>)\<rparr>))})"

definition gc_write_barrier :: "addr \<Rightarrow> ptr \<Rightarrow> store \<Rightarrow> store option" where
  "gc_write_barrier container item s =
     (case cur_heap s of None \<Rightarrow> Some s
      | Some h \<Rightarrow>
          if \<not> hp_generational_enabled h then Some s
          else case item of None \<Rightarrow> Some s
          | Some x \<Rightarrow> do {
              cv \<leftarrow> cell s container;
              xv \<leftarrow> cell s x;
              if value_is_old_gen cv \<and> \<not> value_is_old_gen xv then remember_set_add container s
              else Some s})"

subsection \<open>Writing operations\<close>

fun retain_each :: "ptr list \<Rightarrow> store \<Rightarrow> (ptr list \<times> store) option" where
  "retain_each [] s = Some ([], s)"
| "retain_each (p # ps) s = do {
     (q, s) \<leftarrow> value_retain p s;
     (qs, s) \<leftarrow> retain_each ps s;
     Some (q # qs, s)}"

text \<open>
  The common prologue of the operations that write: other values (and \<^verbatim>\<open>NULL\<close>) are returned as
  they are, a container (recognised by \<open>unwrap\<close>) is made writable, and \<open>f\<close> is the rest of the
  operation on it.
\<close>

definition on_writable ::
  "(payload \<Rightarrow> 'c option) \<Rightarrow> (addr \<Rightarrow> store \<Rightarrow> (ptr \<times> store) option) \<Rightarrow> ptr \<Rightarrow>
   (addr \<Rightarrow> 'c \<Rightarrow> store \<Rightarrow> ('r \<times> store) option) \<Rightarrow> (ptr \<Rightarrow> 'r) \<Rightarrow> store \<Rightarrow> ('r \<times> store) option"
where
  "on_writable unwrap ensure_writable p f other s =
     (case p of None \<Rightarrow> Some (other None, s)
      | Some a \<Rightarrow> do {
          v \<leftarrow> cell s a;
          (case unwrap (v_as v) of
             None \<Rightarrow> Some (other p, s)
           | Some _ \<Rightarrow> do {
               (writable, s) \<leftarrow> ensure_writable a s;
               (case writable of None \<Rightarrow> Some (other None, s)
                | Some b \<Rightarrow> do {
                    w \<leftarrow> cell s b;
                    (case unwrap (v_as w) of
                       None \<Rightarrow> Some (other writable, s)
                     | Some c \<Rightarrow> f b c s)})})})"

definition store_as :: "addr \<Rightarrow> payload \<Rightarrow> store \<Rightarrow> store option" where
  "store_as b p s = do {w \<leftarrow> cell s b; Some (put b (w\<lparr>v_as := p\<rparr>) s)}"

definition free_item :: "ptr \<Rightarrow> store \<Rightarrow> store option" where
  "free_item p s = (case p of None \<Rightarrow> Some s | Some x \<Rightarrow> value_free (Some x) s)"

subsection \<open>Payloads and room in the counts\<close>

text \<open>
  What the payload of an address is, and that reference counts are far enough from saturation
  for \<open>n\<close> more references.
\<close>

definition pay :: "store \<Rightarrow> addr \<Rightarrow> payload option" where
  "pay s a = map_option v_as (cell s a)"

definition room :: "nat \<Rightarrow> store \<Rightarrow> bool" where
  "room n s \<longleftrightarrow> (\<forall>a v. cell s a = Some v \<longrightarrow> unat (refcount v) + n < 2 ^ 32 - 2)"

lemma roomD:
  assumes "room (Suc n) s" and "cell s a = Some v"
  shows "refcount v + 1 < REFCOUNT_SATURATED"
    and "unat (refcount v + 1) = Suc (unat (refcount v))"
proof -
  have u: "unat (refcount v) + Suc n < 2 ^ 32 - 2" using assms unfolding room_def by blast
  then show e: "unat (refcount v + 1) = Suc (unat (refcount v))"
    by (simp add: unat_word_ariths(1))
  have "unat REFCOUNT_SATURATED = 2 ^ 32 - 2" by (simp add: REFCOUNT_SATURATED_def)
  then show "refcount v + 1 < REFCOUNT_SATURATED"
    unfolding word_less_nat_alt e using u by linarith
qed

lemma room_mono: "room n s \<Longrightarrow> m \<le> n \<Longrightarrow> room m s"
  unfolding room_def by (meson add_le_mono le_trans order_le_less_trans order_refl)

lemma room_retain:
  assumes "room (Suc n) s" and "cell s a = Some v"
  shows "room n (put a (v\<lparr>refcount := refcount v + 1\<rparr>) s)"
  unfolding room_def
proof (intro allI impI)
  fix b w assume w: "cell (put a (v\<lparr>refcount := refcount v + 1\<rparr>) s) b = Some w"
  show "unat (refcount w) + n < 2 ^ 32 - 2"
  proof (cases "b = a")
    case True
    then have "w = v\<lparr>refcount := refcount v + 1\<rparr>" using w cell_SomeD [OF assms(2)] by (simp add: cell_put)
    moreover have "unat (refcount v) + Suc n < 2 ^ 32 - 2" using assms unfolding room_def by blast
    ultimately show ?thesis using roomD(2) [OF assms] by simp
  next
    case False
    then have "cell s b = Some w" using w cell_SomeD [OF assms(2)] by (simp add: cell_put)
    then have "unat (refcount w) + Suc n < 2 ^ 32 - 2" using assms(1) unfolding room_def by blast
    then show ?thesis by linarith
  qed
qed

lemma pay_put: "cell s a = Some v \<Longrightarrow> pay (put a w s) b = (if b = a then Some (v_as w) else pay s b)"
  by (simp add: pay_def cell_put cell_SomeD)

definition counts_grow :: "store \<Rightarrow> store \<Rightarrow> bool" where
  "counts_grow s s' \<longleftrightarrow> (\<forall>a v. cell s a = Some v \<longrightarrow>
     (\<exists>w. cell s' a = Some w \<and> unat (refcount v) \<le> unat (refcount w)))"

lemma counts_grow_refl [simp]: "counts_grow s s"
  by (simp add: counts_grow_def)

lemma counts_grow_trans: "counts_grow s t \<Longrightarrow> counts_grow t u \<Longrightarrow> counts_grow s u"
  unfolding counts_grow_def by (meson le_trans)

lemma retain_step:
  assumes o: "owns R s" and x: "pay s x \<noteq> None" and r: "room (Suc n) s"
  obtains s' where "value_retain (Some x) s = Some (Some x, s')" "owns (add_mset x R) s'" "pay s' = pay s"
    "brk s' = brk s" "counts_grow s s'" "oom s' = oom s" "room n s'"
proof -
  obtain v where v: "cell s x = Some v" using x by (auto simp: pay_def)
  let ?s = "put x (v\<lparr>refcount := refcount v + 1\<rparr>) s"
  note rt = owns_retain [OF o v roomD(1) [OF r v]]
  have "oom ?s = oom s" by (simp add: put_def)
  moreover have "counts_grow s ?s"
    using v roomD(2) [OF r v] cell_SomeD [OF v] by (auto simp: counts_grow_def cell_put)
  moreover have "pay ?s = pay s" using v by (auto simp: pay_put fun_eq_iff) (simp add: pay_def)
  moreover have "room n ?s" by (rule room_retain [OF r v])
  ultimately show thesis using that rt by simp
qed

lemma retain_each_owns:
  assumes "owns R s" and "room (length ps) s" and "\<forall>x \<in> set (somes ps). pay s x \<noteq> None"
  shows "\<exists>s'. retain_each ps s = Some (ps, s') \<and> owns (mset (somes ps) + R) s' \<and> pay s' = pay s
    \<and> brk s' = brk s \<and> counts_grow s s' \<and> oom s' = oom s"
  using assms
proof (induction ps arbitrary: s R)
  case Nil
  then show ?case by simp
next
  case (Cons p ps)
  show ?case
  proof (cases p)
    case None
    then show ?thesis
      using Cons.IH [OF Cons.prems(1)] Cons.prems room_mono [OF Cons.prems(2)]
      by (auto simp: value_retain_def)
  next
    case (Some x)
    have x: "pay s x \<noteq> None" using Cons.prems(3) Some by simp
    have r: "room (Suc (length ps)) s" using Cons.prems(2) by simp
    obtain s1 where s1: "value_retain (Some x) s = Some (Some x, s1)" "owns (add_mset x R) s1" "pay s1 = pay s"
      "brk s1 = brk s" "counts_grow s s1" "oom s1 = oom s" "room (length ps) s1"
      by (rule retain_step [OF Cons.prems(1) x r])
    have "\<forall>y \<in> set (somes ps). pay s1 y \<noteq> None" using Cons.prems(3) Some s1(3) by simp
    from Cons.IH [OF s1(2,7) this]
    obtain s' where "retain_each ps s1 = Some (ps, s')" "owns (mset (somes ps) + add_mset x R) s'"
      "pay s' = pay s1" "brk s' = brk s1" "counts_grow s1 s'" "oom s' = oom s1" by blast
    then show ?thesis using Some s1 counts_grow_trans by fastforce
  qed
qed

lemma child_in_refs:
  assumes "owns R s" and "cell s a = Some v" and "x \<in> set (children (v_as v))"
  shows "x \<in># refs s"
proof -
  have "held (cell s a) \<subseteq># refs s"
    unfolding refs_def using cell_SomeD [OF assms(2)] by (simp add: sum.remove)
  then show ?thesis using assms ownsD(1) [OF assms(1,2)] by (auto dest: mset_subset_eqD)
qed

text \<open>Everything a live value refers to is live.\<close>

lemma children_live:
  assumes o: "owns R s" and p: "pay s a = Some p" and x: "x \<in> set (children p)"
  shows "pay s x \<noteq> None"
proof -
  obtain v where v: "cell s a = Some v" "v_as v = p" using p by (auto simp: pay_def)
  then have "x \<in># refs s + R" using child_in_refs [OF o v(1)] x by simp
  then show ?thesis using owns_live [OF o] by (auto simp: pay_def)
qed

lemma owns_release:
  assumes "owns (add_mset a R) s" and "cell s a = Some v" and "refcount v \<noteq> 1"
  shows "value_release (Some a) s = Some (put a (v\<lparr>refcount := refcount v - 1\<rparr>) s)"
    and "owns R (put a (v\<lparr>refcount := refcount v - 1\<rparr>) s)"
proof -
  note r = ownsD [OF assms(1,2)]
  then have "refcount v \<noteq> REFCOUNT_SATURATED" by auto
  then show "value_release (Some a) s = Some (put a (v\<lparr>refcount := refcount v - 1\<rparr>) s)"
    using assms(2) r by (simp add: value_release_def Let_def)
  have "balanced [Visit a] R s" using assms(1) by (simp add: owns_def balanced_def)
  then show "owns R (put a (v\<lparr>refcount := refcount v - 1\<rparr>) s)"
    unfolding owns_def using assms(2,3) by (rule balanced_dec)
qed

lemma allocs_ok_fails: "allocs_ok n s = (False, s') \<Longrightarrow> \<exists>k. oom s k"
proof (induction n arbitrary: s)
  case (Suc n)
  obtain ok s1 where s1: "agim_alloc s = (ok, s1)" by force
  then have "oom s1 = oom s" "\<not> ok \<Longrightarrow> oom s (allocs s)" by (auto simp: agim_alloc_def)
  then show ?case using Suc.prems Suc.IH [of s1] s1 by (cases ok) auto
qed simp

lemma oom_frame [simp]: "oom (snd (allocs_ok n s)) = oom s"
proof (induction n arbitrary: s)
  case (Suc n)
  obtain ok s1 where s1: "agim_alloc s = (ok, s1)" by force
  then have "oom s1 = oom s" by (auto simp: agim_alloc_def)
  then show ?case using Suc [of s1] s1 by simp
qed simp

definition unshared :: "store \<Rightarrow> addr \<Rightarrow> bool" where
  "unshared s a \<longleftrightarrow> (\<exists>v. cell s a = Some v \<and> refcount v = 1)"

definition same_elsewhere :: "addr \<Rightarrow> store \<Rightarrow> store \<Rightarrow> bool" where
  "same_elsewhere b s s' \<longleftrightarrow> (\<forall>c. c \<noteq> b \<longrightarrow> pay s' c = pay s c)"

lemma owns_heap [simp]: "owns R (s\<lparr>cur_heap := h\<rparr>) \<longleftrightarrow> owns R s"
  by (rule owns_cong) (simp_all add: cell_def)

lemma pay_heap [simp]: "pay (s\<lparr>cur_heap := h\<rparr>) = pay s"
  by (simp add: pay_def cell_def fun_eq_iff)

lemma pay_Some: "pay s a = Some p \<longleftrightarrow> (\<exists>v. cell s a = Some v \<and> v_as v = p)"
  by (auto simp: pay_def)

definition same_counts :: "store \<Rightarrow> store \<Rightarrow> bool" where
  "same_counts s s' \<longleftrightarrow> (\<forall>c. map_option refcount (cell s' c) = map_option refcount (cell s c))"

lemma owns_remember:
  assumes "owns R s" and "cell s b = Some v"
  shows "owns R (put b (value_set_remembered True v) s)"
    and "pay (put b (value_set_remembered True v) s) = pay s"
    and "same_counts s (put b (value_set_remembered True v) s)"
proof -
  show "owns R (put b (value_set_remembered True v) s)"
    by (rule owns_put [OF assms]) (simp_all add: value_set_remembered_def)
  show "pay (put b (value_set_remembered True v) s) = pay s"
    using assms(2) by (auto simp: pay_put value_set_remembered_def fun_eq_iff) (simp add: pay_def)
  show "same_counts s (put b (value_set_remembered True v) s)"
    using assms(2) cell_SomeD [OF assms(2)]
    by (simp add: same_counts_def cell_put value_set_remembered_def)
qed

lemma store_simps [simp]:
  "cell (s\<lparr>cur_heap := h\<rparr>) a = cell s a" "cell (s\<lparr>allocs := n\<rparr>) a = cell s a"
  "owns R (s\<lparr>allocs := n\<rparr>) = owns R s" "pay (s\<lparr>allocs := n\<rparr>) = pay s"
  "oom (put a v s) = oom s" "oom (kill a s) = oom s"
  by (simp_all add: cell_def pay_def put_def kill_def fun_eq_iff)
    (rule owns_cong; simp add: cell_def)

lemma remember_set_add_owns:
  assumes "owns R s" and "cell s b = Some v"
  shows "\<exists>s'. remember_set_add b s = Some s' \<and> owns R s' \<and> pay s' = pay s \<and> same_counts s s' \<and> oom s' = oom s"
proof (cases "cur_heap s")
  case None
  then show ?thesis using assms by (simp add: remember_set_add_def same_counts_def)
next
  case (Some h)
  note r = owns_remember [OF assms]
  have sc: "put b (value_set_remembered True v) (s\<lparr>cur_heap := hp\<rparr>) = (put b (value_set_remembered True v) s)\<lparr>cur_heap := hp\<rparr>"
    "put b (value_set_remembered True v) (s\<lparr>allocs := n, cur_heap := hp\<rparr>) =
       (put b (value_set_remembered True v) s)\<lparr>allocs := n, cur_heap := hp\<rparr>" for hp n
    by (simp_all add: put_def)
  show ?thesis
    using Some assms r
    by (auto simp: remember_set_add_def Let_def agim_alloc_def sc same_counts_def)
qed

lemma write_barrier_owns:
  assumes "owns R s" and "cell s b = Some v" and "\<And>x. item = Some x \<Longrightarrow> \<exists>xv. cell s x = Some xv"
  shows "\<exists>s'. gc_write_barrier b item s = Some s' \<and> owns R s' \<and> pay s' = pay s \<and> same_counts s s' \<and> oom s' = oom s"
proof (cases "cur_heap s")
  case None
  then show ?thesis using assms(1) by (simp add: gc_write_barrier_def same_counts_def)
next
  case (Some h)
  show ?thesis
  proof (cases item)
    case None
    then show ?thesis using Some assms(1) by (simp add: gc_write_barrier_def same_counts_def)
  next
    case (Some x)
    then obtain xv where "cell s x = Some xv" using assms(3) by blast
    then show ?thesis
      using Some \<open>cur_heap s = Some h\<close> assms(1,2) remember_set_add_owns [OF assms(1,2)]
      by (auto simp: gc_write_barrier_def same_counts_def)
  qed
qed

subsection \<open>Copy-on-write containers\<close>

text \<open>
  The state in which the body of a writing operation starts: \<open>b\<close> is \<open>a\<close> itself exactly when the
  caller holds the only reference; otherwise it is a fresh copy and \<open>a\<close> is untouched.
\<close>

definition write_target :: "addr \<Rightarrow> payload \<Rightarrow> addr multiset \<Rightarrow> store \<Rightarrow> addr \<Rightarrow> Value \<Rightarrow> store \<Rightarrow> bool" where
  "write_target a p R s b w s1 \<longleftrightarrow> cell s1 b = Some w \<and> v_as w = p \<and> owns (add_mset b R) s1
     \<and> refcount w = 1 \<and> oom s1 = oom s
     \<and> same_elsewhere b s s1 \<and> (b = a \<longleftrightarrow> unshared s a) \<and> (b \<noteq> a \<longrightarrow> pay s b = None)"

text \<open>What a writing operation on \<open>a\<close> leaves: the container \<open>b\<close>, all else as it was.\<close>

definition cow_written :: "addr \<Rightarrow> store \<Rightarrow> addr multiset \<Rightarrow> addr \<Rightarrow> store \<Rightarrow> bool" where
  "cow_written a s R b s' \<longleftrightarrow>
     owns (add_mset b R) s' \<and> same_elsewhere b s s' \<and> (b = a \<longleftrightarrow> unshared s a) \<and> (b \<noteq> a \<longrightarrow> pay s b = None)"

definition copied_to :: "payload \<Rightarrow> addr \<Rightarrow> addr multiset \<Rightarrow> store \<Rightarrow> addr \<Rightarrow> store \<Rightarrow> bool" where
  "copied_to p a R s b s' \<longleftrightarrow> b \<noteq> a \<and> pay s b = None \<and> owns (add_mset b R) s' \<and> pay s' = (pay s)(b \<mapsto> p)
     \<and> oom s' = oom s \<and> (\<exists>w. cell s' b = Some w \<and> refcount w = 1)"

locale cow_container =
  fixes wrap :: "'c \<Rightarrow> payload"
    and unwrap :: "payload \<Rightarrow> 'c option"
    and items :: "'c \<Rightarrow> ptr list"
    and ensure_writable :: "addr \<Rightarrow> store \<Rightarrow> (ptr \<times> store) option"
  assumes unwrap: "unwrap p = Some c \<longleftrightarrow> p = wrap c"
    and children_wrap: "children (wrap c) = somes (items c)"
    and ensure_inplace: "cell s a = Some v \<Longrightarrow> v_as v = wrap c \<Longrightarrow> refcount v = 1 \<Longrightarrow>
      ensure_writable a s = Some (Some a, s)"
    and ensure_shared: "owns (add_mset a R) s \<Longrightarrow> cell s a = Some v \<Longrightarrow> v_as v = wrap c \<Longrightarrow>
      1 < refcount v \<Longrightarrow> room (length (items c)) s \<Longrightarrow>
      (\<exists>b s'. ensure_writable a s = Some (Some b, s') \<and> copied_to (wrap c) a R s b s')
      \<or> (\<exists>s'. ensure_writable a s = Some (None, s') \<and> owns (add_mset a R) s' \<and> (\<exists>k. oom s k))"
begin

lemma unwrap_wrap [simp]: "unwrap (wrap c) = Some c"
  by (simp add: unwrap)

lemma on_writable_owns:
  assumes o: "owns (add_mset a R) s" and p: "pay s a = Some (wrap c)" and rm: "room (length (items c)) s"
  obtains (nomem) s' where "on_writable unwrap ensure_writable (Some a) f other s = Some (other None, s')"
      "owns (add_mset a R) s'" "\<exists>k. oom s k"
  | (target) b w s1 where "on_writable unwrap ensure_writable (Some a) f other s = f b c s1"
      "write_target a (wrap c) R s b w s1"
proof -
  obtain v where v: "cell s a = Some v" "v_as v = wrap c" using p by (auto simp: pay_def)
  show thesis
  proof (cases "refcount v = 1")
    case True
    then have "on_writable unwrap ensure_writable (Some a) f other s = f a c s"
      using v ensure_inplace [OF v] by (simp add: on_writable_def)
    moreover have "write_target a (wrap c) R s a v s"
      using v o True by (simp add: write_target_def same_elsewhere_def unshared_def)
    ultimately show thesis by (rule target)
  next
    case False
    then have "1 < refcount v" using ownsD(5) [OF o v(1)] by unat_arith
    from ensure_shared [OF o v this rm] consider
        b s' where "ensure_writable a s = Some (Some b, s')" "copied_to (wrap c) a R s b s'"
      | s' where "ensure_writable a s = Some (None, s')" "owns (add_mset a R) s'" "\<exists>k. oom s k"
      by blast
    then show thesis
    proof cases
      case 1
      then have cp: "b \<noteq> a" "pay s b = None" "owns (add_mset b R) s'" "pay s' = (pay s)(b \<mapsto> wrap c)"
        "oom s' = oom s" "\<exists>w. cell s' b = Some w \<and> refcount w = 1"
        by (simp_all add: copied_to_def)
      obtain w where w: "cell s' b = Some w" "v_as w = wrap c" "refcount w = 1"
        using fun_cong [OF cp(4), of b] cp(6) by (auto simp: pay_def)
      have "on_writable unwrap ensure_writable (Some a) f other s = f b c s'"
        using v w 1(1) by (simp add: on_writable_def)
      moreover have "write_target a (wrap c) R s b w s'"
        using w cp v False by (auto simp: write_target_def same_elsewhere_def unshared_def)
      ultimately show thesis by (rule target)
    next
      case 2
      then show thesis using nomem v by (simp add: on_writable_def)
    qed
  qed
qed

lemma store_owns:
  assumes "owns Rb s" and "cell s b = Some w" and "v_as w = wrap c0"
    and "mset (somes (items c)) + R' = mset (somes (items c0)) + Rb"
  shows "store_as b (wrap c) s = Some (put b (w\<lparr>v_as := wrap c\<rparr>) s)"
    and "owns R' (put b (w\<lparr>v_as := wrap c\<rparr>) s)"
    and "pay (put b (w\<lparr>v_as := wrap c\<rparr>) s) = (pay s)(b \<mapsto> wrap c)"
proof -
  show "store_as b (wrap c) s = Some (put b (w\<lparr>v_as := wrap c\<rparr>) s)"
    using assms(2) by (simp add: store_as_def)
  show "owns R' (put b (w\<lparr>v_as := wrap c\<rparr>) s)"
    by (rule owns_put [OF assms(1,2)]) (use assms(3,4) in \<open>simp_all add: children_wrap\<close>)
  show "pay (put b (w\<lparr>v_as := wrap c\<rparr>) s) = (pay s)(b \<mapsto> wrap c)"
    using assms(2) by (auto simp: pay_put fun_eq_iff)
qed

text \<open>
  Taking an item out of a writable container and freeing it, in either order: the item goes
  away at most once, and the container is not touched by freeing what hangs below the item.
\<close>

lemma take_out:
  assumes o: "owns (add_mset b R) s" and w: "cell s b = Some w" "v_as w = wrap c" "refcount w = 1"
    and p: "p \<in> set (items c)"
    and moved: "mset (somes (items c')) + mset (somes [p]) + R' = mset (somes (items c)) + R"
  shows "\<exists>s1 s2. free_item p s = Some s1 \<and> store_as b (wrap c') s1 = Some s2
      \<and> owns (add_mset b R') s2 \<and> pay s2 b = Some (wrap c')"
    and "\<exists>s1 s2. store_as b (wrap c') s = Some s1 \<and> free_item p s1 = Some s2
      \<and> owns (add_mset b R') s2 \<and> pay s2 b = Some (wrap c')"
proof -
  let ?w = "w\<lparr>v_as := wrap c'\<rparr>"
  have "(\<exists>s1 s2. free_item p s = Some s1 \<and> store_as b (wrap c') s1 = Some s2
      \<and> owns (add_mset b R') s2 \<and> pay s2 b = Some (wrap c'))
    \<and> (\<exists>s1 s2. store_as b (wrap c') s = Some s1 \<and> free_item p s1 = Some s2
      \<and> owns (add_mset b R') s2 \<and> pay s2 b = Some (wrap c'))"
  proof (cases p)
    case None
    then have "mset (somes (items c')) + add_mset b R' = mset (somes (items c)) + add_mset b R"
      using moved by simp
    note st = store_owns [OF o w(1,2) this]
    then show ?thesis using None by (simp add: free_item_def)
  next
    case (Some x)
    then have "x \<in> set (children (v_as w))" using p w(2) by (simp add: children_wrap)
    then have "x \<in># refs s" by (rule child_in_refs [OF o w(1)])
    then have xb: "x \<noteq> b" using unreferenced_if_unique(2) [OF o w(1,3)] by auto
    have m: "mset (children (v_as ?w)) + add_mset x (add_mset b R') = mset (children (v_as w)) + add_mset b R"
      using moved Some w(2) by (simp add: children_wrap)
    obtain s1 where s1: "value_free (Some x) s = Some s1" "cell s1 b = Some w" "owns (add_mset b R') (put b ?w s1)"
      "value_free (Some x) (put b ?w s) = Some (put b ?w s1)"
      using value_free_in_container [OF o w(1,3) _ m xb] by auto
    then show ?thesis using Some w(1) by (simp add: free_item_def store_as_def pay_put)
  qed
  then show "\<exists>s1 s2. free_item p s = Some s1 \<and> store_as b (wrap c') s1 = Some s2
      \<and> owns (add_mset b R') s2 \<and> pay s2 b = Some (wrap c')"
    "\<exists>s1 s2. store_as b (wrap c') s = Some s1 \<and> free_item p s1 = Some s2
      \<and> owns (add_mset b R') s2 \<and> pay s2 b = Some (wrap c')"
    by blast+
qed

text \<open>The state after the write barrier of the body of a writing operation.\<close>

lemma after_barrier:
  assumes t: "write_target a (wrap c) R s b w s1" and x: "\<And>y. x = Some y \<Longrightarrow> y \<in># R"
  obtains s2 w2 where "gc_write_barrier b x s1 = Some s2" "owns (add_mset b R) s2" "pay s2 = pay s1"
    "oom s2 = oom s" "cell s2 b = Some w2" "v_as w2 = wrap c" "refcount w2 = 1"
proof -
  have t': "cell s1 b = Some w" "v_as w = wrap c" "owns (add_mset b R) s1" "refcount w = 1" "oom s1 = oom s"
    using t by (simp_all add: write_target_def)
  have "\<exists>yv. cell s1 y = Some yv" if "x = Some y" for y
    by (rule owns_live [OF t'(3)]) (use x [OF that] in simp)
  then obtain s2 where s2: "gc_write_barrier b x s1 = Some s2" "owns (add_mset b R) s2" "pay s2 = pay s1"
    "same_counts s1 s2" "oom s2 = oom s1"
    using write_barrier_owns [OF t'(3,1), of x] by auto
  have "pay s2 b = Some (wrap c)" using s2(3) t' by (simp add: pay_def)
  moreover have "map_option refcount (cell s2 b) = Some 1"
    using s2(4) t' by (simp add: same_counts_def)
  ultimately obtain w2 where "cell s2 b = Some w2" "v_as w2 = wrap c" "refcount w2 = 1"
    by (auto simp: pay_def)
  then show thesis using that s2 t'(5) by simp
qed

lemma write_done:
  assumes t: "write_target a (wrap c) R1 s b w s1" and o: "owns (add_mset b R1) s3" and p: "pay s3 = pay s1"
    and moved: "mset (somes (items c3)) + R2 = mset (somes (items c)) + R1"
  shows "\<exists>s'. store_as b (wrap c3) s3 = Some s' \<and> cow_written a s R2 b s' \<and> pay s' b = Some (wrap c3)"
proof -
  have "pay s3 b = Some (wrap c)" using t p by (simp add: write_target_def pay_def)
  then obtain w3 where w3: "cell s3 b = Some w3" "v_as w3 = wrap c" by (auto simp: pay_Some)
  have "mset (somes (items c3)) + add_mset b R2 = mset (somes (items c)) + add_mset b R1"
    using moved by simp
  note st = store_owns [OF o w3 this]
  show ?thesis
    using st t p by (auto simp: cow_written_def write_target_def same_elsewhere_def)
qed

end

lemma room_store_of:
  "list_all (\<lambda>v. unat (refcount v) + n < 2 ^ 32 - 2) vs \<Longrightarrow> room n (store_of vs)"
  by (auto simp: room_def cell_store_of list_all_length split: if_splits)

lemma pay_store_of: "pay (store_of vs) a = (if a < length vs then Some (v_as (vs ! a)) else None)"
  by (simp add: pay_def cell_store_of)

lemma oom_store_of [simp]: "oom (store_of vs) k = False"
  by (simp add: store_of_def)

end
