(* ===== verification/ArrayType.thy ===== *)
theory ArrayType
  imports Cow
begin

text \<open>
  The array operations of \<^verbatim>\<open>types/array.c\<close> on the value store, with copy-on-write and the growth
  of the item buffer.
\<close>

subsection \<open>Creation and access\<close>

definition value_array_with_capacity :: "nat \<Rightarrow> store \<Rightarrow> ptr \<times> store" where
  "value_array_with_capacity capacity s =
     construct 3 0 (VArray \<lparr>a_capacity = (if 0 < capacity then capacity else 8), a_items = []\<rparr>) s"

definition value_array :: "store \<Rightarrow> ptr \<times> store" where
  "value_array s = value_array_with_capacity 8 s"

definition array_length :: "ptr \<Rightarrow> store \<Rightarrow> nat option" where
  "array_length = peek 0 (\<lambda>p. case p of VArray arr \<Rightarrow> length (a_items arr) | _ \<Rightarrow> 0)"

definition array_capacity :: "ptr \<Rightarrow> store \<Rightarrow> nat option" where
  "array_capacity = peek 0 (\<lambda>p. case p of VArray arr \<Rightarrow> a_capacity arr | _ \<Rightarrow> 0)"

definition array_get :: "ptr \<Rightarrow> nat \<Rightarrow> store \<Rightarrow> ptr option" where
  "array_get v index =
     peek None (\<lambda>p. case p of
       VArray arr \<Rightarrow> if length (a_items arr) \<le> index then None else a_items arr ! index
     | _ \<Rightarrow> None) v"

text \<open>The growth loop and the reallocation of the item buffer (8-byte pointers).\<close>

definition array_ensure_capacity :: "Array \<Rightarrow> nat \<Rightarrow> store \<Rightarrow> bool \<times> Array \<times> store" where
  "array_ensure_capacity arr needed s =
     (if needed \<le> a_capacity arr then (True, arr, s)
      else case double_until (a_capacity arr) needed of
        None \<Rightarrow> (False, arr, s)
      | Some new_cap \<Rightarrow>
          if size_max div 8 < new_cap then (False, arr, s)
          else let (ok, s) = agim_alloc s
               in if ok then (True, arr\<lparr>a_capacity := new_cap\<rparr>, s) else (False, arr, s))"

definition array_ensure_writable :: "addr \<Rightarrow> store \<Rightarrow> (ptr \<times> store) option" where
  "array_ensure_writable a s = do {
     v \<leftarrow> cell s a;
     (case v_as v of
        VArray old \<Rightarrow>
          if \<not> 1 < refcount v then Some (Some a, s)
          else let (ok, s) = allocs_ok 3 s
               in if \<not> ok then Some (None, s)
                  else do {
                    (items, s) \<leftarrow> retain_each (a_items old) s;
                    let (new_v, s) = new_cell (fresh_value 0
                      (VArray \<lparr>a_capacity = a_capacity old, a_items = items\<rparr>)) s;
                    s \<leftarrow> value_release (Some a) s;
                    Some (new_v, s)}
      | _ \<Rightarrow> Some (Some a, s))}"

definition as_array :: "payload \<Rightarrow> Array option" where
  "as_array p = (case p of VArray arr \<Rightarrow> Some arr | _ \<Rightarrow> None)"

abbreviation on_array ::
  "ptr \<Rightarrow> (addr \<Rightarrow> Array \<Rightarrow> store \<Rightarrow> ('r \<times> store) option) \<Rightarrow> (ptr \<Rightarrow> 'r) \<Rightarrow> store \<Rightarrow> ('r \<times> store) option"
where
  "on_array \<equiv> on_writable as_array array_ensure_writable"

abbreviation store_array :: "addr \<Rightarrow> Array \<Rightarrow> store \<Rightarrow> store option" where
  "store_array b arr \<equiv> store_as b (VArray arr)"

definition set_body :: "nat \<Rightarrow> ptr \<Rightarrow> addr \<Rightarrow> Array \<Rightarrow> store \<Rightarrow> (ptr \<times> store) option" where
  "set_body index item b arr s =
     (if length (a_items arr) \<le> index then Some (Some b, s)
       else do {
         s \<leftarrow> gc_write_barrier b item s;
         s \<leftarrow> free_item (a_items arr ! index) s;
         s \<leftarrow> store_array b (arr\<lparr>a_items := (a_items arr)[index := item]\<rparr>) s;
         Some (Some b, s)})"

definition array_set :: "ptr \<Rightarrow> nat \<Rightarrow> ptr \<Rightarrow> store \<Rightarrow> (ptr \<times> store) option" where
  "array_set v index item = on_array v (set_body index item) (\<lambda>p. p)"

definition push_body :: "ptr \<Rightarrow> addr \<Rightarrow> Array \<Rightarrow> store \<Rightarrow> (ptr \<times> store) option" where
  "push_body item b arr s = (do {
       s \<leftarrow> gc_write_barrier b item s;
       let (ok, arr, s) = array_ensure_capacity arr (length (a_items arr) + 1) s;
       if \<not> ok then Some (Some b, s)
       else do {
         s \<leftarrow> store_array b (arr\<lparr>a_items := a_items arr @ [item]\<rparr>) s;
         Some (Some b, s)}})"

definition array_push :: "ptr \<Rightarrow> ptr \<Rightarrow> store \<Rightarrow> (ptr \<times> store) option" where
  "array_push v item = on_array v (push_body item) (\<lambda>p. p)"

text \<open>\<open>array_pop\<close> and \<open>array_remove\<close> return the item and, through \<^verbatim>\<open>arr_out\<close>, the array.\<close>

definition pop_body :: "addr \<Rightarrow> Array \<Rightarrow> store \<Rightarrow> ((ptr \<times> ptr) \<times> store) option" where
  "pop_body b arr s =
     (if a_items arr = [] then Some ((None, Some b), s)
       else do {
         s \<leftarrow> store_array b (arr\<lparr>a_items := butlast (a_items arr)\<rparr>) s;
         Some ((last (a_items arr), Some b), s)})"

definition array_pop :: "ptr \<Rightarrow> store \<Rightarrow> ((ptr \<times> ptr) \<times> store) option" where
  "array_pop v = on_array v pop_body (\<lambda>p. (None, p))"

definition insert_body :: "nat \<Rightarrow> ptr \<Rightarrow> addr \<Rightarrow> Array \<Rightarrow> store \<Rightarrow> (ptr \<times> store) option" where
  "insert_body index item b arr s = (do {
       s \<leftarrow> gc_write_barrier b item s;
       let index = (if length (a_items arr) < index then length (a_items arr) else index);
       let (ok, arr, s) = array_ensure_capacity arr (length (a_items arr) + 1) s;
       if \<not> ok then Some (Some b, s)
       else do {
         s \<leftarrow> store_array b (arr\<lparr>a_items :=
                take index (a_items arr) @ item # drop index (a_items arr)\<rparr>) s;
         Some (Some b, s)}})"

definition array_insert :: "ptr \<Rightarrow> nat \<Rightarrow> ptr \<Rightarrow> store \<Rightarrow> (ptr \<times> store) option" where
  "array_insert v index item = on_array v (insert_body index item) (\<lambda>p. p)"

definition remove_body :: "nat \<Rightarrow> addr \<Rightarrow> Array \<Rightarrow> store \<Rightarrow> ((ptr \<times> ptr) \<times> store) option" where
  "remove_body index b arr s =
     (if length (a_items arr) \<le> index then Some ((None, Some b), s)
       else do {
         s \<leftarrow> store_array b (arr\<lparr>a_items :=
                take index (a_items arr) @ drop (Suc index) (a_items arr)\<rparr>) s;
         Some ((a_items arr ! index, Some b), s)})"

definition array_remove :: "ptr \<Rightarrow> nat \<Rightarrow> store \<Rightarrow> ((ptr \<times> ptr) \<times> store) option" where
  "array_remove v index = on_array v (remove_body index) (\<lambda>p. (None, p))"

fun free_items :: "ptr list \<Rightarrow> store \<Rightarrow> store option" where
  "free_items [] s = Some s"
| "free_items (p # ps) s = do {s \<leftarrow> free_item p s; free_items ps s}"

definition clear_body :: "addr \<Rightarrow> Array \<Rightarrow> store \<Rightarrow> (ptr \<times> store) option" where
  "clear_body b arr s = (do {
       s \<leftarrow> free_items (a_items arr) s;
       s \<leftarrow> store_array b (arr\<lparr>a_items := []\<rparr>) s;
       Some (Some b, s)})"

definition array_clear :: "ptr \<Rightarrow> store \<Rightarrow> (ptr \<times> store) option" where
  "array_clear v = on_array v clear_body (\<lambda>p. p)"

fun push_retained :: "ptr \<Rightarrow> ptr list \<Rightarrow> store \<Rightarrow> store option" where
  "push_retained result [] s = Some s"
| "push_retained result (p # ps) s = do {
     (q, s) \<leftarrow> value_retain p s;
     (_, s) \<leftarrow> array_push result q s;
     push_retained result ps s}"

definition array_slice :: "ptr \<Rightarrow> nat \<Rightarrow> nat \<Rightarrow> store \<Rightarrow> (ptr \<times> store) option" where
  "array_slice p start stop s =
     (case p of None \<Rightarrow> Some (value_nil s)
      | Some a \<Rightarrow> do {
          v \<leftarrow> cell s a;
          (case v_as v of
             VArray arr \<Rightarrow>
               let len = length (a_items arr);
                   start = (if len < start then len else start);
                   stop = (if len < stop then len else stop);
                   start = (if stop < start then stop else start);
                   (result, s) = value_array_with_capacity (stop - start) s
               in do {
                 s \<leftarrow> push_retained result (take (stop - start) (drop start (a_items arr))) s;
                 Some (result, s)}
           | _ \<Rightarrow> Some (value_nil s))})"

definition array_concat :: "ptr \<Rightarrow> ptr \<Rightarrow> store \<Rightarrow> (ptr \<times> store) option" where
  "array_concat p q s =
     (case (p, q) of
        (Some a, Some b) \<Rightarrow> do {
          v \<leftarrow> cell s a;
          (case v_as v of
             VArray x \<Rightarrow> do {
               w \<leftarrow> cell s b;
               (case v_as w of
                  VArray y \<Rightarrow>
                    let (result, s) = value_array_with_capacity (length (a_items x) + length (a_items y)) s
                    in do {
                      s \<leftarrow> push_retained result (a_items x) s;
                      s \<leftarrow> push_retained result (a_items y) s;
                      Some (result, s)}
                | _ \<Rightarrow> Some (value_array s))}
           | _ \<Rightarrow> Some (value_array s))}
      | _ \<Rightarrow> Some (value_array s))"

function reverse_loop :: "nat \<Rightarrow> nat \<Rightarrow> 'a list \<Rightarrow> 'a list" where
  "reverse_loop left right items =
     (if left < right
      then reverse_loop (left + 1) (right - 1) (items[left := items ! right, right := items ! left])
      else items)"
  by pat_completeness auto
termination
  by (relation "measure (\<lambda>(left, right, items). right - left)") auto

declare reverse_loop.simps [simp del]

definition reverse_body :: "addr \<Rightarrow> Array \<Rightarrow> store \<Rightarrow> (ptr \<times> store) option" where
  "reverse_body b arr s = (do {
       s \<leftarrow> store_array b (arr\<lparr>a_items := reverse_loop 0 (length (a_items arr) - 1) (a_items arr)\<rparr>) s;
       Some (Some b, s)})"

definition array_reverse :: "ptr \<Rightarrow> store \<Rightarrow> (ptr \<times> store) option" where
  "array_reverse v = on_array v reverse_body (\<lambda>p. p)"

subsection \<open>Reversal\<close>

lemma reverse_loop_nth:
  assumes "left + right + 1 = length xs" and "\<forall>i < left. xs ! i = ys ! (length ys - 1 - i) \<and> xs ! (length ys - 1 - i) = ys ! i"
    and "length xs = length ys" and "\<forall>i. left \<le> i \<longrightarrow> i \<le> right \<longrightarrow> xs ! i = ys ! i"
  shows "reverse_loop left right xs = rev ys"
  using assms
proof (induction left right xs rule: reverse_loop.induct)
  case (1 l r xs)
  show ?case
  proof (cases "l < r")
    case True
    let ?zs = "xs[l := xs ! r, r := xs ! l]"
    have n: "length ys = l + r + 1" using 1(2,4) by simp
    have "reverse_loop (l + 1) (r - 1) ?zs = rev ys"
    proof (rule "1.IH" [OF True])
      show "l + 1 + (r - 1) + 1 = length ?zs" using 1(2) True by simp
      show "length ?zs = length ys" using 1(4) by simp
      show "\<forall>i. l + 1 \<le> i \<longrightarrow> i \<le> r - 1 \<longrightarrow> ?zs ! i = ys ! i"
        using 1(5) True by (auto simp: nth_list_update)
      show "\<forall>i<l + 1. ?zs ! i = ys ! (length ys - 1 - i) \<and> ?zs ! (length ys - 1 - i) = ys ! i"
      proof (intro allI impI)
        fix i assume "i < l + 1"
        then consider "i < l" | "i = l" by linarith
        then show "?zs ! i = ys ! (length ys - 1 - i) \<and> ?zs ! (length ys - 1 - i) = ys ! i"
        proof cases
          case 1
          then show ?thesis using "1.prems"(2) True n by (simp add: nth_list_update)
        next
          case 2
          then show ?thesis using "1.prems"(1,3,4) True n by (simp add: nth_list_update)
        qed
      qed
    qed
    then show ?thesis using True by (subst reverse_loop.simps) simp
  next
    case False
    have "xs = rev ys"
    proof (rule nth_equalityI)
      show "length xs = length (rev ys)" using 1(4) by simp
      fix i assume i: "i < length xs"
      then consider "i < l" | "i = l" "i = r" | "length ys - 1 - i < l"
        using 1(2,4) False by linarith
      then show "xs ! i = rev ys ! i"
      proof cases
        case 1
        then show ?thesis using "1.prems"(2,3) i by (simp add: rev_nth)
      next
        case 2
        then have "length ys - Suc i = i" using "1.prems"(1,3) by simp
        then show ?thesis using "1.prems"(3,4) i 2 by (simp add: rev_nth)
      next
        case 3
        then have "xs ! (length ys - 1 - (length ys - 1 - i)) = ys ! (length ys - 1 - i)"
          using "1.prems"(2) by blast
        then show ?thesis using "1.prems"(3) i by (simp add: rev_nth)
      qed
    qed
    then show ?thesis using False by (subst reverse_loop.simps) simp
  qed
qed

lemma reverse_loop_rev: "reverse_loop 0 (length xs - 1) xs = rev xs"
proof (cases xs)
  case Nil
  then show ?thesis by (simp add: reverse_loop.simps)
next
  case (Cons y ys)
  then show ?thesis by (intro reverse_loop_nth) auto
qed

subsection \<open>Copy-on-write\<close>

text \<open>
  Arrays are copy-on-write containers: without memory for the copy the array is kept as it is.
\<close>

lemma array_ensure_shared:
  assumes o: "owns (add_mset a R) s" and v: "cell s a = Some v" and arr: "v_as v = VArray arr"
    and gt: "1 < refcount v" and rm: "room (length (a_items arr)) s"
  shows "(\<exists>b s'. array_ensure_writable a s = Some (Some b, s') \<and> copied_to (VArray arr) a R s b s')
    \<or> (\<exists>s'. array_ensure_writable a s = Some (None, s') \<and> owns (add_mset a R) s' \<and> (\<exists>k. oom s k))"
proof -
  obtain ok s1 where s1: "allocs_ok 3 s = (ok, s1)" by force
  then have o1: "owns (add_mset a R) s1" and c1: "\<And>x. cell s1 x = cell s x" "brk s1 = brk s"
    using o owns_allocs_ok [of _ 3 s] allocs_ok_frame [of 3 s] by simp_all
  have p1: "pay s1 = pay s" by (simp add: pay_def c1 fun_eq_iff)
  show ?thesis
  proof (cases ok)
    case False
    then show ?thesis using v arr gt s1 o1 allocs_ok_fails [of 3 s s1] by (simp add: array_ensure_writable_def)
  next
    case True
    have r1: "room (length (a_items arr)) s1" using rm by (simp add: room_def c1)
    have sub: "\<forall>x \<in> set (somes (a_items arr)). pay s1 x \<noteq> None"
      using children_live [OF o, of a "VArray arr"] v arr p1 by (simp add: pay_def)
    from retain_each_owns [OF o1 r1] sub obtain s2 where
      s2: "retain_each (a_items arr) s1 = Some (a_items arr, s2)"
        "owns (mset (somes (a_items arr)) + add_mset a R) s2" "pay s2 = pay s1" "brk s2 = brk s1"
        "counts_grow s1 s2" "oom s2 = oom s1"
      by blast
    obtain q s3 where s3: "new_cell (fresh_value 0 (VArray arr)) s2 = (q, s3)" by force
    note n3 = cell_new [OF s3]
    have o3: "owns (add_mset (brk s2) (add_mset a R)) s3"
      by (rule owns_new [OF _ s3]) (use s2(2) in simp)
    have ab: "a \<noteq> brk s2" using cell_SomeD [OF v] c1 s2(4) by simp
    obtain v3 where v2: "cell s2 a = Some v3" and v3': "unat (refcount v) \<le> unat (refcount v3)"
      using s2(5) v unfolding counts_grow_def c1 by blast
    with n3 ab have v3: "cell s3 a = Some v3" "unat (refcount v) \<le> unat (refcount v3)" by simp_all
    then have n1: "refcount v3 \<noteq> 1" using gt by (auto simp: word_less_nat_alt)
    let ?s = "put a (v3\<lparr>refcount := refcount v3 - 1\<rparr>) s3"
    have o3': "owns (add_mset a (add_mset (brk s2) R)) s3" using o3 by (simp add: add_mset_commute)
    note rl = owns_release [OF o3' v3(1) n1]
    have eta: "\<lparr>a_capacity = a_capacity arr, a_items = a_items arr\<rparr> = arr" by simp
    have e: "array_ensure_writable a s = Some (Some (brk s2), ?s)"
      using v arr gt s1 True s2(1) s3 n3 rl(1) by (simp add: array_ensure_writable_def eta)
    have n: "pay s (brk s2) = None" using s2(4) c1 by (simp add: pay_def cell_def)
    have p3: "pay s3 = (pay s)(brk s2 \<mapsto> VArray arr)"
      using n3 s2(3) p1 by (auto simp: pay_def fun_eq_iff fresh_value_def)
    have "pay ?s = pay s3" using v3(1) by (auto simp: pay_put fun_eq_iff) (simp add: pay_def)
    moreover have "\<exists>w. cell ?s (brk s2) = Some w \<and> refcount w = 1"
      using n3 ab cell_SomeD [OF v3(1)] by (simp add: cell_put fresh_value_def)
    moreover have "oom ?s = oom s"
      using s2(6) s3 s1 oom_frame [of 3 s] by (auto simp: put_def new_cell_def)
    ultimately have "copied_to (VArray arr) a R s (brk s2) ?s"
      unfolding copied_to_def using ab n rl(2) p3 by auto
    then show ?thesis using e by blast
  qed
qed

interpretation arr: cow_container VArray as_array a_items array_ensure_writable
proof
  show "as_array p = Some c \<longleftrightarrow> p = VArray c" for p c by (auto simp: as_array_def split: payload.splits)
  show "children (VArray c) = somes (a_items c)" for c by simp
  show "array_ensure_writable a s = Some (Some a, s)"
    if "cell s a = Some v" "v_as v = VArray c" "refcount v = 1" for s a v c
    using that by (simp add: array_ensure_writable_def)
qed (rule array_ensure_shared)

lemma ensure_capacity_owns:
  assumes "array_ensure_capacity arr n s = (ok, arr', s')"
  shows "a_items arr' = a_items arr" "owns R s' = owns R s" "pay s' = pay s" "cell s' = cell s" "oom s' = oom s"
  using assms
  by (auto simp: array_ensure_capacity_def agim_alloc_def fun_eq_iff split: if_splits option.splits)

lemma double_until_less:
  "double_until cap n = Some c \<Longrightarrow> cap < n \<Longrightarrow> c < 2 * n"
proof (induction cap n rule: double_until.induct)
  case (1 cap n)
  then have nz: "\<not> n \<le> cap" "\<not> (cap = 0 \<or> size_max div 2 < cap)"
    and d: "double_until (2 * cap) n = Some c"
    by (auto simp: double_until.simps [of cap n] split: if_splits)
  show ?case
  proof (cases "2 * cap < n")
    case True
    then show ?thesis using "1.IH" [OF nz d] by simp
  next
    case False
    then have "c = 2 * cap" using d by simp
    then show ?thesis using nz by simp
  qed
qed

lemma ensure_capacity_ok:
  assumes "0 < a_capacity arr" and "n \<le> 2 ^ 59" and "\<not> oom s (allocs s)"
  shows "fst (array_ensure_capacity arr n s)"
proof (cases "n \<le> a_capacity arr")
  case False
  obtain c where c: "double_until (a_capacity arr) n = Some c"
    using double_until_Some [OF assms(1), of n] assms(2) by auto
  have "c < 2 * n" using double_until_less [OF c] False by simp
  then have "\<not> size_max div 8 < c" using assms(2) by (simp add: size_max_def)
  then show ?thesis using c assms(3) False by (simp add: array_ensure_capacity_def agim_alloc_def)
qed (simp add: array_ensure_capacity_def)

definition array_items :: "store \<Rightarrow> addr \<Rightarrow> ptr list option" where
  "array_items s a = (case pay s a of Some (VArray arr) \<Rightarrow> Some (a_items arr) | _ \<Rightarrow> None)"

text \<open>The result of a copy-on-write operation on \<open>a\<close>: the array \<open>b\<close> with items \<open>xs\<close>.\<close>

definition cow_result :: "addr \<Rightarrow> store \<Rightarrow> addr multiset \<Rightarrow> addr \<Rightarrow> store \<Rightarrow> ptr list \<Rightarrow> bool" where
  "cow_result a s R b s' xs \<longleftrightarrow> array_items s' b = Some xs \<and> cow_written a s R b s'"

lemma array_write_done:
  assumes "write_target a (VArray arr) R1 s b w s1" and "owns (add_mset b R1) s3" and "pay s3 = pay s1"
    and "mset (somes (a_items arr3)) + R2 = mset (somes (a_items arr)) + R1"
  shows "\<exists>s'. store_array b arr3 s3 = Some s' \<and> cow_result a s R2 b s' (a_items arr3)"
  using arr.write_done [OF assms] by (auto simp: cow_result_def array_items_def)

text \<open>
  C7. Copy-on-write append: with memory available, \<open>array_push\<close> takes over the caller's
  references to the array and to the item and returns one reference to an array with the item
  appended. The array is extended in place exactly when the caller held the only reference to
  it; otherwise the result is a fresh array. No other value changes, so no holder of the old
  array sees the append, and all reference counts stay exact.
\<close>

theorem array_push_cow:
  assumes o: "owns (add_mset a (add_mset x R)) s" and p: "pay s a = Some (VArray arr)"
    and cap: "0 < a_capacity arr" and len: "length (a_items arr) < 2 ^ 59"
    and rm: "room (length (a_items arr)) s" and mem: "\<forall>k. \<not> oom s k"
  shows "\<exists>b s'. array_push (Some a) (Some x) s = Some (Some b, s')
    \<and> cow_result a s R b s' (a_items arr @ [Some x])"
  using o p rm
proof (cases rule: arr.on_writable_owns [where f = "push_body (Some x)" and other = "\<lambda>p. p"])
  case (nomem s')
  then show ?thesis using mem by blast
next
  case (target b w s1)
  have t: "cell s1 b = Some w" "owns (add_mset b (add_mset x R)) s1" "oom s1 = oom s"
    using target(2) by (simp_all add: write_target_def)
  have "\<exists>xv. cell s1 x = Some xv" by (rule owns_live [OF t(2)]) simp
  then obtain s2 where s2: "gc_write_barrier b (Some x) s1 = Some s2"
    "owns (add_mset b (add_mset x R)) s2" "pay s2 = pay s1" "oom s2 = oom s1"
    using write_barrier_owns [OF t(2,1), of "Some x"] by auto
  obtain ok arr2 s3 where c: "array_ensure_capacity arr (length (a_items arr) + 1) s2 = (ok, arr2, s3)"
    by (metis prod_cases3)
  note cc = ensure_capacity_owns [OF c]
  have ok using ensure_capacity_ok [OF cap, of "length (a_items arr) + 1" s2] len c mem s2(4) t(3) by simp
  moreover have "\<exists>s'. store_array b (arr2\<lparr>a_items := a_items arr2 @ [Some x]\<rparr>) s3 = Some s'
    \<and> cow_result a s R b s' (a_items (arr2\<lparr>a_items := a_items arr2 @ [Some x]\<rparr>))"
    by (rule array_write_done [OF target(2)]) (use cc s2 in simp_all)
  ultimately show ?thesis using target(1) s2(1) c cc(1) by (auto simp: array_push_def push_body_def)
qed

text \<open>A concrete run: appending to an array that two holders share.\<close>

definition shared_array :: store where
  "shared_array = store_of
     [fresh_value 0 (VInt 7),
      (fresh_value 0 (VArray \<lparr>a_capacity = 8, a_items = []\<rparr>))\<lparr>refcount := 2\<rparr>]"

lemma shared_array_facts:
  "owns {#1, 0, 1#} shared_array" "pay shared_array 1 = Some (VArray \<lparr>a_capacity = 8, a_items = []\<rparr>)"
  "room 0 shared_array" "\<forall>k. \<not> oom shared_array k" "\<not> unshared shared_array 1"
proof -
  show "owns {#1, 0, 1#} shared_array"
    unfolding shared_array_def by (rule owns_store_of) (simp_all add: store_eval)
  show "pay shared_array 1 = Some (VArray \<lparr>a_capacity = 8, a_items = []\<rparr>)" "\<forall>k. \<not> oom shared_array k"
    "\<not> unshared shared_array 1"
    by (simp_all add: shared_array_def pay_store_of fresh_value_def unshared_def cell_store_of)
  show "room 0 shared_array"
    unfolding shared_array_def by (rule room_store_of) (simp add: fresh_value_def)
qed

theorem array_push_cow_witness:
  "\<exists>b s'. array_push (Some 1) (Some 0) shared_array = Some (Some b, s')
    \<and> array_items s' b = Some [Some 0] \<and> b \<noteq> 1 \<and> array_items s' 1 = Some []"
proof -
  have o: "owns (add_mset 1 (add_mset 0 {#1#})) shared_array" using shared_array_facts(1) by simp
  obtain b s' where "array_push (Some 1) (Some 0) shared_array = Some (Some b, s')"
    and c: "cow_result 1 shared_array {#1#} b s' [Some 0]"
    using array_push_cow [OF o shared_array_facts(2)] shared_array_facts(3,4) by auto
  moreover have "b \<noteq> 1" using c shared_array_facts(5) by (simp add: cow_result_def cow_written_def)
  moreover have "pay s' 1 = pay shared_array 1"
    using c \<open>b \<noteq> 1\<close> by (simp add: cow_result_def cow_written_def same_elsewhere_def)
  ultimately show ?thesis
    using shared_array_facts(2) by (auto simp: cow_result_def array_items_def)
qed

lemma somes_butlast_last:
  "xs \<noteq> [] \<Longrightarrow> mset (somes (butlast xs)) + mset (somes [last xs]) = mset (somes xs)"
  by (cases xs rule: rev_cases) simp_all

lemma somes_remove_nth:
  "i < length xs \<Longrightarrow> mset (somes (take i xs @ drop (Suc i) xs)) + mset (somes [xs ! i]) = mset (somes xs)"
proof -
  assume "i < length xs"
  then have "somes xs = somes (take i xs) @ somes [xs ! i] @ somes (drop (Suc i) xs)"
    by (metis append.assoc append_Cons append_Nil id_take_nth_drop somes_append)
  then show ?thesis by simp
qed

lemma mset_somes_rev: "mset (somes (rev xs)) = mset (somes xs)"
  by (induction xs rule: somes.induct) simp_all

text \<open>
  C13. Removal under copy-on-write: with memory available, removing the item at a valid index
  returns that item, with the array's reference to it, and an array without it. Other holders
  of the array see no change.
\<close>

theorem array_remove_cow:
  assumes o: "owns (add_mset a R) s" and p: "pay s a = Some (VArray arr)"
    and rm: "room (length (a_items arr)) s" and mem: "\<forall>k. \<not> oom s k"
    and i: "i < length (a_items arr)"
  shows "\<exists>b s'. array_remove (Some a) i s = Some ((a_items arr ! i, Some b), s')
      \<and> cow_result a s (mset (somes [a_items arr ! i]) + R) b s'
          (take i (a_items arr) @ drop (Suc i) (a_items arr))"
  using o p rm
proof (cases rule: arr.on_writable_owns [where f = "remove_body i" and other = "\<lambda>p. (None, p)"])
  case (nomem s')
  then show ?thesis using mem by blast
next
  case (target b w s1)
  let ?arr = "arr\<lparr>a_items := take i (a_items arr) @ drop (Suc i) (a_items arr)\<rparr>"
  have "\<exists>s'. store_array b ?arr s1 = Some s'
    \<and> cow_result a s (mset (somes [a_items arr ! i]) + R) b s' (a_items ?arr)"
    by (rule array_write_done [OF target(2)])
      (use target(2) somes_remove_nth [OF i] in \<open>simp_all add: write_target_def ac_simps\<close>)
  then show ?thesis using target(1) i by (auto simp: array_remove_def remove_body_def)
qed

theorem array_remove_cow_witness:
  "\<exists>b s'. array_remove (Some 1) 1 shared_pair = Some ((Some 0, Some b), s')
    \<and> array_items s' b = Some [Some 0]"
proof -
  have "room 2 shared_pair"
    unfolding shared_pair_def by (rule room_store_of) (simp add: fresh_value_def)
  moreover have "pay shared_pair 1 = Some (VArray \<lparr>a_capacity = 8, a_items = [Some 0, Some 0]\<rparr>)"
    by (simp add: shared_pair_def pay_store_of fresh_value_def)
  moreover have "\<forall>k. \<not> oom shared_pair k" by (simp add: shared_pair_def)
  ultimately show ?thesis
    using array_remove_cow [OF shared_pair_owns, of "\<lparr>a_capacity = 8, a_items = [Some 0, Some 0]\<rparr>" 1]
    by (auto simp: cow_result_def numeral_2_eq_2)
qed

lemma array_reverse_cow:
  assumes o: "owns (add_mset a R) s" and p: "pay s a = Some (VArray arr)"
    and rm: "room (length (a_items arr)) s" and mem: "\<forall>k. \<not> oom s k"
  shows "\<exists>b s'. array_reverse (Some a) s = Some (Some b, s') \<and> cow_result a s R b s' (rev (a_items arr))"
  using o p rm
proof (cases rule: arr.on_writable_owns [where f = reverse_body and other = "\<lambda>p. p"])
  case (nomem s')
  then show ?thesis using mem by blast
next
  case (target b w s1)
  let ?arr = "arr\<lparr>a_items := rev (a_items arr)\<rparr>"
  have "\<exists>s'. store_array b ?arr s1 = Some s' \<and> cow_result a s R b s' (a_items ?arr)"
    by (rule array_write_done [OF target(2)])
      (use target(2) in \<open>simp_all add: write_target_def mset_somes_rev\<close>)
  then show ?thesis
    using target(1) reverse_loop_rev [of "a_items arr"]
    by (auto simp: array_reverse_def reverse_body_def)
qed

lemma somes_list_update:
  "i < length xs \<Longrightarrow> mset (somes (xs[i := p])) + mset (somes [xs ! i]) = mset (somes xs) + mset (somes [p])"
proof (induction xs arbitrary: i)
  case (Cons x xs)
  show ?case
  proof (cases i)
    case 0
    then show ?thesis by (cases x; cases p) simp_all
  next
    case (Suc k)
    then show ?thesis using Cons.IH [of k] Cons.prems by (cases x) simp_all
  qed
qed simp

text \<open>
  C16. Overwriting an item: with memory available, \<open>array_set\<close> at a valid index takes over the
  caller's references to the array and to the new item, gives up the array's reference to the
  old item, and returns the array with the item replaced. Nothing freed is touched, also when
  the old item dies with everything below it, and all reference counts stay exact.
\<close>

theorem array_set_owns:
  assumes o: "owns (add_mset a (add_mset x R)) s" and p: "pay s a = Some (VArray arr)"
    and rm: "room (length (a_items arr)) s" and mem: "\<forall>k. \<not> oom s k"
    and i: "i < length (a_items arr)"
  shows "\<exists>b s'. array_set (Some a) i (Some x) s = Some (Some b, s')
    \<and> array_items s' b = Some ((a_items arr)[i := Some x]) \<and> owns (add_mset b R) s'
    \<and> (b = a \<longleftrightarrow> unshared s a)"
  using o p rm
proof (cases rule: arr.on_writable_owns [where f = "set_body i (Some x)" and other = "\<lambda>p. p"])
  case (nomem s')
  then show ?thesis using mem by blast
next
  case (target b w s1)
  obtain s2 w2 where s2: "gc_write_barrier b (Some x) s1 = Some s2" "owns (add_mset b (add_mset x R)) s2"
    "cell s2 b = Some w2" "v_as w2 = VArray arr" "refcount w2 = 1"
    by (rule arr.after_barrier [OF target(2), of "Some x"]) simp_all
  let ?arr = "arr\<lparr>a_items := (a_items arr)[i := Some x]\<rparr>"
  have "mset (somes (a_items ?arr)) + mset (somes [a_items arr ! i]) + R = mset (somes (a_items arr)) + add_mset x R"
    using somes_list_update [OF i, of "Some x"] by simp
  from arr.take_out(1) [OF s2(2-5) nth_mem [OF i] this] obtain s3 s4 where
    "free_item (a_items arr ! i) s2 = Some s3" "store_array b ?arr s3 = Some s4"
    "owns (add_mset b R) s4" "pay s4 b = Some (VArray ?arr)" by blast
  then show ?thesis
    using target s2(1) i by (auto simp: array_set_def set_body_def array_items_def write_target_def)
qed

theorem array_set_owns_witness:
  "\<exists>b s'. array_set (Some 2) 0 (Some 1) (store_of
      [fresh_value 0 (VInt 7), fresh_value 0 (VInt 8),
       fresh_value 0 (VArray \<lparr>a_capacity = 8, a_items = [Some 0]\<rparr>)]) = Some (Some b, s')
    \<and> array_items s' b = Some [Some 1] \<and> owns {#b#} s'"
proof -
  let ?vs = "[fresh_value 0 (VInt 7), fresh_value 0 (VInt 8),
       fresh_value 0 (VArray \<lparr>a_capacity = 8, a_items = [Some 0]\<rparr>)]"
  have "owns (add_mset 2 (add_mset 1 {#})) (store_of ?vs)"
    by (rule owns_store_of) (simp_all add: store_eval)
  moreover have "room 1 (store_of ?vs)" by (rule room_store_of) (simp add: fresh_value_def)
  moreover have "pay (store_of ?vs) 2 = Some (VArray \<lparr>a_capacity = 8, a_items = [Some 0]\<rparr>)"
    by (simp add: pay_store_of fresh_value_def)
  ultimately show ?thesis
    using array_set_owns [of 2 1 "{#}" "store_of ?vs" "\<lparr>a_capacity = 8, a_items = [Some 0]\<rparr>" 0]
    by auto
qed

end
