(* ===== verification/StringType.thy ===== *)
theory StringType
  imports ArrayType
begin

text \<open>
  The string operations of \<^verbatim>\<open>types/string.c\<close> on the value store: creation, the interning
  cache, properties, and the operations on whole strings. C string arguments are byte lists
  (\<open>None\<close> is \<^verbatim>\<open>NULL\<close>); \<^verbatim>\<open>strlen\<close>, \<^verbatim>\<open>strstr\<close> and \<^verbatim>\<open>strcmp\<close> see the bytes before the first
  zero byte. Character classification is that of the C locale.
\<close>

subsection \<open>The C library\<close>

fun find_sub :: "string \<Rightarrow> string \<Rightarrow> nat option" where
  "find_sub needle [] = (if needle = [] then Some 0 else None)"
| "find_sub needle (c # cs) =
     (if take (length needle) (c # cs) = needle then Some 0 else map_option Suc (find_sub needle cs))"

definition strstr :: "string \<Rightarrow> string \<Rightarrow> nat option" where
  "strstr hay needle = find_sub (cstr needle) (cstr hay)"

text \<open>The sign of \<^verbatim>\<open>strcmp\<close>; the standard fixes nothing else of its result.\<close>

fun bytes_cmp :: "string \<Rightarrow> string \<Rightarrow> int" where
  "bytes_cmp [] [] = 0"
| "bytes_cmp [] (_ # _) = - 1"
| "bytes_cmp (_ # _) [] = 1"
| "bytes_cmp (c # cs) (d # ds) =
     (if (of_char c :: nat) < of_char d then - 1
      else if (of_char d :: nat) < of_char c then 1 else bytes_cmp cs ds)"

definition strcmp :: "string \<Rightarrow> string \<Rightarrow> int" where
  "strcmp a b = bytes_cmp (cstr a) (cstr b)"

definition isspace :: "char \<Rightarrow> bool" where
  "isspace c \<longleftrightarrow> (of_char c :: nat) = 32 \<or> 9 \<le> (of_char c :: nat) \<and> (of_char c :: nat) \<le> 13"

definition toupper :: "char \<Rightarrow> char" where
  "toupper c = (if 97 \<le> (of_char c :: nat) \<and> (of_char c :: nat) \<le> 122
     then char_of ((of_char c :: nat) - 32) else c)"

definition tolower :: "char \<Rightarrow> char" where
  "tolower c = (if 65 \<le> (of_char c :: nat) \<and> (of_char c :: nat) \<le> 90
     then char_of ((of_char c :: nat) + 32) else c)"

subsection \<open>Creation\<close>

definition string_of :: "string \<Rightarrow> String" where
  "string_of str = \<lparr>s_hash = agim_hash_string str (length str), s_data = str\<rparr>"

definition value_string_n :: "string \<Rightarrow> nat \<Rightarrow> store \<Rightarrow> ptr \<times> store" where
  "value_string_n str len s =
     construct 2 VALUE_IMMUTABLE
       (VString \<lparr>s_hash = agim_hash_string str len, s_data = take len str\<rparr>) s"

definition value_string :: "string \<Rightarrow> store \<Rightarrow> ptr \<times> store" where
  "value_string str s = value_string_n str (strlen str) s"

subsection \<open>The interning cache\<close>

definition INTERN_CACHE_SETS :: nat where "INTERN_CACHE_SETS = 1024"
definition INTERN_CACHE_WAYS :: nat where "INTERN_CACHE_WAYS = 4"

type_synonym intern_cache = "nat \<Rightarrow> nat \<Rightarrow> ptr"

text \<open>The search through the ways of a set; \<open>None\<close> in the first component is a miss.\<close>

fun intern_search :: "ptr list \<Rightarrow> string \<Rightarrow> store \<Rightarrow> (ptr \<times> store) option" where
  "intern_search [] str s = Some (None, s)"
| "intern_search (None # ps) str s = intern_search ps str s"
| "intern_search (Some a # ps) str s = do {
     v \<leftarrow> cell s a;
     (case v_as v of
        VString x \<Rightarrow>
          if length (s_data x) = length str \<and> s_data x = str
          then do {
            (retained, s) \<leftarrow> value_retain (Some a) s;
            (case retained of Some _ \<Rightarrow> Some (retained, s) | None \<Rightarrow> intern_search ps str s)}
          else intern_search ps str s
      | _ \<Rightarrow> intern_search ps str s)}"

text \<open>
  \<open>raced\<close> is whether another thread replaces the entry of the chosen way between the load and
  the compare-and-exchange.
\<close>

definition string_intern ::
  "bool \<Rightarrow> string option \<Rightarrow> nat \<Rightarrow> intern_cache \<Rightarrow> store \<Rightarrow> (ptr \<times> intern_cache \<times> store) option"
where
  "string_intern raced str len cache s =
     (case str of None \<Rightarrow> Some (None, cache, s)
      | Some str \<Rightarrow>
          let str = take len str;
              hash = agim_hash_string str len;
              set_idx = unat hash mod INTERN_CACHE_SETS
          in do {
            (found, s) \<leftarrow> intern_search (map (cache set_idx) [0..<INTERN_CACHE_WAYS]) str s;
            if found \<noteq> None then Some (found, cache, s)
            else let (v, s) = value_string_n str len s
                 in if v = None then Some (None, cache, s)
                    else do {
                      (_, s) \<leftarrow> value_retain v s;
                      let way = unat (drop_bit 8 hash) mod INTERN_CACHE_WAYS;
                      let expected = cache set_idx way;
                      if raced then do {s \<leftarrow> value_release v s; Some (v, cache, s)}
                      else let cache = cache(set_idx := (cache set_idx)(way := v))
                           in if expected = None then Some (v, cache, s)
                              else do {s \<leftarrow> value_release expected s; Some (v, cache, s)}}})"

subsection \<open>Properties\<close>

definition with_string :: "ptr \<Rightarrow> (String \<Rightarrow> 'a option) \<Rightarrow> 'a option \<Rightarrow> store \<Rightarrow> 'a option" where
  "with_string p f other s =
     (case p of None \<Rightarrow> other
      | Some a \<Rightarrow> do {
          v \<leftarrow> cell s a;
          (case v_as v of VString x \<Rightarrow> f x | _ \<Rightarrow> other)})"

definition string_length :: "ptr \<Rightarrow> store \<Rightarrow> nat option" where
  "string_length p s = with_string p (\<lambda>x. Some (length (s_data x))) (Some 0) s"

definition string_chars :: "ptr \<Rightarrow> store \<Rightarrow> nat option" where
  "string_chars p s = with_string p
     (\<lambda>x. Some (length (filter (\<lambda>c. (of_char c :: u8) AND 0xC0 \<noteq> 0x80) (s_data x)))) (Some 0) s"

definition string_hash :: "ptr \<Rightarrow> store \<Rightarrow> u64 option" where
  "string_hash p s = with_string p (\<lambda>x. Some (s_hash x)) (Some 0) s"

definition string_data :: "ptr \<Rightarrow> store \<Rightarrow> string option option" where
  "string_data p s = with_string p (\<lambda>x. Some (Some (s_data x))) (Some None) s"

subsection \<open>Operations\<close>

definition string_concat :: "ptr \<Rightarrow> ptr \<Rightarrow> store \<Rightarrow> (ptr \<times> store) option" where
  "string_concat p q s =
     with_string p (\<lambda>x. with_string q (\<lambda>y.
         let len_a = length (s_data x); len_b = length (s_data y)
         in if size_max - len_b - 1 < len_a then Some (value_nil s)
            else let tot = len_a + len_b;
                     (v, s) = construct 2 VALUE_IMMUTABLE
                       (VString \<lparr>s_hash = agim_hash_string (s_data x @ s_data y) tot,
                                 s_data = s_data x @ s_data y\<rparr>) s
                 in if v = None then Some (value_nil s) else Some (v, s))
       (Some (value_nil s)) s)
     (Some (value_nil s)) s"

definition string_slice :: "ptr \<Rightarrow> nat \<Rightarrow> nat \<Rightarrow> store \<Rightarrow> (ptr \<times> store) option" where
  "string_slice p start stop s =
     with_string p (\<lambda>x.
         let len = length (s_data x);
             start = (if len < start then len else start);
             stop = (if len < stop then len else stop);
             start = (if stop < start then stop else start)
         in Some (value_string_n (drop start (s_data x)) (stop - start) s))
       (Some (value_nil s)) s"

definition string_index :: "ptr \<Rightarrow> nat \<Rightarrow> store \<Rightarrow> (ptr \<times> store) option" where
  "string_index p index s =
     with_string p (\<lambda>x.
         if length (s_data x) \<le> index then Some (value_nil s)
         else Some (value_string_n (drop index (s_data x)) 1 s))
       (Some (value_nil s)) s"

definition string_find :: "ptr \<Rightarrow> string option \<Rightarrow> store \<Rightarrow> int option" where
  "string_find p needle s =
     with_string p (\<lambda>x.
         case needle of None \<Rightarrow> Some (- 1)
         | Some needle \<Rightarrow>
             case strstr (s_data x) needle of None \<Rightarrow> Some (- 1) | Some pos \<Rightarrow> Some (int pos))
       (Some (- 1)) s"

definition string_equals :: "ptr \<Rightarrow> ptr \<Rightarrow> store \<Rightarrow> bool option" where
  "string_equals p q s =
     (if p = None \<or> q = None then Some False
      else with_string p (\<lambda>x. with_string q (\<lambda>y.
               if length (s_data x) \<noteq> length (s_data y) then Some False
               else Some (s_data x = s_data y))
             (Some False) s)
           (Some False) s)"

definition string_compare :: "ptr \<Rightarrow> ptr \<Rightarrow> store \<Rightarrow> int option" where
  "string_compare p q s =
     (if p = None \<or> q = None then Some 0
      else with_string p (\<lambda>x. with_string q (\<lambda>y. Some (strcmp (s_data x) (s_data y))) (Some 0) s)
           (Some 0) s)"

text \<open>\<open>result = array_push(result, value_string_n(str, len))\<close>.\<close>

definition push_string :: "ptr \<Rightarrow> string \<Rightarrow> nat \<Rightarrow> store \<Rightarrow> (ptr \<times> store) option" where
  "push_string result str len s =
     (let (v, s) = value_string_n str len s in array_push result v s)"

fun split_chars :: "ptr \<Rightarrow> string \<Rightarrow> store \<Rightarrow> (ptr \<times> store) option" where
  "split_chars result [] s = Some (result, s)"
| "split_chars result (c # cs) s = do {
     (result, s) \<leftarrow> push_string result (c # cs) 1 s;
     split_chars result cs s}"

lemma find_sub_bounds: "find_sub needle hay = Some pos \<Longrightarrow> pos + length needle \<le> length hay"
proof (induction needle hay arbitrary: pos rule: find_sub.induct)
  case (2 needle c cs)
  show ?case
  proof (cases "take (length needle) (c # cs) = needle")
    case True
    then have "length needle \<le> length (c # cs)" by (metis length_take min.cobounded1)
    then show ?thesis using 2(2) True by simp
  next
    case False
    then show ?thesis using 2 by auto
  qed
qed (simp split: if_splits)

lemma length_cstr_le: "length (cstr s) \<le> length s"
  by (simp add: cstr_def length_takeWhile_le)

lemma strstr_progress:
  assumes "strstr hay needle = Some pos" and "cstr needle \<noteq> []"
  shows "length hay - (pos + strlen needle) < length hay"
proof -
  have "pos + length (cstr needle) \<le> length (cstr hay)"
    using assms(1) unfolding strstr_def by (rule find_sub_bounds)
  moreover have "0 < length (cstr needle)" using assms(2) by simp
  ultimately show ?thesis using length_cstr_le [of hay]
    by (simp add: strlen_def del: length_greater_0_conv)
qed

function split_loop :: "ptr \<Rightarrow> string \<Rightarrow> string \<Rightarrow> store \<Rightarrow> (ptr \<times> store) option" where
  "split_loop result start delimiter s =
     (if cstr delimiter = [] then None
      else case strstr start delimiter of
        None \<Rightarrow> (let (v, s) = value_string start s in array_push result v s)
      | Some pos \<Rightarrow> do {
          (result, s) \<leftarrow> push_string result start pos s;
          split_loop result (drop (pos + strlen delimiter) start) delimiter s})"
  by pat_completeness auto
termination
proof (relation "measure (\<lambda>(result, start, delimiter, s). length start)", goal_cases)
  case (2 result start delimiter s pos)
  then show ?case by (simp add: strstr_progress)
qed simp

declare split_loop.simps [simp del]

definition string_split :: "ptr \<Rightarrow> string option \<Rightarrow> store \<Rightarrow> (ptr \<times> store) option" where
  "string_split p delimiter s =
     with_string p (\<lambda>x.
         case delimiter of None \<Rightarrow> Some (value_array s)
         | Some delimiter \<Rightarrow>
             let (result, s) = value_array s
             in if strlen delimiter = 0 then split_chars result (s_data x) s
                else split_loop result (s_data x) delimiter s)
       (Some (value_array s)) s"

text \<open>The bytes that an item of the array to join contributes.\<close>

definition item_bytes :: "ptr \<Rightarrow> store \<Rightarrow> string option" where
  "item_bytes item s = with_string item (\<lambda>x. Some (s_data x)) (Some []) s"

fun join_total :: "nat \<Rightarrow> ptr list \<Rightarrow> nat \<Rightarrow> store \<Rightarrow> nat option" where
  "join_total tot [] sep_len s = Some tot"
| "join_total tot (item # items) sep_len s = do {
     bytes \<leftarrow> item_bytes item s;
     let tot = sz (tot + length bytes);
     let tot = (if items = [] then tot else sz (tot + sep_len));
     join_total tot items sep_len s}"

fun join_copy :: "ptr list \<Rightarrow> string \<Rightarrow> store \<Rightarrow> string option" where
  "join_copy [] sep s = Some []"
| "join_copy (item # items) sep s = do {
     bytes \<leftarrow> item_bytes item s;
     rest \<leftarrow> join_copy items sep s;
     Some (bytes @ (if items = [] then [] else sep) @ rest)}"

text \<open>
  The result buffer is not checked for \<^verbatim>\<open>NULL\<close>; writing through it, and writing past its
  \<open>tot + 1\<close> bytes, is undefined.
\<close>

definition string_join :: "ptr \<Rightarrow> string option \<Rightarrow> store \<Rightarrow> (ptr \<times> store) option" where
  "string_join p separator s =
     (case p of None \<Rightarrow> Some (value_string [] s)
      | Some a \<Rightarrow> do {
          v \<leftarrow> cell s a;
          (case (v_as v, separator) of
             (VArray arr, Some separator) \<Rightarrow>
               if a_items arr = [] then Some (value_string [] s)
               else do {
                 tot \<leftarrow> join_total 0 (a_items arr) (strlen separator) s;
                 let (ok, s) = agim_alloc s;
                 buf \<leftarrow> join_copy (a_items arr) (cstr separator) s;
                 if \<not> ok \<or> sz (tot + 1) < length buf + 1 then None
                 else Some (value_string_n buf tot s)}
           | _ \<Rightarrow> Some (value_string [] s))})"

definition trim_bytes :: "string \<Rightarrow> string" where
  "trim_bytes str =
     (let start = length (takeWhile isspace str);
          rest = drop start str;
          trailing = length (takeWhile isspace (rev rest))
      in take (length rest - trailing) rest)"

definition string_trim :: "ptr \<Rightarrow> store \<Rightarrow> (ptr \<times> store) option" where
  "string_trim p s =
     with_string p (\<lambda>x. Some (value_string_n (trim_bytes (s_data x)) (length (trim_bytes (s_data x))) s))
       (Some (value_nil s)) s"

text \<open>The loops of \<^verbatim>\<open>string_upper\<close> and \<^verbatim>\<open>string_lower\<close> write through an unchecked buffer.\<close>

definition map_bytes :: "(char \<Rightarrow> char) \<Rightarrow> ptr \<Rightarrow> store \<Rightarrow> (ptr \<times> store) option" where
  "map_bytes f p s =
     with_string p (\<lambda>x.
         let (ok, s) = agim_alloc s
         in if ok then Some (value_string_n (map f (s_data x)) (length (s_data x)) s) else None)
       (Some (value_nil s)) s"

definition string_upper :: "ptr \<Rightarrow> store \<Rightarrow> (ptr \<times> store) option" where
  "string_upper = map_bytes toupper"

definition string_lower :: "ptr \<Rightarrow> store \<Rightarrow> (ptr \<times> store) option" where
  "string_lower = map_bytes tolower"

function replace_count :: "string \<Rightarrow> string \<Rightarrow> nat" where
  "replace_count pos old =
     (if cstr old = [] then 0
      else case strstr pos old of None \<Rightarrow> 0
      | Some i \<Rightarrow> Suc (replace_count (drop (i + strlen old) pos) old))"
  by pat_completeness auto
termination
proof (relation "measure (\<lambda>(pos, old). length pos)", goal_cases)
  case (2 pos old i)
  then show ?case by (simp add: strstr_progress)
qed simp

function replace_copy :: "string \<Rightarrow> string \<Rightarrow> string \<Rightarrow> string" where
  "replace_copy src old new =
     (if cstr old = [] then cstr src
      else case strstr src old of None \<Rightarrow> cstr src
      | Some i \<Rightarrow> take i src @ cstr new @ replace_copy (drop (i + strlen old) src) old new)"
  by pat_completeness auto
termination
proof (relation "measure (\<lambda>(src, old, new). length src)", goal_cases)
  case (2 src old new i)
  then show ?case by (simp add: strstr_progress)
qed simp

declare replace_count.simps [simp del] replace_copy.simps [simp del]

text \<open>
  The length of the result, with the overflow guards of the source; \<open>None\<close> is the early return
  of nil. In the shrinking branch the subtraction is the one of \<^verbatim>\<open>size_t\<close>.
\<close>

definition replace_len :: "nat \<Rightarrow> nat \<Rightarrow> nat \<Rightarrow> nat \<Rightarrow> nat option" where
  "replace_len len cnt old_len new_len =
     (if old_len \<le> new_len
      then let diff = new_len - old_len
           in if 0 < diff \<and> size_max div diff < cnt then None
              else let growth = cnt * diff
                   in if size_max - len < growth then None else Some (len + growth)
      else let diff = old_len - new_len; shrinkage = sz (cnt * diff)
           in Some (sz (len + 2 ^ 64 - shrinkage)))"

text \<open>
  Bytes of the buffer beyond what the copy wrote are uninitialised, and reading them, or writing
  beyond the buffer, is undefined.
\<close>

definition string_replace :: "ptr \<Rightarrow> string option \<Rightarrow> string option \<Rightarrow> store \<Rightarrow> (ptr \<times> store) option" where
  "string_replace p old_str new_str s =
     with_string p (\<lambda>x.
         case (old_str, new_str) of
           (Some old, Some new) \<Rightarrow>
             let str = s_data x; len = length (s_data x)
             in if strlen old = 0 then Some (value_string_n str len s)
                else let cnt = replace_count str old
                     in if cnt = 0 then Some (value_string_n str len s)
                        else case replace_len len cnt (strlen old) (strlen new) of
                          None \<Rightarrow> Some (value_nil s)
                        | Some result_len \<Rightarrow>
                            let (ok, s) = agim_alloc s
                            in if \<not> ok then Some (value_nil s)
                               else let buf = replace_copy str old new @ [NUL]
                                    in if sz (result_len + 1) < length buf \<or> length buf < result_len then None
                                       else Some (value_string_n buf result_len s)
         | _ \<Rightarrow> Some (value_nil s))
       (Some (value_nil s)) s"

definition string_starts_with :: "ptr \<Rightarrow> string option \<Rightarrow> store \<Rightarrow> bool option" where
  "string_starts_with p prefx s =
     with_string p (\<lambda>x.
         case prefx of None \<Rightarrow> Some False
         | Some prefx \<Rightarrow>
             if length (s_data x) < strlen prefx then Some False
             else Some (take (strlen prefx) (s_data x) = cstr prefx))
       (Some False) s"

definition string_ends_with :: "ptr \<Rightarrow> string option \<Rightarrow> store \<Rightarrow> bool option" where
  "string_ends_with p suffx s =
     with_string p (\<lambda>x.
         case suffx of None \<Rightarrow> Some False
         | Some suffx \<Rightarrow>
             if length (s_data x) < strlen suffx then Some False
             else let offset = length (s_data x) - strlen suffx
                  in Some (take (strlen suffx) (drop offset (s_data x)) = cstr suffx))
       (Some False) s"

subsection \<open>Building arrays of strings\<close>

lemma allocs_ok_mem: "\<forall>k. \<not> oom s k \<Longrightarrow> \<exists>s'. allocs_ok n s = (True, s')"
  by (metis (full_types) allocs_ok_fails prod.exhaust)

lemma construct_mem:
  assumes "\<forall>k. \<not> oom s k" and "children p = []"
  obtains s' where "construct n fl p s = (Some (brk s), s')" "pay s' = (pay s)(brk s \<mapsto> p)"
    "oom s' = oom s" "cell s' = (cell s)(brk s \<mapsto> fresh_value fl p)"
    "\<forall>R. owns R s \<longrightarrow> owns (add_mset (brk s) R) s'"
proof -
  obtain s1 where s1: "allocs_ok n s = (True, s1)" using allocs_ok_mem [OF assms(1)] by blast
  have f: "\<And>a. cell s1 a = cell s a" "brk s1 = brk s" "oom s1 = oom s"
    using allocs_ok_frame [of n s] oom_frame [of n s] s1 by simp_all
  obtain q s2 where s2: "new_cell (fresh_value fl p) s1 = (q, s2)" by force
  note n = cell_new [OF s2]
  have c: "cell s2 = (cell s)(brk s \<mapsto> fresh_value fl p)" using n f by (auto simp: fun_eq_iff)
  show thesis
  proof
    show "construct n fl p s = (Some (brk s), s2)" using s1 s2 n f by (simp add: construct_def)
    show "pay s2 = (pay s)(brk s \<mapsto> p)" by (auto simp: pay_def c fun_eq_iff fresh_value_def)
    show "oom s2 = oom s" using s2 f by (auto simp: new_cell_def)
    show "cell s2 = (cell s)(brk s \<mapsto> fresh_value fl p)" by (rule c)
    show "\<forall>R. owns R s \<longrightarrow> owns (add_mset (brk s) R) s2"
    proof (intro allI impI)
      fix R assume "owns R s"
      then have "owns R s1" using owns_allocs_ok [of R n s] s1 by simp
      then show "owns (add_mset (brk s) R) s2" using owns_new [OF _ s2, of R] assms(2) f(2) by simp
    qed
  qed
qed

lemma push_unshared:
  assumes o: "owns (add_mset a (add_mset x R)) s" and c: "cell s a = Some w" "refcount w = 1" "v_as w = VArray arr"
    and cap: "0 < a_capacity arr" and len: "length (a_items arr) < 2 ^ 59" and mem: "\<forall>k. \<not> oom s k"
  obtains s' w' arr' where "array_push (Some a) (Some x) s = Some (Some a, s')" "owns (add_mset a R) s'"
    "a_items arr' = a_items arr @ [Some x]" "0 < a_capacity arr'" "pay s' = (pay s)(a \<mapsto> VArray arr')"
    "cell s' a = Some w'" "refcount w' = 1" "oom s' = oom s"
proof -
  have w: "array_ensure_writable a s = Some (Some a, s)"
    using c by (simp add: array_ensure_writable_def)
  have "\<exists>xv. cell s x = Some xv" by (rule owns_live [OF o]) simp
  then obtain s2 where s2: "gc_write_barrier a (Some x) s = Some s2" "owns (add_mset a (add_mset x R)) s2"
    "pay s2 = pay s" "same_counts s s2" "oom s2 = oom s"
    using write_barrier_owns [OF o c(1), of "Some x"] by auto
  obtain ok arr2 s3 where e: "array_ensure_capacity arr (length (a_items arr) + 1) s2 = (ok, arr2, s3)"
    by (metis prod_cases3)
  note ee = ensure_capacity_owns [OF e]
  have ok: ok using ensure_capacity_ok [OF cap, of "length (a_items arr) + 1" s2] len e mem s2(5) by simp
  have "pay s3 a = Some (VArray arr)" using ee(3) s2(3) c by (simp add: pay_def)
  moreover have "map_option refcount (cell s3 a) = Some 1"
    using s2(4) c ee(4) by (simp add: same_counts_def)
  ultimately obtain w3 where w3: "cell s3 a = Some w3" "v_as w3 = VArray arr" "refcount w3 = 1"
    by (auto simp: pay_Some)
  let ?arr = "arr2\<lparr>a_items := a_items arr2 @ [Some x]\<rparr>"
  have o3: "owns (add_mset a (add_mset x R)) s3" using ee(2) s2(2) by simp
  note st = arr.store_owns [OF o3 w3(1,2), of ?arr "add_mset a R"]
  have cap2: "0 < a_capacity arr2"
    using e cap double_until_ge [of "a_capacity arr" "length (a_items arr) + 1"]
    by (auto simp: array_ensure_capacity_def agim_alloc_def split: if_splits option.splits)
  let ?s = "put a (w3\<lparr>v_as := VArray ?arr\<rparr>) s3"
  show thesis
  proof (rule that [of ?s ?arr "w3\<lparr>v_as := VArray ?arr\<rparr>"])
    show "array_push (Some a) (Some x) s = Some (Some a, ?s)"
      using c w s2(1) e ok st(1) ee(1) by (simp add: array_push_def on_writable_def as_array_def push_body_def)
    show "owns (add_mset a R) ?s" using st(2) ee(1) by simp
    show "pay ?s = (pay s)(a \<mapsto> VArray ?arr)" using st(3) ee(1,3) s2(3) by simp
    show "cell ?s a = Some (w3\<lparr>v_as := VArray ?arr\<rparr>)" using cell_SomeD [OF w3(1)] by (simp add: cell_put)
  qed (use ee s2 cap2 w3 in simp_all)
qed

definition is_str :: "store \<Rightarrow> string \<Rightarrow> ptr \<Rightarrow> bool" where
  "is_str s x p \<longleftrightarrow> (\<exists>q. p = Some q \<and> pay s q = Some (VString (string_of x)))"

definition strings_at :: "store \<Rightarrow> addr \<Rightarrow> string list \<Rightarrow> bool" where
  "strings_at s a xs \<longleftrightarrow> (\<exists>w arr. cell s a = Some w \<and> refcount w = 1 \<and> v_as w = VArray arr
     \<and> 0 < a_capacity arr \<and> list_all2 (is_str s) xs (a_items arr))"

lemma value_string_n_mem:
  assumes "\<forall>k. \<not> oom s k" and "n \<le> length str"
  obtains s' where "value_string_n str n s = (Some (brk s), s')"
    "pay s' = (pay s)(brk s \<mapsto> VString (string_of (take n str)))" "oom s' = oom s"
    "cell s' = (cell s)(brk s \<mapsto> fresh_value VALUE_IMMUTABLE (VString (string_of (take n str))))"
    "\<forall>R. owns R s \<longrightarrow> owns (add_mset (brk s) R) s'"
proof -
  have "\<lparr>s_hash = agim_hash_string str n, s_data = take n str\<rparr> = string_of (take n str)"
    using assms(2) by (simp add: string_of_def agim_hash_string_def)
  then show thesis
    using that construct_mem [OF assms(1), of "VString (string_of (take n str))" 2 VALUE_IMMUTABLE]
    by (auto simp: value_string_n_def)
qed

lemma push_string_mem:
  assumes o: "owns (add_mset a R) s" and x: "strings_at s a xs" and len: "length xs < 2 ^ 59"
    and mem: "\<forall>k. \<not> oom s k" and n: "n \<le> length str"
  obtains s' where "push_string (Some a) str n s = Some (Some a, s')" "strings_at s' a (xs @ [take n str])"
    "owns (add_mset a R) s'" "oom s' = oom s"
proof -
  let ?q = "brk s"
  obtain s1 where s1: "value_string_n str n s = (Some ?q, s1)"
    "pay s1 = (pay s)(?q \<mapsto> VString (string_of (take n str)))" "oom s1 = oom s"
    "cell s1 = (cell s)(?q \<mapsto> fresh_value VALUE_IMMUTABLE (VString (string_of (take n str))))"
    "\<forall>R. owns R s \<longrightarrow> owns (add_mset ?q R) s1"
    by (rule value_string_n_mem [OF mem n])
  obtain w arr where w: "cell s a = Some w" "refcount w = 1" "v_as w = VArray arr"
    "0 < a_capacity arr" "list_all2 (is_str s) xs (a_items arr)"
    using x by (auto simp: strings_at_def)
  have aq: "a \<noteq> ?q" using cell_SomeD [OF w(1)] by simp
  have w1: "cell s1 a = Some w" using s1(4) aq w(1) by simp
  have o1: "owns (add_mset a (add_mset ?q R)) s1" using s1(5) o by (metis add_mset_commute)
  have l: "length (a_items arr) < 2 ^ 59" using w(5) len by (simp add: list_all2_lengthD)
  obtain s' w' arr' where s': "array_push (Some a) (Some ?q) s1 = Some (Some a, s')" "owns (add_mset a R) s'"
    "a_items arr' = a_items arr @ [Some ?q]" "0 < a_capacity arr'" "pay s' = (pay s1)(a \<mapsto> VArray arr')"
    "cell s' a = Some w'" "refcount w' = 1" "oom s' = oom s1"
    using push_unshared [OF o1 w1 w(2,3,4) l] mem s1(3) by metis
  have k: "is_str s' y p" if st: "is_str s y p" for y p
  proof -
    obtain q where q: "p = Some q" "pay s q = Some (VString (string_of y))" using st by (auto simp: is_str_def)
    have "q \<noteq> ?q" using q(2) by (auto simp: pay_def cell_def)
    moreover have "q \<noteq> a" using q(2) w by (auto simp: pay_def)
    ultimately show ?thesis using q s'(5) s1(2) by (simp add: is_str_def)
  qed
  have "is_str s' (take n str) (Some ?q)" using s'(5) s1(2) aq by (simp add: is_str_def)
  moreover have "list_all2 (is_str s') xs (a_items arr)" using w(5) k by (rule list_all2_mono)
  moreover have "v_as w' = VArray arr'" using s'(5,6) by (auto simp: pay_def dest: fun_cong [of _ _ a])
  ultimately have "strings_at s' a (xs @ [take n str])"
    using s'(3,4,6,7) unfolding strings_at_def by (auto intro!: list_all2_appendI)
  then show thesis using that s1 s' by (simp add: push_string_def)
qed

subsection \<open>Splitting and joining\<close>

text \<open>Reference functions on byte strings.\<close>

function split_pieces :: "string \<Rightarrow> string \<Rightarrow> string list" where
  "split_pieces str delim =
     (if delim = [] then [str]
      else case find_sub delim str of None \<Rightarrow> [str]
      | Some pos \<Rightarrow> take pos str # split_pieces (drop (pos + length delim) str) delim)"
  by pat_completeness auto
termination
proof (relation "measure (\<lambda>(str, delim). length str)", goal_cases)
  case (2 str delim pos)
  have "0 < length delim" using 2(1) by simp
  then show ?case using find_sub_bounds [OF 2(2)] by (simp del: length_greater_0_conv)
qed simp

declare split_pieces.simps [simp del]

fun join_strings :: "string \<Rightarrow> string list \<Rightarrow> string" where
  "join_strings sep [] = []"
| "join_strings sep [x] = x"
| "join_strings sep (x # y # xs) = x @ sep @ join_strings sep (y # xs)"

lemma split_pieces_ne [simp]: "split_pieces str delim \<noteq> []"
  by (subst split_pieces.simps) (simp split: option.splits)

lemma find_sub_split:
  "find_sub needle hay = Some pos \<Longrightarrow> hay = take pos hay @ needle @ drop (pos + length needle) hay"
proof (induction needle hay arbitrary: pos rule: find_sub.induct)
  case (2 needle c cs)
  show ?case
  proof (cases "take (length needle) (c # cs) = needle")
    case True
    then have "c # cs = needle @ drop (length needle) (c # cs)" by (metis append_take_drop_id)
    then show ?thesis using 2(2) True by simp
  next
    case False
    then obtain k where "find_sub needle cs = Some k" "pos = Suc k" using 2(2) by auto
    then show ?thesis using 2(1) [OF False] by simp
  qed
qed (simp split: if_splits)

lemma join_strings_Cons: "xs \<noteq> [] \<Longrightarrow> join_strings sep (x # xs) = x @ sep @ join_strings sep xs"
  by (cases xs) simp_all

lemma join_split: "join_strings delim (split_pieces str delim) = str"
proof (induction str delim rule: split_pieces.induct)
  case (1 str delim)
  show ?case
  proof (cases "delim = [] \<or> find_sub delim str = None")
    case True
    then show ?thesis by (subst split_pieces.simps) (auto)
  next
    case False
    then obtain pos where p: "find_sub delim str = Some pos" by auto
    then have "split_pieces str delim = take pos str # split_pieces (drop (pos + length delim) str) delim"
      using False by (subst split_pieces.simps) simp
    then show ?thesis using 1 [OF _ p] False find_sub_split [OF p] by (simp add: join_strings_Cons)
  qed
qed

lemma cstr_drop: "n \<le> length (cstr s) \<Longrightarrow> cstr (drop n s) = drop n (cstr s)"
  by (induction s arbitrary: n) (auto simp: cstr_def drop_Cons split: nat.splits)

lemma take_cstr: "n \<le> length (cstr s) \<Longrightarrow> take n s = take n (cstr s)"
  by (induction s arbitrary: n) (auto simp: cstr_def take_Cons split: nat.splits)

lemma split_loop_mem:
  assumes "str = cstr start" "d = cstr delim" "d \<noteq> []"
    and "owns (add_mset a R) s" "strings_at s a xs" "\<forall>k. \<not> oom s k" "length xs + length str < 2 ^ 59"
  shows "\<exists>s'. split_loop (Some a) start delim s = Some (Some a, s')
    \<and> strings_at s' a (xs @ split_pieces str d) \<and> owns (add_mset a R) s' \<and> oom s' = oom s"
  using assms
proof (induction str d arbitrary: start s xs rule: split_pieces.induct)
  case (1 str d)
  note prems = "1.prems"
  have le: "length str \<le> length start" using prems(1) length_cstr_le by simp
  show ?case
  proof (cases "find_sub d str")
    case None
    have "split_pieces str d = [str]" using None prems(3) by (subst split_pieces.simps) simp
    moreover have "split_loop (Some a) start delim s = push_string (Some a) start (length str) s"
      using None prems(1-3)
      by (simp add: split_loop.simps [of "Some a" start] strstr_def value_string_def strlen_def push_string_def)
    moreover have l: "length xs < 2 ^ 59" using prems(7) by simp
    moreover have "take (length str) start = str" using take_cstr [of "length str" start] prems(1) by simp
    ultimately show ?thesis
      using push_string_mem [OF prems(4,5) l prems(6) le] by metis
  next
    case (Some pos)
    let ?rest = "drop (pos + length d) str" and ?start = "drop (pos + length d) start"
    have sp: "split_pieces str d = take pos str # split_pieces ?rest d"
      using Some prems(3) by (subst split_pieces.simps) simp
    have b: "pos + length d \<le> length str" by (rule find_sub_bounds [OF Some])
    have dl: "0 < length d" using prems(3) by simp
    have l: "length xs < 2 ^ 59" "pos \<le> length start" using prems(7) b le by simp_all
    have tk: "take pos start = take pos str" using take_cstr [of pos start] b prems(1) by simp
    obtain s1 where s1: "push_string (Some a) start pos s = Some (Some a, s1)"
      "strings_at s1 a (xs @ [take pos str])" "owns (add_mset a R) s1" "oom s1 = oom s"
      unfolding tk [symmetric] by (rule push_string_mem [OF prems(4,5) l(1) prems(6) l(2)])
    have "split_loop (Some a) start delim s = split_loop (Some a) ?start delim s1"
      using Some prems(1-3) s1(1)
      by (simp add: split_loop.simps [of "Some a" start] strstr_def strlen_def)
    moreover have "\<exists>s'. split_loop (Some a) ?start delim s1 = Some (Some a, s')
      \<and> strings_at s' a ((xs @ [take pos str]) @ split_pieces ?rest d)
      \<and> owns (add_mset a R) s' \<and> oom s' = oom s1"
    proof (rule "1.IH" [OF prems(3) Some _ prems(2,3) s1(3,2)])
      show "?rest = cstr ?start" using cstr_drop [of "pos + length d" start] b prems(1) by simp
      show "\<forall>k. \<not> oom s1 k" using prems(6) s1(4) by simp
      show "length (xs @ [take pos str]) + length ?rest < 2 ^ 59"
        using prems(7) b dl by (simp del: length_greater_0_conv)
    qed
    ultimately show ?thesis using sp s1(4) by simp
  qed
qed

text \<open>The pieces do not contain the delimiter: each was cut at its first occurrence.\<close>

lemma find_sub_None: "find_sub needle hay = None \<Longrightarrow> hay \<noteq> u @ needle @ v"
proof (induction needle hay arbitrary: u rule: find_sub.induct)
  case (2 needle c cs)
  then have n: "take (length needle) (c # cs) \<noteq> needle" "find_sub needle cs = None" by (auto split: if_splits)
  show ?case
  proof (cases u)
    case Nil
    then show ?thesis using n(1) by auto
  next
    case (Cons x u')
    then show ?thesis using 2(1) [OF n, of u'] by auto
  qed
qed (auto split: if_splits)

lemma find_sub_first:
  "find_sub needle hay = Some pos \<Longrightarrow> needle \<noteq> [] \<Longrightarrow> take pos hay \<noteq> u @ needle @ v"
proof (induction needle hay arbitrary: pos u rule: find_sub.induct)
  case (2 needle c cs)
  show ?case
  proof (cases "take (length needle) (c # cs) = needle")
    case True
    then show ?thesis using 2(2,3) by simp
  next
    case False
    then obtain k where k: "find_sub needle cs = Some k" "pos = Suc k" using 2(2) by auto
    show ?thesis
    proof (cases u)
      case Nil
      have "take (length needle) (c # cs) = needle" if t: "take pos (c # cs) = needle @ v"
      proof -
        have "length needle \<le> pos" using arg_cong [OF t, of length] by simp
        then show ?thesis using arg_cong [OF t, of "take (length needle)"] by (simp add: min_def)
      qed
      then show ?thesis using False Nil by auto
    next
      case (Cons x u')
      then show ?thesis using 2(1) [OF False k(1) 2(3), of u'] k(2) by auto
    qed
  qed
qed simp

lemma split_pieces_free:
  "d \<noteq> [] \<Longrightarrow> p \<in> set (split_pieces str d) \<Longrightarrow> p \<noteq> u @ d @ v"
proof (induction str d rule: split_pieces.induct)
  case (1 str d)
  show ?case
  proof (cases "find_sub d str")
    case None
    then have "p = str" using 1(2,3) by (simp add: split_pieces.simps [of str])
    then show ?thesis using find_sub_None [OF None] by simp
  next
    case (Some pos)
    then have "p = take pos str \<or> p \<in> set (split_pieces (drop (pos + length d) str) d)"
      using 1(2,3) by (simp add: split_pieces.simps [of str])
    then show ?thesis using 1(1) [OF 1(2) Some 1(2)] find_sub_first [OF Some 1(2), of u v] by auto
  qed
qed

lemma strings_at_new:
  assumes "owns R s" and "\<forall>k. \<not> oom s k"
  obtains a s' where "value_array s = (Some a, s')" "strings_at s' a []" "owns (add_mset a R) s'"
    "oom s' = oom s" "pay s a = None" "pay s' = (pay s)(a \<mapsto> VArray \<lparr>a_capacity = 8, a_items = []\<rparr>)"
proof -
  let ?p = "VArray \<lparr>a_capacity = 8, a_items = []\<rparr>"
  obtain s' where s': "construct 3 0 ?p s = (Some (brk s), s')" "pay s' = (pay s)(brk s \<mapsto> ?p)"
    "oom s' = oom s" "cell s' = (cell s)(brk s \<mapsto> fresh_value 0 ?p)"
    "\<forall>R. owns R s \<longrightarrow> owns (add_mset (brk s) R) s'"
    using construct_mem [OF assms(2), of ?p 3 0] by auto
  have "strings_at s' (brk s) []" using s'(4) by (simp add: strings_at_def fresh_value_def)
  moreover have "pay s (brk s) = None" by (simp add: pay_def cell_def)
  ultimately show thesis
    using that s' assms(1) by (simp add: value_array_def value_array_with_capacity_def)
qed

lemma item_bytes_str: "is_str s x p \<Longrightarrow> item_bytes p s = Some x"
  by (auto simp: is_str_def item_bytes_def with_string_def pay_Some string_of_def)

lemma join_copy_strings: "list_all2 (is_str s) xs ps \<Longrightarrow> join_copy ps sep s = Some (join_strings sep xs)"
proof (induction xs ps rule: list_all2_induct)
  case (Cons x xs p ps)
  then show ?case by (cases xs; cases ps) (auto simp: item_bytes_str)
qed simp

lemma join_total_strings:
  "list_all2 (is_str s) xs ps \<Longrightarrow> n + length (join_strings sep xs) \<le> size_max \<Longrightarrow>
     join_total n ps (length sep) s = Some (n + length (join_strings sep xs))"
proof (induction xs ps arbitrary: n rule: list_all2_induct)
  case (Cons x xs p ps)
  show ?case
  proof (cases xs)
    case Nil
    then show ?thesis using Cons by (auto simp: item_bytes_str)
  next
    case (Cons y ys)
    then have ne: "ps \<noteq> []" "xs \<noteq> []" using \<open>list_all2 (is_str s) xs ps\<close> by auto
    let ?m = "n + length x + length sep"
    have "?m + length (join_strings sep xs) \<le> size_max"
      using Cons.prems ne by (simp add: join_strings_Cons)
    then have "join_total ?m ps (length sep) s = Some (?m + length (join_strings sep xs))"
      using Cons.IH by blast
    then show ?thesis
      using ne Cons.hyps(1) Cons.prems by (simp add: item_bytes_str join_strings_Cons)
  qed
qed simp

lemma is_str_cong: "pay s' = pay s \<Longrightarrow> is_str s' = is_str s"
  by (simp add: is_str_def fun_eq_iff)

lemma string_join_mem:
  assumes x: "strings_at s a xs" and ne: "xs \<noteq> []" and mem: "\<forall>k. \<not> oom s k"
    and len: "length (join_strings (cstr sep) xs) < size_max"
  obtains t s' where "string_join (Some a) (Some sep) s = Some (Some t, s')"
    "pay s' t = Some (VString (string_of (join_strings (cstr sep) xs)))" "\<forall>R. owns R s \<longrightarrow> owns (add_mset t R) s'"
proof -
  obtain w arr where w: "cell s a = Some w" "v_as w = VArray arr" "list_all2 (is_str s) xs (a_items arr)"
    using x by (auto simp: strings_at_def)
  let ?j = "join_strings (cstr sep) xs"
  let ?s = "s\<lparr>allocs := Suc (allocs s)\<rparr>"
  have ne': "a_items arr \<noteq> []" using ne w(3) by auto
  have tot: "join_total 0 (a_items arr) (strlen sep) s = Some (length ?j)"
    using join_total_strings [OF w(3), of 0 "cstr sep"] len by (simp add: strlen_def)
  have "list_all2 (is_str ?s) xs (a_items arr)" using w(3) is_str_cong [of ?s s] by simp
  then have copy: "join_copy (a_items arr) (cstr sep) ?s = Some ?j" by (simp add: join_copy_strings)
  have mem': "\<forall>k. \<not> oom ?s k" using mem by simp
  obtain s' where s': "value_string_n ?j (length ?j) ?s = (Some (brk ?s), s')"
    "pay s' = (pay ?s)(brk ?s \<mapsto> VString (string_of (take (length ?j) ?j)))"
    "\<forall>R. owns R ?s \<longrightarrow> owns (add_mset (brk ?s) R) s'"
    using value_string_n_mem [OF mem', of "length ?j" ?j] by (metis order_refl)
  have "string_join (Some a) (Some sep) s = Some (Some (brk s), s')"
    using w ne' tot copy mem s'(1) len by (simp add: string_join_def agim_alloc_def)
  then show thesis using that s'(2,3) by simp
qed

text \<open>
  C17. Splitting and joining are inverse: splitting a string at a delimiter that is not empty gives
  an array of the pieces between the occurrences of the delimiter, taken from left to right, none
  of which contains the delimiter, and joining the pieces with that delimiter gives back the
  string, bytes and hash. Both operations see a string up to its first zero byte only: what is
  split is \<open>cstr (s_data x)\<close>, which for a string without zero bytes is the whole of it. With memory
  available neither step writes outside its buffers or uses freed memory, and afterwards the
  reference counts account for the pieces array and the joined string.
\<close>

theorem string_split_join:
  assumes o: "owns R s" and v: "pay s v = Some (VString x)" and mem: "\<forall>k. \<not> oom s k"
    and len: "length (s_data x) < 2 ^ 59" and d: "cstr delim \<noteq> []"
  shows "\<exists>ps a s' t s''. string_split (Some v) (Some delim) s = Some (Some a, s') \<and> strings_at s' a ps
    \<and> ps = split_pieces (cstr (s_data x)) (cstr delim) \<and> (\<forall>p \<in> set ps. \<forall>u w. p \<noteq> u @ cstr delim @ w)
    \<and> string_join (Some a) (Some delim) s' = Some (Some t, s'')
    \<and> pay s'' t = Some (VString (string_of (cstr (s_data x)))) \<and> owns (add_mset t (add_mset a R)) s''"
proof -
  obtain a s1 where s1: "value_array s = (Some a, s1)" "strings_at s1 a []" "owns (add_mset a R) s1"
    "oom s1 = oom s" by (rule strings_at_new [OF o mem])
  let ?ps = "split_pieces (cstr (s_data x)) (cstr delim)"
  have m1: "\<forall>k. \<not> oom s1 k" using mem s1(4) by simp
  have cl: "length (cstr (s_data x)) < 2 ^ 59" using len length_cstr_le [of "s_data x"] by simp
  obtain s2 where s2: "split_loop (Some a) (s_data x) delim s1 = Some (Some a, s2)"
    "strings_at s2 a ?ps" "owns (add_mset a R) s2" "oom s2 = oom s1"
    using split_loop_mem [OF refl refl d s1(3,2) m1] cl by auto
  have "string_split (Some v) (Some delim) s = Some (Some a, s2)"
    using v s1(1) s2(1) d by (auto simp: pay_Some string_split_def with_string_def strlen_def)
  moreover have m2: "\<forall>k. \<not> oom s2 k" using m1 s2(4) by simp
  have l: "length (join_strings (cstr delim) ?ps) < size_max" using cl by (simp add: join_split size_max_def)
  obtain t s3 where "string_join (Some a) (Some delim) s2 = Some (Some t, s3)"
    "pay s3 t = Some (VString (string_of (join_strings (cstr delim) ?ps)))" "\<forall>R. owns R s2 \<longrightarrow> owns (add_mset t R) s3"
    by (rule string_join_mem [OF s2(2) split_pieces_ne m2 l])
  moreover have "\<forall>p \<in> set ?ps. \<forall>u w. p \<noteq> u @ cstr delim @ w" using split_pieces_free [OF d] by blast
  ultimately show ?thesis using s2(2,3) by (auto simp: join_split)
qed

theorem string_split_join_witness:
  "\<exists>a s' t s''. string_split (Some 0) (Some '','') (store_of [fresh_value 2 (VString (string_of ''a,b,,c''))])
      = Some (Some a, s') \<and> strings_at s' a [''a'', ''b'', [], ''c'']
    \<and> string_join (Some a) (Some '','') s' = Some (Some t, s'')
    \<and> pay s'' t = Some (VString (string_of ''a,b,,c'')) \<and> owns {#t, a, 0#} s''"
proof -
  let ?vs = "[fresh_value 2 (VString (string_of ''a,b,,c''))]"
  have "owns {#0#} (store_of ?vs)" by (rule owns_store_of) (simp_all add: store_eval)
  moreover have "pay (store_of ?vs) 0 = Some (VString (string_of ''a,b,,c''))"
    by (simp add: pay_store_of fresh_value_def)
  moreover have "split_pieces ''a,b,,c'' '','' = [''a'', ''b'', [], ''c'']" by (simp add: split_pieces.simps)
  ultimately show ?thesis
    using string_split_join [of "{#0#}" "store_of ?vs" 0 "string_of ''a,b,,c''" "'',''"]
    by (simp add: string_of_def cstr_def) blast
qed

subsection \<open>Replacing\<close>

lemma length_join_strings:
  "xs \<noteq> [] \<Longrightarrow> length (join_strings sep xs) = (\<Sum>x\<leftarrow>xs. length x) + (length xs - 1) * length sep"
proof (induction sep xs rule: join_strings.induct)
  case (3 sep x y xs)
  then show ?case by (simp add: algebra_simps)
qed simp_all

lemma replace_loops:
  assumes "str = cstr src" "d = cstr old" "d \<noteq> []"
  shows "replace_copy src old new = join_strings (cstr new) (split_pieces str d)
    \<and> replace_count src old = length (split_pieces str d) - 1"
  using assms
proof (induction str d arbitrary: src rule: split_pieces.induct)
  case (1 str d)
  note prems = "1.prems"
  show ?case
  proof (cases "find_sub d str")
    case None
    then show ?thesis using prems
      by (simp add: replace_copy.simps [of src] replace_count.simps [of src] split_pieces.simps [of "cstr src"] strstr_def)
  next
    case (Some pos)
    let ?rest = "drop (pos + length d) str" and ?src = "drop (pos + length d) src"
    have b: "pos + length d \<le> length str" by (rule find_sub_bounds [OF Some])
    have "?rest = cstr ?src" using cstr_drop [of "pos + length d" src] b prems(1) by simp
    then have IH: "replace_copy ?src old new = join_strings (cstr new) (split_pieces ?rest d)"
      "replace_count ?src old = length (split_pieces ?rest d) - 1"
      using "1.IH" [OF prems(3) Some _ prems(2,3)] by blast+
    have "length (split_pieces ?rest d) \<noteq> 0" by simp
    moreover have "split_pieces str d = take pos str # split_pieces ?rest d"
      using Some prems(3) by (simp add: split_pieces.simps [of str])
    moreover have "take pos src = take pos str" using take_cstr [of pos src] b prems(1) by simp
    moreover have "replace_copy src old new = take pos src @ cstr new @ replace_copy ?src old new"
      "replace_count src old = Suc (replace_count ?src old)"
      using Some prems
      by (simp_all add: replace_copy.simps [of src] replace_count.simps [of src] strstr_def strlen_def)
    ultimately show ?thesis using IH by (simp add: join_strings_Cons)
  qed
qed

lemma replace_len_exact:
  fixes str :: string
  assumes "old \<noteq> []" and "length str + k \<le> size_max" and "length (join_strings new (split_pieces str old)) + k \<le> size_max"
  shows "replace_len (length str + k) (length (split_pieces str old) - 1) (length old) (length new)
    = Some (length (join_strings new (split_pieces str old)) + k)"
proof -
  let ?ps = "split_pieces str old"
  let ?n = "length ?ps - 1" and ?S = "\<Sum>x\<leftarrow>?ps. length x"
  have l: "length str = ?S + ?n * length old"
    using length_join_strings [of ?ps old] by (simp add: join_split)
  have j: "length (join_strings new ?ps) = ?S + ?n * length new"
    by (rule length_join_strings) simp
  show ?thesis
  proof (cases "length old \<le> length new")
    case True
    let ?d = "length new - length old"
    have e: "?S + ?n * length new = length str + ?n * ?d"
      using l True by (simp add: diff_mult_distrib2)
    have "?n * ?d \<le> size_max" using e j assms(3) by simp
    then have "0 < ?d \<longrightarrow> ?n \<le> size_max div ?d" by (simp add: less_eq_div_iff_mult_less_eq)
    then show ?thesis
      using True e j assms(3) by (auto simp: replace_len_def Let_def)
  next
    case False
    let ?d = "length old - length new"
    have e: "length str = ?S + ?n * length new + ?n * ?d"
      using l False by (simp add: diff_mult_distrib2)
    then have "?n * ?d \<le> size_max" using assms(2) by simp
    then have "sz (?n * ?d) = ?n * ?d" by simp
    moreover have "length str + k + 2 ^ 64 - ?n * ?d = ?S + ?n * length new + k + 2 ^ 64" using e by simp
    moreover have "sz (?S + ?n * length new + k + 2 ^ 64) = sz (?S + ?n * length new + k)" by (simp add: sz_def)
    ultimately show ?thesis using False j assms(3) by (simp add: replace_len_def Let_def)
  qed
qed

text \<open>
  C18. Replacement: for strings without zero bytes, \<open>string_replace\<close> gives the string in which the
  occurrences of the old string, taken from left to right without overlap, are replaced by the
  new one. The length computed in advance is exact in the growing and in the shrinking case, so
  the copy neither overruns the buffer nor leaves bytes of the result uninitialised.
\<close>

theorem string_replace_correct:
  assumes o: "owns R s" and v: "pay s v = Some (VString x)" and mem: "\<forall>k. \<not> oom s k"
    and x: "nul_free (s_data x)" and nf: "nul_free old" "nul_free new"
    and len: "length (s_data x) < size_max"
    and len': "length (join_strings new (split_pieces (s_data x) old)) < size_max"
  shows "\<exists>t s'. string_replace (Some v) (Some old) (Some new) s = Some (Some t, s')
    \<and> pay s' t = Some (VString (string_of (join_strings new (split_pieces (s_data x) old))))
    \<and> owns (add_mset t R) s'"
proof -
  let ?str = "s_data x"
  let ?ps = "split_pieces ?str old"
  let ?r = "join_strings new ?ps"
  have make: "\<exists>t s'. value_string_n b n s0 = (Some t, s') \<and> pay s' t = Some (VString (string_of (take n b)))
      \<and> owns (add_mset t R) s'" if n: "n \<le> length b" and s0: "owns R s0" "\<forall>k. \<not> oom s0 k" for n b s0
    using value_string_n_mem [OF s0(2) n] s0(1) by (metis fun_upd_same)
  show ?thesis
  proof (cases "old = [] \<or> length ?ps - 1 = 0")
    case True
    have "?ps = [?str]"
    proof (cases "old = []")
      case False
      then have "find_sub old ?str = None"
        using True by (simp add: split_pieces.simps [of ?str] split: option.splits)
      then show ?thesis by (simp add: split_pieces.simps [of ?str])
    qed (simp add: split_pieces.simps)
    moreover have "string_replace (Some v) (Some old) (Some new) s = Some (value_string_n ?str (length ?str) s)"
      using True v nf replace_loops [of ?str ?str old old new] x
      by (auto simp: pay_Some string_replace_def with_string_def strlen_def Let_def)
    ultimately show ?thesis using make [of "length ?str" ?str s] o mem by auto
  next
    case False
    let ?s = "s\<lparr>allocs := Suc (allocs s)\<rparr>"
    have l: "replace_len (length ?str) (length ?ps - 1) (length old) (length new) = Some (length ?r)"
      using replace_len_exact [of old ?str 0 new] False len len' by simp
    have "string_replace (Some v) (Some old) (Some new) s = Some (value_string_n (?r @ [NUL]) (length ?r) ?s)"
      using False v nf replace_loops [of ?str ?str old old new] x l mem len'
      by (auto simp: pay_Some string_replace_def with_string_def strlen_def agim_alloc_def Let_def)
    moreover have "\<exists>t s'. value_string_n (?r @ [NUL]) (length ?r) ?s = (Some t, s')
        \<and> pay s' t = Some (VString (string_of (take (length ?r) (?r @ [NUL])))) \<and> owns (add_mset t R) s'"
      by (rule make) (use o mem in simp_all)
    ultimately show ?thesis by auto
  qed
qed

theorem string_replace_correct_witness:
  "\<exists>t s'. string_replace (Some 0) (Some ''aa'') (Some ''b'') (store_of [fresh_value 2 (VString (string_of ''aaa-aa''))])
      = Some (Some t, s') \<and> pay s' t = Some (VString (string_of ''ba-b''))"
proof -
  let ?vs = "[fresh_value 2 (VString (string_of ''aaa-aa''))]"
  have "owns {#0#} (store_of ?vs)" by (rule owns_store_of) (simp_all add: store_eval)
  moreover have "pay (store_of ?vs) 0 = Some (VString (string_of ''aaa-aa''))"
    by (simp add: pay_store_of fresh_value_def)
  moreover have "split_pieces ''aaa-aa'' ''aa'' = [] # ''a-'' # [] # []"
    by (simp add: split_pieces.simps)
  ultimately show ?thesis
    using string_replace_correct [of "{#0#}" "store_of ?vs" 0 "string_of ''aaa-aa''" "''aa''" "''b''"]
    by (auto simp: string_of_def nul_free_def size_max_def)
qed

text \<open>
  C20. Replacement and embedded zero bytes: the length of the result is computed from the stored
  length of the string, while counting and copying stop at its first zero byte. With memory
  available and a result that fits \<^verbatim>\<open>size_t\<close>, \<open>string_replace\<close> makes its result from uninitialised
  bytes of the buffer exactly when the old string occurs before the first zero byte and at least
  one byte follows that zero byte.
\<close>

theorem string_replace_embedded_nul:
  assumes v: "pay s v = Some (VString x)" and mem: "\<forall>k. \<not> oom s k" and old: "cstr old \<noteq> []"
    and len: "length (s_data x) < size_max"
    and len': "length (join_strings (cstr new) (split_pieces (cstr (s_data x)) (cstr old)))
      + (length (s_data x) - strlen (s_data x)) < size_max"
  shows "string_replace (Some v) (Some old) (Some new) s = None
    \<longleftrightarrow> strstr (s_data x) old \<noteq> None \<and> strlen (s_data x) + 1 < length (s_data x)"
proof -
  let ?str = "s_data x"
  let ?ps = "split_pieces (cstr ?str) (cstr old)"
  let ?r = "join_strings (cstr new) ?ps"
  let ?k = "length ?str - strlen ?str"
  have loops: "replace_copy ?str old new = ?r" "replace_count ?str old = length ?ps - 1"
    using replace_loops [OF refl refl old] by blast+
  have k: "strlen ?str + ?k = length ?str" using length_cstr_le [of ?str] by (simp add: strlen_def)
  show ?thesis
  proof (cases "strstr ?str old")
    case None
    then have "length ?ps - 1 = 0" using old by (simp add: strstr_def split_pieces.simps [of "cstr ?str"])
    then have "string_replace (Some v) (Some old) (Some new) s = Some (value_string_n ?str (length ?str) s)"
      using v loops by (auto simp: pay_Some string_replace_def with_string_def Let_def)
    then show ?thesis using None by simp
  next
    case (Some i)
    then have n: "length ?ps - 1 \<noteq> 0" using old by (simp add: strstr_def split_pieces.simps [of "cstr ?str"])
    have ln: "replace_len (length ?str) (length ?ps - 1) (strlen old) (strlen new) = Some (length ?r + ?k)"
      using replace_len_exact [OF old, of "cstr ?str" ?k "cstr new"] len len' k by (simp add: strlen_def)
    have "strlen old \<noteq> 0" using old by (simp add: strlen_def)
    then have "string_replace (Some v) (Some old) (Some new) s = None \<longleftrightarrow> length ?r + 1 < length ?r + ?k"
      using v loops n ln mem len'
      by (auto simp: pay_Some string_replace_def with_string_def agim_alloc_def Let_def split: if_splits)
    then show ?thesis using Some k by auto
  qed
qed

theorem string_replace_embedded_nul_witness:
  "string_replace (Some 0) (Some ''a'') (Some ''b'')
     (store_of [fresh_value 2 (VString (string_of [CHR ''a'', NUL, CHR ''c'']))]) = None"
proof -
  let ?str = "[CHR ''a'', NUL, CHR ''c'']"
  let ?s = "store_of [fresh_value 2 (VString (string_of ?str))]"
  have "pay ?s 0 = Some (VString (string_of ?str))" by (simp add: pay_store_of fresh_value_def)
  moreover have "\<forall>k. \<not> oom ?s k" by (simp add: store_of_def)
  moreover have "split_pieces ''a'' ''a'' = [[], []]" by (simp add: split_pieces.simps)
  ultimately show ?thesis
    using string_replace_embedded_nul [of ?s 0 "string_of ?str" "''a''" "''b''"]
    by (simp add: string_of_def cstr_def strlen_def strstr_def size_max_def)
qed

subsection \<open>Interning\<close>

definition str_matches :: "store \<Rightarrow> string \<Rightarrow> ptr \<Rightarrow> bool" where
  "str_matches s str p \<longleftrightarrow> (\<exists>a x. p = Some a \<and> pay s a = Some (VString x) \<and> s_data x = str)"

text \<open>Every cached pointer is to a live value that is not being freed.\<close>

definition alive :: "store \<Rightarrow> addr \<Rightarrow> bool" where
  "alive s a \<longleftrightarrow> (\<exists>v. cell s a = Some v \<and> refcount v \<noteq> REFCOUNT_FREEING \<and> refcount v \<noteq> 0)"

definition cache_alive :: "intern_cache \<Rightarrow> store \<Rightarrow> bool" where
  "cache_alive cache s \<longleftrightarrow> (\<forall>i w a. cache i w = Some a \<longrightarrow> alive s a)"

lemma retain_alive:
  assumes "alive s a"
  obtains s' where "value_retain (Some a) s = Some (Some a, s')" "pay s' = pay s" "alive s' a"
proof -
  obtain v where v: "cell s a = Some v" "refcount v \<noteq> REFCOUNT_FREEING" "refcount v \<noteq> 0"
    using assms by (auto simp: alive_def)
  show thesis
  proof (cases "REFCOUNT_SATURATED \<le> refcount v")
    case True
    then show thesis using that [of s] v assms by (simp add: value_retain_def)
  next
    case False
    let ?n = "if REFCOUNT_SATURATED \<le> refcount v + 1 then REFCOUNT_SATURATED else refcount v + 1"
    let ?s = "put a (v\<lparr>refcount := ?n\<rparr>) s"
    have "unat (refcount v) < 4294967294"
      using False by (simp add: word_le_nat_alt REFCOUNT_SATURATED_def)
    then have "unat (refcount v + 1) = unat (refcount v) + 1" by (simp add: unat_word_ariths(1))
    moreover have "unat REFCOUNT_FREEING = 4294967295" by (simp add: REFCOUNT_FREEING_def)
    ultimately have "refcount v + 1 \<noteq> REFCOUNT_FREEING" "refcount v + 1 \<noteq> 0"
      using \<open>unat (refcount v) < 4294967294\<close> by auto
    moreover have "REFCOUNT_SATURATED \<noteq> REFCOUNT_FREEING" "REFCOUNT_SATURATED \<noteq> 0"
      by (simp_all add: REFCOUNT_SATURATED_def REFCOUNT_FREEING_def)
    ultimately have "?n \<noteq> REFCOUNT_FREEING" "?n \<noteq> 0" by (cases "REFCOUNT_SATURATED \<le> refcount v + 1"; simp)+
    then have "alive ?s a" using cell_SomeD [OF v(1)] by (simp add: alive_def cell_put)
    moreover have "pay ?s = pay s" using v(1) by (auto simp: pay_put fun_eq_iff) (simp add: pay_def)
    moreover have "value_retain (Some a) s = Some (Some a, ?s)" using v False by (simp add: value_retain_def Let_def)
    ultimately show thesis using that by blast
  qed
qed

lemma intern_search_miss:
  assumes "\<forall>a. Some a \<in> set ps \<longrightarrow> pay s a \<noteq> None" and "\<forall>p \<in> set ps. \<not> str_matches s str p"
  shows "intern_search ps str s = Some (None, s)"
  using assms
proof (induction ps)
  case (Cons p ps)
  show ?case
  proof (cases p)
    case (Some a)
    then obtain v where "cell s a = Some v" using Cons.prems by (auto simp: pay_def)
    then show ?thesis using Cons Some
      by (auto simp: str_matches_def pay_def split: payload.splits)
  qed (use Cons in simp)
qed simp

lemma intern_search_hit:
  assumes "\<forall>a. Some a \<in> set ps \<longrightarrow> pay s a \<noteq> None" and "find (str_matches s str) ps = Some (Some a)"
    and "value_retain (Some a) s = Some (Some a, s')"
  shows "intern_search ps str s = Some (Some a, s')"
  using assms
proof (induction ps)
  case (Cons p ps)
  show ?case
  proof (cases p)
    case None
    then show ?thesis using Cons by (simp add: str_matches_def)
  next
    case (Some b)
    then obtain v where v: "cell s b = Some v" using Cons.prems(1) by (auto simp: pay_def)
    show ?thesis
    proof (cases "str_matches s str p")
      case True
      then have "b = a" using Cons.prems(2) Some by simp
      then show ?thesis using True v Some Cons.prems(3) by (auto simp: str_matches_def pay_def)
    next
      case False
      then show ?thesis using Cons Some v by (auto simp: str_matches_def pay_def split: payload.splits)
    qed
  qed
qed simp

lemma str_matches_cong: "pay s' = pay s \<Longrightarrow> str_matches s' str = str_matches s str"
  by (simp add: str_matches_def fun_eq_iff)

lemma release_cells:
  assumes "cell s b = Some v"
  obtains s' where "value_release (Some b) s = Some s'" "pay s' = pay s"
    "\<forall>a. a \<noteq> b \<longrightarrow> cell s' a = cell s a"
proof (cases "refcount v = REFCOUNT_FREEING \<or> refcount v = REFCOUNT_SATURATED \<or> refcount v = 0")
  case True
  then show thesis using that [of s] assms by (auto simp: value_release_def)
next
  case False
  let ?s = "put b (v\<lparr>refcount := refcount v - 1\<rparr>) s"
  have "pay ?s = pay s" using assms by (auto simp: pay_put fun_eq_iff) (simp add: pay_def)
  moreover have "value_release (Some b) s = Some ?s" using assms False by (simp add: value_release_def Let_def)
  ultimately show thesis using that [of ?s] cell_SomeD [OF assms] by (simp add: cell_put)
qed

lemma find_unique:
  "y \<in> set xs \<Longrightarrow> P y \<Longrightarrow> \<forall>x \<in> set xs. P x \<longrightarrow> x = y \<Longrightarrow> find P xs = Some y"
proof (induction xs)
  case (Cons z zs)
  show ?case
  proof (cases "P z")
    case True
    then have "z = y" using Cons.prems(3) by (meson list.set_intros(1))
    then show ?thesis using True by simp
  next
    case False
    then have "y \<in> set zs" using Cons.prems(1,2) by auto
    moreover have "\<forall>x \<in> set zs. P x \<longrightarrow> x = y" using Cons.prems(3) by (meson list.set_intros(2))
    ultimately have "find P zs = Some y" using Cons.IH Cons.prems(2) by blast
    then show ?thesis using False by simp
  qed
qed simp

definition intern_ways :: "intern_cache \<Rightarrow> string \<Rightarrow> ptr list" where
  "intern_ways cache str =
     map (cache (unat (agim_hash_string str (length str)) mod INTERN_CACHE_SETS)) [0..<INTERN_CACHE_WAYS]"

lemma intern_ways_update:
  assumes "i = unat (agim_hash_string str (length str)) mod INTERN_CACHE_SETS" and "w < INTERN_CACHE_WAYS"
  shows "Some a \<in> set (intern_ways (cache(i := (cache i)(w := Some a))) str)"
    and "set (intern_ways (cache(i := (cache i)(w := Some a))) str) \<subseteq> insert (Some a) (set (intern_ways cache str))"
  using assms by (auto simp: intern_ways_def)

lemma string_intern_found:
  assumes "n \<le> length str" and live: "\<forall>a. Some a \<in> set (intern_ways cache (take n str)) \<longrightarrow> pay s a \<noteq> None"
    and "find (str_matches s (take n str)) (intern_ways cache (take n str)) = Some (Some a)" and "alive s a"
  obtains s' where "string_intern raced (Some str) n cache s = Some (Some a, cache, s')"
    "pay s' = pay s" "alive s' a"
proof -
  obtain s' where s': "value_retain (Some a) s = Some (Some a, s')" "pay s' = pay s" "alive s' a"
    by (rule retain_alive [OF assms(4)])
  have "intern_search (intern_ways cache (take n str)) (take n str) s = Some (Some a, s')"
    by (rule intern_search_hit [OF live assms(3) s'(1)])
  then have "string_intern raced (Some str) n cache s = Some (Some a, cache, s')"
    using assms(1) by (simp add: string_intern_def intern_ways_def Let_def min_absorb2)
  then show thesis using that s' by blast
qed

lemma string_intern_new:
  assumes n: "n \<le> length str" and al: "cache_alive cache s" and mem: "\<forall>k. \<not> oom s k"
    and miss: "\<forall>p \<in> set (intern_ways cache (take n str)). \<not> str_matches s (take n str) p"
  obtains cache' s' where "string_intern False (Some str) n cache s = Some (Some (brk s), cache', s')"
    "pay s' = (pay s)(brk s \<mapsto> VString (string_of (take n str)))" "alive s' (brk s)"
    "Some (brk s) \<in> set (intern_ways cache' (take n str))"
    "set (intern_ways cache' (take n str)) \<subseteq> insert (Some (brk s)) (set (intern_ways cache (take n str)))"
proof -
  let ?t = "take n str" and ?a = "brk s"
  let ?h = "agim_hash_string ?t n"
  let ?i = "unat ?h mod INTERN_CACHE_SETS" and ?w = "unat (drop_bit 8 ?h) mod INTERN_CACHE_WAYS"
  let ?c = "cache(?i := (cache ?i)(?w := Some ?a))"
  have ln: "length ?t = n" using n by simp
  have live: "\<forall>b. Some b \<in> set (intern_ways cache ?t) \<longrightarrow> pay s b \<noteq> None"
    using al by (auto simp: intern_ways_def cache_alive_def alive_def pay_def) (metis option.simps(3))
  have "intern_search (intern_ways cache ?t) ?t s = Some (None, s)"
    by (rule intern_search_miss [OF live miss])
  then have srch: "intern_search (map (cache ?i) [0..<INTERN_CACHE_WAYS]) ?t s = Some (None, s)"
    by (simp only: intern_ways_def ln)
  obtain s1 where s1: "value_string_n ?t n s = (Some ?a, s1)"
    "pay s1 = (pay s)(?a \<mapsto> VString (string_of (take n ?t)))"
    "cell s1 = (cell s)(?a \<mapsto> fresh_value VALUE_IMMUTABLE (VString (string_of (take n ?t))))"
    using value_string_n_mem [OF mem, of n ?t] ln by (metis order_refl)
  have "alive s1 ?a" using s1(3) by (simp add: alive_def fresh_value_def REFCOUNT_FREEING_def)
  then obtain s2 where s2: "value_retain (Some ?a) s1 = Some (Some ?a, s2)" "pay s2 = pay s1" "alive s2 ?a"
    by (rule retain_alive)
  have e: "string_intern False (Some str) n cache s =
      (if cache ?i ?w = None then Some (Some ?a, ?c, s2)
       else do {s \<leftarrow> value_release (cache ?i ?w) s2; Some (Some ?a, ?c, s)})"
    using srch s1(1) s2(1) by (simp add: string_intern_def Let_def)
  have "\<exists>s3. string_intern False (Some str) n cache s = Some (Some ?a, ?c, s3) \<and> pay s3 = pay s2 \<and> alive s3 ?a"
  proof (cases "cache ?i ?w")
    case None
    then show ?thesis using e s2 by simp
  next
    case (Some b)
    then obtain v where v: "cell s b = Some v" using al by (auto simp: cache_alive_def alive_def) blast
    then have ba: "b \<noteq> ?a" using cell_SomeD by blast
    have "pay s2 b \<noteq> None" using s2(2) s1(2) v ba by (simp add: pay_def)
    then obtain v2 where "cell s2 b = Some v2" by (auto simp: pay_def)
    then obtain s3 where "value_release (Some b) s2 = Some s3" "pay s3 = pay s2" "\<forall>a. a \<noteq> b \<longrightarrow> cell s3 a = cell s2 a"
      by (rule release_cells)
    then show ?thesis using e Some s2(3) ba by (simp add: alive_def)
  qed
  then obtain s3 where s3: "string_intern False (Some str) n cache s = Some (Some ?a, ?c, s3)"
    "pay s3 = pay s2" "alive s3 ?a" by blast
  have "?w < INTERN_CACHE_WAYS" by (simp add: INTERN_CACHE_WAYS_def)
  moreover have "?i = unat (agim_hash_string ?t (length ?t)) mod INTERN_CACHE_SETS" by (simp only: ln)
  ultimately have "Some ?a \<in> set (intern_ways ?c ?t)"
    "set (intern_ways ?c ?t) \<subseteq> insert (Some ?a) (set (intern_ways cache ?t))"
    using intern_ways_update by blast+
  moreover have "pay s3 = (pay s)(?a \<mapsto> VString (string_of ?t))" using s3(2) s2(2) s1(2) by simp
  ultimately show thesis using that [OF s3(1) _ s3(3)] by simp
qed

text \<open>
  C19. Interning is stable: with a sound cache and memory available, interning a string gives a
  value holding exactly its bytes, and interning the same bytes again gives the same value,
  whether the first call found it in the cache or entered it, possibly evicting another string.
\<close>

theorem string_intern_stable:
  assumes al: "cache_alive cache s" and mem: "\<forall>k. \<not> oom s k" and n: "n \<le> length str"
  shows "\<exists>a x cache' s'. string_intern False (Some str) n cache s = Some (Some a, cache', s')
    \<and> pay s' a = Some (VString x) \<and> s_data x = take n str
    \<and> (\<exists>s''. string_intern raced (Some str) n cache' s' = Some (Some a, cache', s''))"
proof -
  let ?t = "take n str"
  have live: "\<forall>b. Some b \<in> set (intern_ways cache ?t) \<longrightarrow> alive s b"
    using al by (auto simp: intern_ways_def cache_alive_def)
  then have live': "\<forall>b. Some b \<in> set (intern_ways cache ?t) \<longrightarrow> pay s b \<noteq> None"
    by (auto simp: alive_def pay_def)
  show ?thesis
  proof (cases "find (str_matches s ?t) (intern_ways cache ?t)")
    case (Some p)
    then have "p \<in> set (intern_ways cache ?t)" "str_matches s ?t p" by (metis find_Some_iff nth_mem)+
    then obtain a x where a: "p = Some a" "pay s a = Some (VString x)" "s_data x = ?t" "p \<in> set (intern_ways cache ?t)"
      by (auto simp: str_matches_def)
    have f: "find (str_matches s ?t) (intern_ways cache ?t) = Some (Some a)" using Some a(1) by simp
    have "alive s a" using live a by blast
    then obtain s1 where s1: "string_intern False (Some str) n cache s = Some (Some a, cache, s1)"
      "pay s1 = pay s" "alive s1 a" by (rule string_intern_found [OF n live' f])
    obtain s2 where "string_intern raced (Some str) n cache s1 = Some (Some a, cache, s2)"
      by (rule string_intern_found [OF n _ _ s1(3)]) (use live' f s1(2) str_matches_cong [OF s1(2)] in simp_all)
    then show ?thesis using s1 a by auto
  next
    case None
    then have miss: "\<forall>p \<in> set (intern_ways cache ?t). \<not> str_matches s ?t p" by (auto simp: find_None_iff)
    obtain cache' s' where s': "string_intern False (Some str) n cache s = Some (Some (brk s), cache', s')"
      "pay s' = (pay s)(brk s \<mapsto> VString (string_of ?t))" "alive s' (brk s)"
      "Some (brk s) \<in> set (intern_ways cache' ?t)"
      "set (intern_ways cache' ?t) \<subseteq> insert (Some (brk s)) (set (intern_ways cache ?t))"
      by (rule string_intern_new [OF n al mem miss])
    have old: "\<not> str_matches s' ?t q" "pay s' b \<noteq> None"
      if "q \<in> set (intern_ways cache' ?t)" "q \<noteq> Some (brk s)" "q = Some b" for q b
    proof -
      have q: "q \<in> set (intern_ways cache ?t)" "b \<noteq> brk s" using that s'(5) by auto
      then show "\<not> str_matches s' ?t q" using miss s'(2) that(3) by (auto simp: str_matches_def)
      show "pay s' b \<noteq> None" using live' q that(3) s'(2) by simp
    qed
    have f: "find (str_matches s' ?t) (intern_ways cache' ?t) = Some (Some (brk s))"
    proof (rule find_unique [OF s'(4)])
      show "str_matches s' ?t (Some (brk s))" using s'(2) by (simp add: str_matches_def string_of_def)
      show "\<forall>x \<in> set (intern_ways cache' ?t). str_matches s' ?t x \<longrightarrow> x = Some (brk s)"
        using old(1) by (auto simp: str_matches_def)
    qed
    have l: "\<forall>b. Some b \<in> set (intern_ways cache' ?t) \<longrightarrow> pay s' b \<noteq> None"
      using old(2) s'(2) by (metis fun_upd_apply option.discI option.inject)
    obtain s'' where "string_intern raced (Some str) n cache' s' = Some (Some (brk s), cache', s'')"
      by (rule string_intern_found [OF n l f s'(3)])
    moreover have "pay s' (brk s) = Some (VString (string_of ?t))" "s_data (string_of ?t) = ?t"
      using s'(2) by (simp_all add: string_of_def)
    ultimately show ?thesis using s'(1) by blast
  qed
qed

theorem string_intern_stable_witness:
  "\<exists>a x cache' s'. string_intern False (Some ''key'') 3 (\<lambda>_ _. None) (store_of []) = Some (Some a, cache', s')
    \<and> pay s' a = Some (VString x) \<and> s_data x = ''key''
    \<and> (\<exists>s''. string_intern True (Some ''key'') 3 cache' s' = Some (Some a, cache', s''))"
  using string_intern_stable [of "\<lambda>_ _. None" "store_of []" 3 "''key''" True]
  by (simp add: cache_alive_def)

end
