(* ===== verification/MapType.thy ===== *)
theory MapType
  imports StringType
begin

text \<open>
  The hash map of \<^verbatim>\<open>types/map.c\<close>: separate chaining over buckets, growth at a load factor of
  0.7, the bound on the chain a lookup follows, and copy-on-write. A chain is the list of its
  entries in the order of the \<^verbatim>\<open>next\<close> pointers; the capacity is the number of buckets.
\<close>

subsection \<open>Creation and properties\<close>

definition value_map_with_capacity :: "nat \<Rightarrow> store \<Rightarrow> ptr \<times> store" where
  "value_map_with_capacity capacity s =
     construct 3 0 (VMap \<lparr>m_size = 0,
       m_buckets = replicate (if 0 < capacity then capacity else 16) []\<rparr>) s"

definition value_map :: "store \<Rightarrow> ptr \<times> store" where
  "value_map s = value_map_with_capacity 16 s"

definition map_size :: "ptr \<Rightarrow> store \<Rightarrow> nat option" where
  "map_size = peek 0 (\<lambda>p. case p of VMap m \<Rightarrow> m_size m | _ \<Rightarrow> 0)"

definition map_capacity :: "ptr \<Rightarrow> store \<Rightarrow> nat option" where
  "map_capacity = peek 0 (\<lambda>p. case p of VMap m \<Rightarrow> length (m_buckets m) | _ \<Rightarrow> 0)"

subsection \<open>Buckets\<close>

definition MAP_MAX_CHAIN_DEPTH :: nat where "MAP_MAX_CHAIN_DEPTH = 16"

definition bucket_index :: "u64 \<Rightarrow> nat \<Rightarrow> nat" where
  "bucket_index h capacity = unat h mod capacity"

definition entry_matches :: "string \<Rightarrow> u64 \<Rightarrow> MapEntry \<Rightarrow> bool" where
  "entry_matches key key_hash e \<longleftrightarrow> s_hash (e_key e) = key_hash \<and> strcmp (s_data (e_key e)) key = 0"

definition find_entry_internal :: "Map \<Rightarrow> string \<Rightarrow> u64 \<Rightarrow> MapEntry option" where
  "find_entry_internal m key key_hash =
     find (entry_matches key key_hash)
       (take MAP_MAX_CHAIN_DEPTH (m_buckets m ! bucket_index key_hash (length (m_buckets m))))"

definition chain_depth_at :: "Map \<Rightarrow> nat \<Rightarrow> nat" where
  "chain_depth_at m index = length (m_buckets m ! index)"

definition add_entry :: "MapEntry \<Rightarrow> MapEntry list list \<Rightarrow> MapEntry list list" where
  "add_entry e bs =
     (let i = bucket_index (s_hash (e_key e)) (length bs) in bs[i := e # bs ! i])"

definition rehash :: "MapEntry list list \<Rightarrow> nat \<Rightarrow> MapEntry list list" where
  "rehash bs new_capacity = foldl (\<lambda>nb e. add_entry e nb) (replicate new_capacity []) (concat bs)"

definition map_resize :: "Map \<Rightarrow> nat \<Rightarrow> store \<Rightarrow> Map \<times> store" where
  "map_resize m new_capacity s =
     (let (ok, s) = agim_alloc s
      in if \<not> ok then (m, s) else (m\<lparr>m_buckets := rehash (m_buckets m) new_capacity\<rparr>, s))"

subsection \<open>Copy-on-write\<close>

text \<open>
  Copying a chain allocates an entry and its key per entry and retains its value; the first
  component tells whether all allocations succeeded.
\<close>

fun clone_chain :: "MapEntry list \<Rightarrow> store \<Rightarrow> (bool \<times> MapEntry list \<times> store) option" where
  "clone_chain [] s = Some (True, [], s)"
| "clone_chain (e # es) s =
     (let (ok, s) = allocs_ok 2 s
      in if \<not> ok then Some (False, [], s)
         else do {
           (v, s) \<leftarrow> value_retain (e_value e) s;
           (ok, es, s) \<leftarrow> clone_chain es s;
           Some (ok, e\<lparr>e_value := v\<rparr> # es, s)})"

fun clone_buckets :: "MapEntry list list \<Rightarrow> store \<Rightarrow> (bool \<times> MapEntry list list \<times> store) option" where
  "clone_buckets [] s = Some (True, [], s)"
| "clone_buckets (b # bs) s = do {
     (ok, b, s) \<leftarrow> clone_chain b s;
     if \<not> ok then Some (False, b # map (\<lambda>_. []) bs, s)
     else do {
       (ok, bs, s) \<leftarrow> clone_buckets bs s;
       Some (ok, b # bs, s)}}"

definition map_ensure_writable :: "addr \<Rightarrow> store \<Rightarrow> (ptr \<times> store) option" where
  "map_ensure_writable a s = do {
     v \<leftarrow> cell s a;
     (case v_as v of
        VMap old \<Rightarrow>
          if \<not> 1 < refcount v then Some (Some a, s)
          else let (ok, s) = allocs_ok 3 s
               in if \<not> ok then Some (None, s)
                  else do {
                    (ok, buckets, s) \<leftarrow> clone_buckets (m_buckets old) s;
                    let (new_v, s) = new_cell (fresh_value 0
                      (VMap \<lparr>m_size = m_size old, m_buckets = buckets\<rparr>)) s;
                    if \<not> ok then do {s \<leftarrow> value_free new_v s; Some (None, s)}
                    else do {s \<leftarrow> value_release (Some a) s; Some (new_v, s)}}
      | _ \<Rightarrow> Some (Some a, s))}"

definition as_map :: "payload \<Rightarrow> Map option" where
  "as_map p = (case p of VMap m \<Rightarrow> Some m | _ \<Rightarrow> None)"

abbreviation on_map ::
  "ptr \<Rightarrow> (addr \<Rightarrow> Map \<Rightarrow> store \<Rightarrow> (ptr \<times> store) option) \<Rightarrow> store \<Rightarrow> (ptr \<times> store) option"
where
  "on_map p f \<equiv> on_writable as_map map_ensure_writable p f (\<lambda>p. p)"

subsection \<open>Access\<close>

definition map_find_entry :: "ptr \<Rightarrow> string \<Rightarrow> store \<Rightarrow> MapEntry option option" where
  "map_find_entry p key =
     peek None (\<lambda>v. case v of
       VMap m \<Rightarrow> find_entry_internal m key (agim_hash_cstring key)
     | _ \<Rightarrow> None) p"

definition map_get :: "ptr \<Rightarrow> string \<Rightarrow> store \<Rightarrow> ptr option" where
  "map_get p key s = do {
     entry \<leftarrow> map_find_entry p key s;
     Some (case entry of None \<Rightarrow> None | Some e \<Rightarrow> e_value e)}"

definition map_has :: "ptr \<Rightarrow> string \<Rightarrow> store \<Rightarrow> bool option" where
  "map_has p key s = do {entry \<leftarrow> map_find_entry p key s; Some (entry \<noteq> None)}"

text \<open>Overwriting the value of the first matching entry of a chain.\<close>

fun set_value :: "(MapEntry \<Rightarrow> bool) \<Rightarrow> ptr \<Rightarrow> MapEntry list \<Rightarrow> MapEntry list" where
  "set_value P v [] = []"
| "set_value P v (e # es) = (if P e then e\<lparr>e_value := v\<rparr> # es else e # set_value P v es)"

definition map_update :: "Map \<Rightarrow> string \<Rightarrow> u64 \<Rightarrow> ptr \<Rightarrow> Map" where
  "map_update m key key_hash v =
     (let i = bucket_index key_hash (length (m_buckets m))
      in m\<lparr>m_buckets := (m_buckets m)[i := set_value (entry_matches key key_hash) v (m_buckets m ! i)]\<rparr>)"

definition map_grow :: "Map \<Rightarrow> u64 \<Rightarrow> store \<Rightarrow> Map \<times> store" where
  "map_grow m key_hash s =
     (let (m, s) = (if length (m_buckets m) * 7 < m_size m * 10
                    then map_resize m (length (m_buckets m) * 2) s else (m, s));
          index = bucket_index key_hash (length (m_buckets m))
      in if MAP_MAX_CHAIN_DEPTH \<le> chain_depth_at m index
         then map_resize m (length (m_buckets m) * 2) s else (m, s))"

definition map_prepend :: "Map \<Rightarrow> string \<Rightarrow> u64 \<Rightarrow> ptr \<Rightarrow> Map" where
  "map_prepend m key key_hash v =
     m\<lparr>m_size := m_size m + 1,
       m_buckets := add_entry \<lparr>e_key = \<lparr>s_hash = key_hash, s_data = key\<rparr>, e_value = v\<rparr> (m_buckets m)\<rparr>"

definition map_set_body :: "string \<Rightarrow> ptr \<Rightarrow> addr \<Rightarrow> Map \<Rightarrow> store \<Rightarrow> (ptr \<times> store) option" where
  "map_set_body key v b m s = do {
     s \<leftarrow> gc_write_barrier b v s;
     let key_len = strlen key;
     let key_hash = agim_hash_string key key_len;
     (case find_entry_internal m key key_hash of
        Some existing \<Rightarrow> do {
          s \<leftarrow> free_item (e_value existing) s;
          s \<leftarrow> store_as b (VMap (map_update m key key_hash v)) s;
          Some (Some b, s)}
      | None \<Rightarrow>
          let (m, s) = map_grow m key_hash s;
              (ok, s) = allocs_ok 2 s
          in do {
            s \<leftarrow> store_as b (VMap (if ok then map_prepend m (take key_len key) key_hash v else m)) s;
            Some (Some b, s)})}"

definition map_set :: "ptr \<Rightarrow> string \<Rightarrow> ptr \<Rightarrow> store \<Rightarrow> (ptr \<times> store) option" where
  "map_set p key v = on_map p (map_set_body key v)"

fun remove_first :: "('a \<Rightarrow> bool) \<Rightarrow> 'a list \<Rightarrow> 'a list" where
  "remove_first P [] = []"
| "remove_first P (x # xs) = (if P x then xs else x # remove_first P xs)"

text \<open>The removed value is freed after its entry is unlinked.\<close>

definition map_delete_body :: "string \<Rightarrow> addr \<Rightarrow> Map \<Rightarrow> store \<Rightarrow> (ptr \<times> store) option" where
  "map_delete_body key b m s =
     (let key_hash = agim_hash_string key (strlen key);
          index = bucket_index key_hash (length (m_buckets m));
          chain = m_buckets m ! index
      in case find (entry_matches key key_hash) chain of
           None \<Rightarrow> Some (Some b, s)
         | Some e \<Rightarrow> do {
             s \<leftarrow> store_as b (VMap (m\<lparr>m_size := m_size m - 1,
               m_buckets := (m_buckets m)[index := remove_first (entry_matches key key_hash) chain]\<rparr>)) s;
             s \<leftarrow> free_item (e_value e) s;
             Some (Some b, s)})"

definition map_delete :: "ptr \<Rightarrow> string \<Rightarrow> store \<Rightarrow> (ptr \<times> store) option" where
  "map_delete p key = on_map p (map_delete_body key)"

fun free_values :: "MapEntry list \<Rightarrow> store \<Rightarrow> store option" where
  "free_values [] s = Some s"
| "free_values (e # es) s = do {s \<leftarrow> free_item (e_value e) s; free_values es s}"

definition map_clear_body :: "addr \<Rightarrow> Map \<Rightarrow> store \<Rightarrow> (ptr \<times> store) option" where
  "map_clear_body b m s = do {
     s \<leftarrow> free_values (concat (m_buckets m)) s;
     s \<leftarrow> store_as b (VMap \<lparr>m_size = 0, m_buckets = map (\<lambda>_. []) (m_buckets m)\<rparr>) s;
     Some (Some b, s)}"

definition map_clear :: "ptr \<Rightarrow> store \<Rightarrow> (ptr \<times> store) option" where
  "map_clear p = on_map p map_clear_body"

subsection \<open>Iteration\<close>

definition on_entries ::
  "(MapEntry \<Rightarrow> ptr \<Rightarrow> store \<Rightarrow> (ptr \<times> store) option) \<Rightarrow> ptr \<Rightarrow> store \<Rightarrow> (ptr \<times> store) option" where
  "on_entries f p s =
     (let (result, s) = value_array s
      in case p of None \<Rightarrow> Some (result, s)
         | Some a \<Rightarrow> do {
             v \<leftarrow> cell s a;
             (case v_as v of
                VMap m \<Rightarrow>
                  foldl (\<lambda>acc e. Option.bind acc (\<lambda>(result, s). f e result s)) (Some (result, s))
                    (concat (m_buckets m))
              | _ \<Rightarrow> Some (result, s))})"

definition map_keys :: "ptr \<Rightarrow> store \<Rightarrow> (ptr \<times> store) option" where
  "map_keys = on_entries (\<lambda>e result s.
     let (k, s) = value_string (s_data (e_key e)) s in array_push result k s)"

definition map_values :: "ptr \<Rightarrow> store \<Rightarrow> (ptr \<times> store) option" where
  "map_values = on_entries (\<lambda>e result s. do {
     (v, s) \<leftarrow> value_retain (e_value e) s;
     array_push result v s})"

definition map_entries :: "ptr \<Rightarrow> store \<Rightarrow> (ptr \<times> store) option" where
  "map_entries = on_entries (\<lambda>e result s.
     let (pair, s) = value_array_with_capacity 2 s;
         (k, s) = value_string (s_data (e_key e)) s
     in do {
       (pair, s) \<leftarrow> array_push pair k s;
       (v, s) \<leftarrow> value_retain (e_value e) s;
       (pair, s) \<leftarrow> array_push pair v s;
       array_push result pair s})"

subsection \<open>Keys and buckets\<close>

lemma of_char_nat_inject: "(of_char c :: nat) = of_char d \<longleftrightarrow> c = d"
  by (metis char_of_char)

lemma bytes_cmp_0: "bytes_cmp a b = 0 \<longleftrightarrow> a = b"
proof (induction a b rule: bytes_cmp.induct)
  case (4 c cs d ds)
  show ?case
  proof (cases "c = d")
    case True
    then show ?thesis using 4 by simp
  next
    case False
    then have "(of_char c :: nat) \<noteq> of_char d" by (simp add: of_char_nat_inject)
    then show ?thesis using False by auto
  qed
qed simp_all

abbreviation key_of :: "MapEntry \<Rightarrow> string" where
  "key_of e \<equiv> s_data (e_key e)"

definition key_hash :: "string \<Rightarrow> u64" where
  "key_hash key = agim_hash_string key (length key)"

definition entry_ok :: "MapEntry \<Rightarrow> bool" where
  "entry_ok e \<longleftrightarrow> nul_free (key_of e) \<and> s_hash (e_key e) = key_hash (key_of e)"

lemma entry_matches_key:
  "entry_ok e \<Longrightarrow> nul_free key \<Longrightarrow> entry_matches key (key_hash key) e \<longleftrightarrow> key_of e = key"
  by (auto simp: entry_ok_def entry_matches_def strcmp_def bytes_cmp_0)

text \<open>Every entry sits in the bucket its hash selects.\<close>

definition placed :: "MapEntry list list \<Rightarrow> bool" where
  "placed bs \<longleftrightarrow> (\<forall>i < length bs. \<forall>e \<in> set (bs ! i). bucket_index (s_hash (e_key e)) (length bs) = i)"

text \<open>
  The type invariant of a map: at least one bucket, an exact entry count, entries in their
  buckets with the hash of their key, and no key twice.
\<close>

definition map_ok :: "Map \<Rightarrow> bool" where
  "map_ok m \<longleftrightarrow> m_buckets m \<noteq> [] \<and> m_size m = length (concat (m_buckets m)) \<and> placed (m_buckets m)
     \<and> (\<forall>e \<in> set (concat (m_buckets m)). entry_ok e) \<and> distinct (map key_of (concat (m_buckets m)))"

text \<open>The finite map that the buckets represent.\<close>

definition map_abs :: "Map \<Rightarrow> string \<Rightarrow> ptr option" where
  "map_abs m = map_of (map (\<lambda>e. (key_of e, e_value e)) (concat (m_buckets m)))"

lemma bucket_index_less [simp]: "bs \<noteq> [] \<Longrightarrow> bucket_index h (length bs) < length bs"
  by (simp add: bucket_index_def)

lemma mset_concat_update:
  "i < length bs \<Longrightarrow> mset (concat (bs[i := c])) + mset (bs ! i) = mset (concat bs) + mset c"
proof (induction bs arbitrary: i)
  case (Cons b bs)
  then show ?case by (cases i) (simp_all add: ac_simps)
qed simp

lemma mset_add_entry: "bs \<noteq> [] \<Longrightarrow> mset (concat (add_entry e bs)) = add_mset e (mset (concat bs))"
proof -
  assume "bs \<noteq> []"
  then have "bucket_index (s_hash (e_key e)) (length bs) < length bs" by simp
  from mset_concat_update [OF this, of "e # bs ! bucket_index (s_hash (e_key e)) (length bs)"]
  show ?thesis by (simp add: add_entry_def Let_def)
qed

lemma placed_add_entry: "bs \<noteq> [] \<Longrightarrow> placed bs \<Longrightarrow> placed (add_entry e bs)"
  by (auto simp: placed_def add_entry_def Let_def nth_list_update)

lemma length_add_entry [simp]: "length (add_entry e bs) = length bs"
  by (simp add: add_entry_def Let_def)

lemma rehash_fold:
  assumes "bs \<noteq> []" and "placed bs"
  shows "mset (concat (foldl (\<lambda>nb e. add_entry e nb) bs es)) = mset (concat bs) + mset es
    \<and> placed (foldl (\<lambda>nb e. add_entry e nb) bs es)
    \<and> length (foldl (\<lambda>nb e. add_entry e nb) bs es) = length bs"
  using assms
proof (induction es arbitrary: bs)
  case (Cons e es)
  have "add_entry e bs \<noteq> []" using Cons.prems(1) by (metis length_0_conv length_add_entry)
  then show ?case using Cons.IH [of "add_entry e bs"] Cons.prems
    by (simp add: placed_add_entry mset_add_entry)
qed simp

lemma rehash_ok:
  assumes "0 < n"
  shows "mset (concat (rehash bs n)) = mset (concat bs)" and "placed (rehash bs n)" and "length (rehash bs n) = n"
proof -
  have "replicate n [] \<noteq> []" using assms by simp
  moreover have "placed (replicate n [])" by (simp add: placed_def)
  ultimately have "mset (concat (rehash bs n)) = mset (concat (replicate n [])) + mset (concat bs)
    \<and> placed (rehash bs n) \<and> length (rehash bs n) = length (replicate n ([] :: MapEntry list))"
    unfolding rehash_def by (rule rehash_fold)
  moreover have "concat (replicate n []) = ([] :: MapEntry list)" by (induction n) simp_all
  ultimately show "mset (concat (rehash bs n)) = mset (concat bs)" "placed (rehash bs n)" "length (rehash bs n) = n"
    by simp_all
qed

lemma map_eqI: "(\<And>k v. f k = Some v \<longleftrightarrow> g k = Some v) \<Longrightarrow> f = g"
  by (rule ext) (metis not_None_eq)

lemma map_abs_Some:
  assumes "map_ok m"
  shows "map_abs m k = Some v \<longleftrightarrow> (\<exists>e \<in># mset (concat (m_buckets m)). key_of e = k \<and> e_value e = v)"
proof -
  have "distinct (map fst (map (\<lambda>e. (key_of e, e_value e)) (concat (m_buckets m))))"
    using assms by (simp add: map_ok_def comp_def)
  then show ?thesis unfolding map_abs_def by (auto simp: map_of_eq_Some_iff image_iff)
qed

text \<open>The invariant depends on the entries and their placement only.\<close>

definition uniq_keys :: "MapEntry multiset \<Rightarrow> bool" where
  "uniq_keys M \<longleftrightarrow> (\<forall>k. count (image_mset key_of M) k \<le> 1)"

lemma uniq_keys_mset: "uniq_keys (mset es) \<longleftrightarrow> distinct (map key_of es)"
proof -
  have "count (image_mset key_of (mset es)) k = count (mset (map key_of es)) k" for k by simp
  then show ?thesis
    unfolding uniq_keys_def distinct_count_atmost_1
    by (metis One_nat_def count_mset_0_iff le_Suc_eq le_zero_eq le_refl zero_le)
qed

lemma at_most_one_add:
  fixes c :: "'a \<Rightarrow> nat"
  shows "(\<forall>k. c k + (if k = x then 1 else 0) \<le> 1) \<longleftrightarrow> (\<forall>k. c k \<le> 1) \<and> c x = 0"
proof
  assume a: "\<forall>k. c k + (if k = x then 1 else 0) \<le> 1"
  have "c k \<le> 1" for k using spec [OF a, of k] by linarith
  moreover have "c x = 0" using spec [OF a, of x] by simp
  ultimately show "(\<forall>k. c k \<le> 1) \<and> c x = 0" by blast
qed auto

lemma uniq_keys_add: "uniq_keys (add_mset e M) \<longleftrightarrow> uniq_keys M \<and> (\<forall>f \<in># M. key_of f \<noteq> key_of e)"
proof -
  have z: "count (image_mset key_of M) (key_of e) = 0 \<longleftrightarrow> (\<forall>f \<in># M. key_of f \<noteq> key_of e)"
    unfolding count_eq_zero_iff set_image_mset image_iff by fastforce
  have "count (image_mset key_of (add_mset e M)) k
    = count (image_mset key_of M) k + (if k = key_of e then 1 else 0)" for k
    by simp
  then show ?thesis unfolding uniq_keys_def z [symmetric] by (simp only: at_most_one_add)
qed

lemma map_ok_alt:
  "map_ok m \<longleftrightarrow> m_buckets m \<noteq> [] \<and> placed (m_buckets m) \<and> m_size m = size (mset (concat (m_buckets m)))
     \<and> (\<forall>e \<in># mset (concat (m_buckets m)). entry_ok e) \<and> uniq_keys (mset (concat (m_buckets m)))"
  unfolding map_ok_def uniq_keys_mset size_mset set_mset_mset by blast

subsection \<open>Lookup\<close>

abbreviation key_index :: "Map \<Rightarrow> string \<Rightarrow> nat" where
  "key_index m k \<equiv> bucket_index (key_hash k) (length (m_buckets m))"

lemma in_concat_bucket:
  assumes "map_ok m" and "e \<in> set (concat (m_buckets m))"
  shows "e \<in> set (m_buckets m ! key_index m (key_of e))"
proof -
  obtain b where b: "b \<in> set (m_buckets m)" "e \<in> set b" using assms(2) by auto
  then obtain i where i: "i < length (m_buckets m)" "m_buckets m ! i = b" by (metis in_set_conv_nth)
  moreover have "s_hash (e_key e) = key_hash (key_of e)" using assms unfolding map_ok_def entry_ok_def by blast
  ultimately show ?thesis using assms(1) b(2) unfolding map_ok_def placed_def by metis
qed

lemma bucket_subset: "m_buckets m \<noteq> [] \<Longrightarrow> e \<in> set (m_buckets m ! key_index m k) \<Longrightarrow> e \<in> set (concat (m_buckets m))"
  using nth_mem [OF bucket_index_less] by fastforce

lemma bucket_keys_distinct:
  assumes "map_ok m" and "i < length (m_buckets m)"
  shows "distinct (map key_of (m_buckets m ! i))"
proof -
  have "m_buckets m = take i (m_buckets m) @ m_buckets m ! i # drop (Suc i) (m_buckets m)"
    by (rule id_take_nth_drop [OF assms(2)])
  then have "concat (m_buckets m) = concat (take i (m_buckets m)) @ m_buckets m ! i @ concat (drop (Suc i) (m_buckets m))"
    by (metis concat.simps(2) concat_append)
  then show ?thesis using assms(1) by (simp add: map_ok_def)
qed

text \<open>A lookup sees exactly the entries within the depth bound.\<close>

lemma find_entry_within:
  assumes ok: "map_ok m" and k: "nul_free k"
  shows "find_entry_internal m k (key_hash k)
    = find (\<lambda>e. key_of e = k) (take MAP_MAX_CHAIN_DEPTH (m_buckets m ! key_index m k))"
proof -
  have "entry_ok e" if "e \<in> set (take MAP_MAX_CHAIN_DEPTH (m_buckets m ! key_index m k))" for e
    using in_set_takeD [OF that] bucket_subset ok by (auto simp: map_ok_def)
  then show ?thesis
    unfolding find_entry_internal_def by (intro find_cong) (auto simp: entry_matches_key k)
qed

lemma find_entry_Some:
  assumes ok: "map_ok m" and k: "nul_free k" and f: "find_entry_internal m k (key_hash k) = Some e"
  shows "key_of e = k" "e \<in> set (take MAP_MAX_CHAIN_DEPTH (m_buckets m ! key_index m k))"
    "e \<in> set (concat (m_buckets m))" "map_abs m k = Some (e_value e)"
proof -
  have f': "find (\<lambda>e. key_of e = k) (take MAP_MAX_CHAIN_DEPTH (m_buckets m ! key_index m k)) = Some e"
    using f find_entry_within [OF ok k] by simp
  then show 1: "key_of e = k" by (auto simp: find_Some_iff)
  show 2: "e \<in> set (take MAP_MAX_CHAIN_DEPTH (m_buckets m ! key_index m k))"
    using f' by (metis find_Some_iff nth_mem)
  then show 3: "e \<in> set (concat (m_buckets m))"
    using bucket_subset ok in_set_takeD by (metis map_ok_def)
  show "map_abs m k = Some (e_value e)" using map_abs_Some [OF ok] 1 3 by auto
qed

text \<open>The key is not stored behind the entries that a lookup of it follows.\<close>

definition not_hidden :: "Map \<Rightarrow> string \<Rightarrow> bool" where
  "not_hidden m k \<longleftrightarrow> list_all (\<lambda>e. key_of e \<noteq> k) (drop MAP_MAX_CHAIN_DEPTH (m_buckets m ! key_index m k))"

lemma not_hidden_short: "length (m_buckets m ! key_index m k) \<le> MAP_MAX_CHAIN_DEPTH \<Longrightarrow> not_hidden m k"
  by (simp add: not_hidden_def)

lemma find_entry_None:
  assumes ok: "map_ok m" and k: "nul_free k" and d: "not_hidden m k"
    and f: "find_entry_internal m k (key_hash k) = None"
  shows "map_abs m k = None" "\<forall>e \<in> set (concat (m_buckets m)). key_of e \<noteq> k"
proof -
  let ?b = "m_buckets m ! key_index m k"
  have "\<forall>e \<in> set (take MAP_MAX_CHAIN_DEPTH ?b @ drop MAP_MAX_CHAIN_DEPTH ?b). key_of e \<noteq> k"
    using f find_entry_within [OF ok k] d by (auto simp: not_hidden_def list_all_iff find_None_iff simp del: append_take_drop_id)
  then have "find (\<lambda>e. key_of e = k) ?b = None" by (simp add: find_None_iff)
  then show n: "\<forall>e \<in> set (concat (m_buckets m)). key_of e \<noteq> k"
    using in_concat_bucket [OF ok] by (auto simp: find_None_iff simp del: set_concat)
  show "map_abs m k = None" using map_abs_Some [OF ok, of k] n by (metis not_None_eq set_mset_mset)
qed

lemma lookup_abs:
  assumes "map_ok m" and "nul_free k" and "not_hidden m k"
  shows "map_option e_value (find_entry_internal m k (key_hash k)) = map_abs m k"
  using find_entry_Some [OF assms(1,2)] find_entry_None [OF assms]
  by (cases "find_entry_internal m k (key_hash k)") auto

subsection \<open>Updates of the buckets\<close>

lemma map_ok_mset:
  assumes ok: "map_ok m" and M: "mset (concat bs) = mset (concat (m_buckets m))" and "placed bs" and "bs \<noteq> []"
  shows "map_ok (m\<lparr>m_buckets := bs\<rparr>)" and "map_abs (m\<lparr>m_buckets := bs\<rparr>) = map_abs m"
proof -
  have b: "m_buckets (m\<lparr>m_buckets := bs\<rparr>) = bs" "m_size (m\<lparr>m_buckets := bs\<rparr>) = m_size m"
    by simp_all
  show ok': "map_ok (m\<lparr>m_buckets := bs\<rparr>)"
    using assms unfolding map_ok_alt b M by blast
  show "map_abs (m\<lparr>m_buckets := bs\<rparr>) = map_abs m"
  proof (rule map_eqI)
    show "map_abs (m\<lparr>m_buckets := bs\<rparr>) k = Some v \<longleftrightarrow> map_abs m k = Some v" for k v
      unfolding map_abs_Some [OF ok'] map_abs_Some [OF ok] b M by (rule refl)
  qed
qed

lemma map_resize_ok:
  assumes ok: "map_ok m" and n: "0 < n" and r: "map_resize m n s = (m', s')"
  shows "map_ok m'" "map_abs m' = map_abs m" "mset (concat (m_buckets m')) = mset (concat (m_buckets m))"
    "cell s' = cell s" "oom s' = oom s" "pay s' = pay s" "owns R s' = owns R s"
proof -
  note h = rehash_ok [OF n, of "m_buckets m"]
  have "rehash (m_buckets m) n \<noteq> []" using h(3) n by auto
  note k = map_ok_mset [OF ok h(1,2) this]
  consider "m' = m" | "m' = m\<lparr>m_buckets := rehash (m_buckets m) n\<rparr>"
    using r by (auto simp: map_resize_def agim_alloc_def split: if_splits)
  then show "map_ok m'" "map_abs m' = map_abs m" "mset (concat (m_buckets m')) = mset (concat (m_buckets m))"
    using ok k h(1) by (cases; simp)+
  have s': "s' = s\<lparr>allocs := Suc (allocs s)\<rparr>"
    using r by (auto simp: map_resize_def agim_alloc_def split: if_splits)
  show "cell s' = cell s" "oom s' = oom s" "pay s' = pay s" "owns R s' = owns R s"
    unfolding s' by (simp_all add: fun_eq_iff)
qed

lemma map_grow_ok:
  assumes ok: "map_ok m" and g: "map_grow m h s = (m', s')"
  shows "map_ok m'" "map_abs m' = map_abs m" "mset (concat (m_buckets m')) = mset (concat (m_buckets m))"
    "cell s' = cell s" "oom s' = oom s" "pay s' = pay s" "owns R s' = owns R s"
proof -
  obtain m1 s1 where 1: "(if length (m_buckets m) * 7 < m_size m * 10
      then map_resize m (length (m_buckets m) * 2) s else (m, s)) = (m1, s1)" by force
  have n: "0 < length (m_buckets x) * 2" if "map_ok x" for x using that by (simp add: map_ok_def)
  have a: "map_ok m1 \<and> map_abs m1 = map_abs m \<and> mset (concat (m_buckets m1)) = mset (concat (m_buckets m))
    \<and> cell s1 = cell s \<and> oom s1 = oom s \<and> pay s1 = pay s \<and> owns R s1 = owns R s"
    using 1 map_resize_ok [OF ok n [OF ok], of s m1 s1] ok by (simp split: if_splits)
  then have "map_ok m1" by blast
  then have "map_ok m' \<and> map_abs m' = map_abs m1 \<and> mset (concat (m_buckets m')) = mset (concat (m_buckets m1))
    \<and> cell s' = cell s1 \<and> oom s' = oom s1 \<and> pay s' = pay s1 \<and> owns R s' = owns R s1"
    using g 1 map_resize_ok [OF \<open>map_ok m1\<close> n [OF \<open>map_ok m1\<close>], of s1 m' s']
    by (simp add: map_grow_def split: if_splits)
  with a show "map_ok m'" "map_abs m' = map_abs m" "mset (concat (m_buckets m')) = mset (concat (m_buckets m))"
    "cell s' = cell s" "oom s' = oom s" "pay s' = pay s" "owns R s' = owns R s"
    by simp_all
qed

lemma map_prepend_ok:
  assumes ok: "map_ok m" and k: "nul_free k" and new: "\<forall>e \<in> set (concat (m_buckets m)). key_of e \<noteq> k"
  shows "map_ok (map_prepend m k (key_hash k) v)"
    and "map_abs (map_prepend m k (key_hash k) v) = (map_abs m)(k \<mapsto> v)"
proof -
  let ?e = "\<lparr>e_key = \<lparr>s_hash = key_hash k, s_data = k\<rparr>, e_value = v\<rparr>"
  let ?m = "map_prepend m k (key_hash k) v"
  have ne: "m_buckets m \<noteq> []" using ok by (simp add: map_ok_def)
  have M: "mset (concat (m_buckets ?m)) = add_mset ?e (mset (concat (m_buckets m)))"
    using mset_add_entry [OF ne] by (simp add: map_prepend_def)
  have b: "m_buckets ?m = add_entry ?e (m_buckets m)" "m_size ?m = Suc (m_size m)"
    by (simp_all add: map_prepend_def)
  have "placed (m_buckets ?m)" "m_buckets ?m \<noteq> []"
    using placed_add_entry [OF ne] ok ne b by (simp_all add: map_ok_def) (metis length_0_conv length_add_entry)
  moreover have "entry_ok ?e" using k by (simp add: entry_ok_def)
  ultimately show ok': "map_ok ?m"
    using ok new unfolding map_ok_alt M b(2) by (auto simp: uniq_keys_add)
  show "map_abs ?m = (map_abs m)(k \<mapsto> v)"
  proof (rule map_eqI)
    show "map_abs ?m k' = Some v' \<longleftrightarrow> ((map_abs m)(k \<mapsto> v)) k' = Some v'" for k' v'
      unfolding map_abs_Some [OF ok'] M using new map_abs_Some [OF ok, of k' v'] by auto
  qed
qed

lemma set_value_mset:
  "find P xs = Some e \<Longrightarrow> mset (set_value P v xs) + {#e#} = mset xs + {#e\<lparr>e_value := v\<rparr>#}"
  by (induction xs) (auto split: if_splits)

lemma remove_first_mset: "find P xs = Some e \<Longrightarrow> add_mset e (mset (remove_first P xs)) = mset xs"
  by (induction xs) (auto split: if_splits)

lemma placed_update:
  assumes "placed bs" and "i < length bs"
    and "\<And>e. e \<in> set c \<Longrightarrow> \<exists>f \<in> set (bs ! i). s_hash (e_key f) = s_hash (e_key e)"
  shows "placed (bs[i := c])"
  unfolding placed_def
proof (intro allI impI ballI)
  fix j e assume j: "j < length (bs[i := c])" and e: "e \<in> set (bs[i := c] ! j)"
  show "bucket_index (s_hash (e_key e)) (length (bs[i := c])) = j"
  proof (cases "j = i")
    case True
    then obtain f where "f \<in> set (bs ! i)" "s_hash (e_key f) = s_hash (e_key e)" using e j assms(3) by auto
    then show ?thesis using assms(1,2) True by (auto simp: placed_def) metis
  next
    case False
    then show ?thesis using e j assms(1) by (simp add: placed_def)
  qed
qed

lemma set_value_keys: "e \<in> set (set_value P v xs) \<Longrightarrow> \<exists>f \<in> set xs. e_key f = e_key e"
  by (induction xs) (auto split: if_splits)

lemma set_remove_first: "set (remove_first P xs) \<subseteq> set xs"
  by (induction xs) auto

lemma mset_exchange:
  assumes "A' + B = A + C" and "C + {#x#} = B + {#y#}"
  shows "add_mset x A' = add_mset y (A :: 'a multiset)"
proof -
  have "add_mset x A' + B = A + (C + {#x#})" using assms(1) by simp
  also have "\<dots> = add_mset y A + B" unfolding assms(2) by (simp add: ac_simps)
  finally show ?thesis by simp
qed

lemma find_take: "find P (take n xs) = Some e \<Longrightarrow> find P xs = Some e"
proof (induction xs arbitrary: n)
  case (Cons x xs)
  then show ?case by (cases n) (auto split: if_splits)
qed simp

lemma find_in_bucket:
  assumes "map_ok m" and "nul_free k" and "find_entry_internal m k (key_hash k) = Some e"
  shows "find (entry_matches k (key_hash k)) (m_buckets m ! key_index m k) = Some e"
  using assms(3) unfolding find_entry_internal_def by (rule find_take)

lemma map_update_ok:
  assumes ok: "map_ok m" and k: "nul_free k" and f: "find_entry_internal m k (key_hash k) = Some e"
  shows "map_ok (map_update m k (key_hash k) v)"
    and "map_abs (map_update m k (key_hash k) v) = (map_abs m)(k \<mapsto> v)"
    and "add_mset e (mset (concat (m_buckets (map_update m k (key_hash k) v))))
      = add_mset (e\<lparr>e_value := v\<rparr>) (mset (concat (m_buckets m)))"
proof -
  let ?i = "key_index m k" and ?P = "entry_matches k (key_hash k)"
  let ?m = "map_update m k (key_hash k) v" and ?e = "e\<lparr>e_value := v\<rparr>"
  let ?c = "set_value ?P v (m_buckets m ! ?i)"
  have ne: "m_buckets m \<noteq> []" using ok by (simp add: map_ok_def)
  then have i: "?i < length (m_buckets m)" by simp
  have b: "m_buckets ?m = (m_buckets m)[?i := ?c]" "m_size ?m = m_size m"
    by (simp_all add: map_update_def Let_def)
  have fe: "find ?P (m_buckets m ! ?i) = Some e" by (rule find_in_bucket [OF ok k f])
  note e = find_entry_Some [OF ok k f]
  show M: "add_mset e (mset (concat (m_buckets ?m))) = add_mset ?e (mset (concat (m_buckets m)))"
    unfolding b by (rule mset_exchange [OF mset_concat_update [OF i] set_value_mset [OF fe]])
  obtain N where N: "mset (concat (m_buckets m)) = add_mset e N"
    using e(3) by (metis multi_member_split set_mset_mset)
  have M': "mset (concat (m_buckets ?m)) = add_mset ?e N" using M N by (simp add: add_mset_commute)
  have "placed (m_buckets ?m)"
    unfolding b
  proof (rule placed_update [OF _ i])
    show "placed (m_buckets m)" using ok by (simp add: map_ok_def)
    show "\<exists>f \<in> set (m_buckets m ! ?i). s_hash (e_key f) = s_hash (e_key x)" if "x \<in> set ?c" for x
    proof -
      obtain f where f: "f \<in> set (m_buckets m ! ?i)" "e_key f = e_key x" using set_value_keys [OF \<open>x \<in> set ?c\<close>] by blast
      show ?thesis by (rule bexI [OF _ f(1)]) (simp add: f(2))
    qed
  qed
  moreover have "m_buckets ?m \<noteq> []" unfolding b using ne by simp
  ultimately show ok': "map_ok ?m"
    using ok unfolding map_ok_alt b(2) M' N by (auto simp: uniq_keys_add entry_ok_def)
  have u: "\<forall>f \<in># N. key_of f \<noteq> k" using ok e(1) unfolding map_ok_alt N by (auto simp: uniq_keys_add)
  show "map_abs ?m = (map_abs m)(k \<mapsto> v)"
  proof (rule map_eqI)
    show "map_abs ?m k' = Some v' \<longleftrightarrow> ((map_abs m)(k \<mapsto> v)) k' = Some v'" for k' v'
      unfolding map_abs_Some [OF ok'] M' using u e(1) map_abs_Some [OF ok, of k' v'] unfolding N by auto
  qed
qed

lemma map_remove_ok:
  assumes ok: "map_ok m" and k: "nul_free k"
    and f: "find (entry_matches k (key_hash k)) (m_buckets m ! key_index m k) = Some e"
    and m': "m' = m\<lparr>m_size := m_size m - 1,
      m_buckets := (m_buckets m)[key_index m k := remove_first (entry_matches k (key_hash k)) (m_buckets m ! key_index m k)]\<rparr>"
  shows "map_ok m'" and "map_abs m' = (map_abs m)(k := None)"
    and "add_mset e (mset (concat (m_buckets m'))) = mset (concat (m_buckets m))"
proof -
  let ?i = "key_index m k" and ?P = "entry_matches k (key_hash k)"
  let ?c = "remove_first ?P (m_buckets m ! ?i)"
  have ne: "m_buckets m \<noteq> []" using ok by (simp add: map_ok_def)
  then have i: "?i < length (m_buckets m)" by simp
  have b: "m_buckets m' = (m_buckets m)[?i := ?c]" "m_size m' = m_size m - 1"
    by (simp_all add: m')
  have e: "e \<in> set (m_buckets m ! ?i)" "?P e" using f by (metis find_Some_iff nth_mem)+
  then have "entry_ok e" using bucket_subset [OF ne] ok unfolding map_ok_def by blast
  then have ke: "key_of e = k" using e(2) k by (simp add: entry_matches_key)
  show M: "add_mset e (mset (concat (m_buckets m'))) = mset (concat (m_buckets m))"
  proof -
    have "mset (concat (m_buckets m')) + mset (m_buckets m ! ?i) = mset (concat (m_buckets m)) + mset ?c"
      unfolding b by (rule mset_concat_update [OF i])
    then show ?thesis unfolding remove_first_mset [OF f, symmetric] by simp
  qed
  have "placed (m_buckets m')"
    unfolding b
  proof (rule placed_update [OF _ i])
    show "placed (m_buckets m)" using ok by (simp add: map_ok_def)
    show "\<exists>f \<in> set (m_buckets m ! ?i). s_hash (e_key f) = s_hash (e_key x)" if "x \<in> set ?c" for x
      by (rule bexI [OF refl subsetD [OF set_remove_first \<open>x \<in> set ?c\<close>]])
  qed
  moreover have "m_buckets m' \<noteq> []" unfolding b using ne by simp
  ultimately show ok': "map_ok m'"
    using ok unfolding map_ok_alt b(2) M [symmetric] uniq_keys_add by simp
  have u: "\<forall>f \<in># mset (concat (m_buckets m')). key_of f \<noteq> k"
    using ok unfolding map_ok_alt M [symmetric] uniq_keys_add ke by blast
  show "map_abs m' = (map_abs m)(k := None)"
  proof (rule map_eqI)
    show "map_abs m' k' = Some v' \<longleftrightarrow> ((map_abs m)(k := None)) k' = Some v'" for k' v'
      unfolding map_abs_Some [OF ok'] fun_upd_apply using u ke map_abs_Some [OF ok, of k' v']
      unfolding M [symmetric] by (cases "k' = k") fastforce+
  qed
qed

subsection \<open>Copying a map\<close>

abbreviation values_of :: "MapEntry list \<Rightarrow> addr list" where
  "values_of es \<equiv> somes (map e_value es)"

text \<open>What copying entries leaves: references for the copied values, nothing else changed.\<close>

definition cloned :: "addr multiset \<Rightarrow> store \<Rightarrow> MapEntry list \<Rightarrow> store \<Rightarrow> bool" where
  "cloned R s es s' \<longleftrightarrow> owns (mset (values_of es) + R) s' \<and> pay s' = pay s \<and> brk s' = brk s
     \<and> counts_grow s s' \<and> oom s' = oom s"

lemma cloned_trans:
  "cloned R s es s1 \<Longrightarrow> cloned (mset (values_of es) + R) s1 fs s2 \<Longrightarrow> cloned R s (es @ fs) s2"
  unfolding cloned_def using counts_grow_trans by (auto simp: ac_simps)

lemma cloned_allocs:
  assumes "owns R s" and "allocs_ok n s = (ok, s')"
  shows "cloned R s [] s'" and "\<not> ok \<Longrightarrow> \<exists>k. oom s k" and "room m s' = room m s"
proof -
  have c: "\<And>x. cell s' x = cell s x" "brk s' = brk s" "owns R s'" "oom s' = oom s"
    using assms owns_allocs_ok [of _ n s] allocs_ok_frame [of n s] oom_frame [of n s] by simp_all
  then show "cloned R s [] s'" by (simp add: cloned_def pay_def counts_grow_def fun_eq_iff)
  show "room m s' = room m s" by (simp add: room_def c)
  show "\<exists>k. oom s k" if "\<not> ok" using allocs_ok_fails assms(2) that by simp
qed

lemma clone_value:
  assumes o: "owns R s" and live: "\<forall>x \<in> set (values_of [e]). pay s x \<noteq> None" and r: "room (Suc n) s"
  obtains s' where "value_retain (e_value e) s = Some (e_value e, s')" "cloned R s [e] s'" "room n s'"
proof (cases "e_value e")
  case None
  have "cloned R s [e] s" using o None by (simp add: cloned_def)
  then show thesis using that [of s] None room_mono [OF r, of n] by (simp add: value_retain_def)
next
  case (Some x)
  then have "pay s x \<noteq> None" using live by simp
  then obtain s' where "value_retain (Some x) s = Some (Some x, s')" "owns (add_mset x R) s'" "pay s' = pay s"
    "brk s' = brk s" "counts_grow s s'" "oom s' = oom s" "room n s'"
    by (rule retain_step [OF o _ r])
  then show thesis using that [of s'] Some by (simp add: cloned_def)
qed

lemma clone_chain_owns:
  assumes "owns R s" and "room (length es + n) s" and "\<forall>x \<in> set (values_of es). pay s x \<noteq> None"
  shows "\<exists>ok es' s'. clone_chain es s = Some (ok, es', s') \<and> cloned R s es' s'
    \<and> (if ok then es' = es \<and> room n s' else \<exists>k. oom s k)"
  using assms
proof (induction es arbitrary: R s)
  case Nil
  then show ?case by (auto simp: cloned_def)
next
  case (Cons e es)
  obtain ok1 s1 where s1: "allocs_ok 2 s = (ok1, s1)" by force
  note a = cloned_allocs [OF Cons.prems(1) s1]
  show ?case
  proof (cases ok1)
    case False
    then show ?thesis using a s1 by auto
  next
    case True
    have o1: "owns R s1" "pay s1 = pay s" "oom s1 = oom s" using a(1) by (simp_all add: cloned_def)
    have "\<forall>x \<in> set (values_of [e]). pay s1 x \<noteq> None" using Cons.prems(3) o1(2) by (cases "e_value e") auto
    moreover have "room (Suc (length es + n)) s1" using Cons.prems(2) a(3) by simp
    ultimately obtain s2 where s2: "value_retain (e_value e) s1 = Some (e_value e, s2)" "cloned R s1 [e] s2"
      "room (length es + n) s2"
      by (rule clone_value [OF o1(1)])
    have c2: "cloned R s [e] s2" using cloned_trans [OF a(1), of "[e]" s2] s2(2) by simp
    have "owns (mset (values_of [e]) + R) s2" "pay s2 = pay s" "oom s2 = oom s"
      using c2 by (simp_all add: cloned_def)
    moreover have "\<forall>x \<in> set (values_of es). pay s2 x \<noteq> None"
      using Cons.prems(3) \<open>pay s2 = pay s\<close> by (cases "e_value e") auto
    ultimately obtain ok es' s3 where s3: "clone_chain es s2 = Some (ok, es', s3)"
      "cloned (mset (values_of [e]) + R) s2 es' s3" "if ok then es' = es \<and> room n s3 else \<exists>k. oom s2 k"
      using Cons.IH [OF _ s2(3)] by blast
    have "cloned R s (e # es') s3" using cloned_trans [OF c2 s3(2)] by simp
    moreover have "clone_chain (e # es) s = Some (ok, e # es', s3)"
      using s1 True s2(1) s3(1) by simp
    ultimately show ?thesis using s3(3) \<open>oom s2 = oom s\<close> by auto
  qed
qed

lemma clone_buckets_owns:
  assumes "owns R s" and "room (length (concat bs)) s" and "\<forall>x \<in> set (values_of (concat bs)). pay s x \<noteq> None"
  shows "\<exists>ok bs' s'. clone_buckets bs s = Some (ok, bs', s') \<and> cloned R s (concat bs') s'
    \<and> (if ok then bs' = bs else \<exists>k. oom s k)"
  using assms
proof (induction bs arbitrary: R s)
  case Nil
  then show ?case by (auto simp: cloned_def)
next
  case (Cons b bs)
  have "room (length b + length (concat bs)) s" using Cons.prems(2) by simp
  moreover have vb: "values_of (concat (b # bs)) = values_of b @ values_of (concat bs)" by simp
  then have "\<forall>x \<in> set (values_of b). pay s x \<noteq> None"
    using Cons.prems(3) unfolding vb set_append by blast
  ultimately obtain ok1 b' s1 where s1: "clone_chain b s = Some (ok1, b', s1)" "cloned R s b' s1"
    "if ok1 then b' = b \<and> room (length (concat bs)) s1 else \<exists>k. oom s k"
    using clone_chain_owns [OF Cons.prems(1)] by blast
  show ?case
  proof (cases ok1)
    case False
    have e: "concat (b' # map (\<lambda>_. []) bs) = b'" by (induction bs) simp_all
    have "cloned R s (concat (b' # map (\<lambda>_. []) bs)) s1" unfolding e by (rule s1(2))
    moreover have "clone_buckets (b # bs) s = Some (False, b' # map (\<lambda>_. []) bs, s1)"
      using False s1(1) by simp
    ultimately show ?thesis using s1(3) False by (metis (full_types))
  next
    case True
    have b: "b' = b" "room (length (concat bs)) s1" using s1(3) True by simp_all
    have o1: "owns (mset (values_of b) + R) s1" "pay s1 = pay s" "oom s1 = oom s"
      using s1(2) b by (simp_all add: cloned_def)
    have "\<forall>x \<in> set (values_of (concat bs)). pay s1 x \<noteq> None"
      using Cons.prems(3) unfolding o1(2) vb set_append by blast
    then obtain ok bs' s2 where s2: "clone_buckets bs s1 = Some (ok, bs', s2)"
      "cloned (mset (values_of b) + R) s1 (concat bs') s2" "if ok then bs' = bs else \<exists>k. oom s1 k"
      using Cons.IH [OF o1(1) b(2)] by blast
    have "cloned R s (b @ concat bs') s2" using cloned_trans [OF s1(2)] s2(2) b by simp
    moreover have "clone_buckets (b # bs) s = Some (ok, b # bs', s2)" using s1(1) True s2(1) b(1) by simp
    ultimately show ?thesis using s2(3) o1(3) by (cases ok) auto
  qed
qed

lemma free_new_copy:
  assumes "owns (add_mset b R) s"
  shows "\<exists>s'. value_free (Some b) s = Some s' \<and> owns R s'"
  using balanced_free_loop [OF owns_Visit [OF assms]] by (simp add: value_free_def owns_def)

lemma map_ensure_shared:
  assumes o: "owns (add_mset a R) s" and v: "cell s a = Some v" and m: "v_as v = VMap m"
    and gt: "1 < refcount v" and rm: "room (length (map e_value (concat (m_buckets m)))) s"
  shows "(\<exists>b s'. map_ensure_writable a s = Some (Some b, s') \<and> copied_to (VMap m) a R s b s')
    \<or> (\<exists>s'. map_ensure_writable a s = Some (None, s') \<and> owns (add_mset a R) s' \<and> (\<exists>k. oom s k))"
proof -
  obtain ok1 s1 where s1: "allocs_ok 3 s = (ok1, s1)" by force
  note a1 = cloned_allocs [OF o s1]
  show ?thesis
  proof (cases ok1)
    case False
    then show ?thesis using v m gt s1 a1(1,2) by (simp add: map_ensure_writable_def cloned_def)
  next
    case True
    have o1: "owns (add_mset a R) s1" "pay s1 = pay s" "brk s1 = brk s" "counts_grow s s1" "oom s1 = oom s"
      using a1(1) by (simp_all add: cloned_def)
    have "room (length (concat (m_buckets m))) s1" using rm a1(3) by simp
    moreover have "\<forall>x \<in> set (values_of (concat (m_buckets m))). pay s1 x \<noteq> None"
      using children_live [OF o, of a "VMap m"] v m o1(2) by (simp add: pay_def)
    ultimately obtain ok bs s2 where s2: "clone_buckets (m_buckets m) s1 = Some (ok, bs, s2)"
      "cloned (add_mset a R) s1 (concat bs) s2" "if ok then bs = m_buckets m else \<exists>k. oom s1 k"
      using clone_buckets_owns [OF o1(1)] by blast
    have c2: "owns (mset (values_of (concat bs)) + add_mset a R) s2" "pay s2 = pay s" "brk s2 = brk s"
      "counts_grow s s2" "oom s2 = oom s"
      using s2(2) o1 counts_grow_trans by (auto simp: cloned_def)
    let ?p = "VMap \<lparr>m_size = m_size m, m_buckets = bs\<rparr>"
    obtain q s3 where s3: "new_cell (fresh_value 0 ?p) s2 = (q, s3)" by force
    note n3 = cell_new [OF s3]
    have o3: "owns (add_mset (brk s2) (add_mset a R)) s3"
      by (rule owns_new [OF _ s3]) (use c2(1) in simp)
    show ?thesis
    proof (cases ok)
      case False
      obtain s4 where "value_free (Some (brk s2)) s3 = Some s4" "owns (add_mset a R) s4"
        using free_new_copy [OF o3] by blast
      then show ?thesis
        using False v m gt s1 True s2(1,3) s3 n3 o1(5) by (simp add: map_ensure_writable_def)
    next
      case ok: True
      then have mm: "\<lparr>m_size = m_size m, m_buckets = bs\<rparr> = m" using s2(3) by simp
      have ab: "a \<noteq> brk s2" using cell_SomeD [OF v] c2(3) by simp
      obtain v3 where v2: "cell s2 a = Some v3" "unat (refcount v) \<le> unat (refcount v3)"
        using c2(4) v unfolding counts_grow_def by blast
      then have v3: "cell s3 a = Some v3" "unat (refcount v) \<le> unat (refcount v3)" using n3 ab by simp_all
      then have n1: "refcount v3 \<noteq> 1" using gt by (auto simp: word_less_nat_alt)
      let ?s = "put a (v3\<lparr>refcount := refcount v3 - 1\<rparr>) s3"
      have o3': "owns (add_mset a (add_mset (brk s2) R)) s3" using o3 by (simp add: add_mset_commute)
      note rl = owns_release [OF o3' v3(1) n1]
      have e: "map_ensure_writable a s = Some (Some (brk s2), ?s)"
        using v m gt s1 True s2(1) s3 n3 rl(1) ok by (simp add: map_ensure_writable_def)
      have p3: "pay s3 = (pay s)(brk s2 \<mapsto> VMap m)"
        using n3 c2(2) mm by (auto simp: pay_def fun_eq_iff fresh_value_def)
      have "pay ?s = pay s3" using v3(1) by (auto simp: pay_put fun_eq_iff) (simp add: pay_def)
      moreover have "\<exists>w. cell ?s (brk s2) = Some w \<and> refcount w = 1"
        using n3 ab cell_SomeD [OF v3(1)] by (simp add: cell_put fresh_value_def)
      moreover have "oom ?s = oom s" using c2(5) s3 by (auto simp: put_def new_cell_def)
      moreover have "pay s (brk s2) = None" using c2(3) by (simp add: pay_def cell_def)
      ultimately have "copied_to (VMap m) a R s (brk s2) ?s"
        unfolding copied_to_def using ab rl(2) p3 by auto
      then show ?thesis using e by blast
    qed
  qed
qed

interpretation mp: cow_container VMap as_map "\<lambda>m. map e_value (concat (m_buckets m))" map_ensure_writable
proof
  show "as_map p = Some c \<longleftrightarrow> p = VMap c" for p c by (auto simp: as_map_def split: payload.splits)
  show "children (VMap c) = values_of (concat (m_buckets c))" for c by simp
  show "map_ensure_writable a s = Some (Some a, s)"
    if "cell s a = Some v" "v_as v = VMap c" "refcount v = 1" for s a v c
    using that by (simp add: map_ensure_writable_def)
qed (rule map_ensure_shared)

subsection \<open>Set, get and delete\<close>

lemma key_hash_strlen: "nul_free k \<Longrightarrow> agim_hash_string k (strlen k) = key_hash k"
  by (simp add: key_hash_def strlen_def)

lemma key_hash_cstring: "nul_free k \<Longrightarrow> agim_hash_cstring k = key_hash k"
  by (simp add: key_hash_def agim_hash_cstring_def hash_cstring_loop_eq agim_hash_string_def)

lemma map_get_pay:
  assumes "pay s b = Some (VMap m)" and "nul_free k"
  shows "map_get (Some b) k s = Some (case find_entry_internal m k (key_hash k) of None \<Rightarrow> None | Some e \<Rightarrow> e_value e)"
  using assms by (auto simp: map_get_def map_find_entry_def peek_def pay_Some key_hash_cstring)

lemma mset_values: "mset (values_of es) = (\<Sum>e \<in># mset es. mset (somes [e_value e]))"
proof (induction es)
  case (Cons e es)
  then show ?case by (cases "e_value e") simp_all
qed simp

text \<open>The lookup right after an insertion or an update finds the value.\<close>

lemma find_after_prepend:
  assumes "map_ok m" and "nul_free k"
  shows "find_entry_internal (map_prepend m k (key_hash k) v) k (key_hash k)
    = Some \<lparr>e_key = \<lparr>s_hash = key_hash k, s_data = k\<rparr>, e_value = v\<rparr>"
proof -
  have "m_buckets m \<noteq> []" using assms(1) by (simp add: map_ok_def)
  then show ?thesis
    by (simp add: find_entry_internal_def map_prepend_def add_entry_def Let_def MAP_MAX_CHAIN_DEPTH_def
      entry_matches_def strcmp_def bytes_cmp_0)
qed

lemma find_set_value:
  "find P (take n xs) = Some e \<Longrightarrow> P (e\<lparr>e_value := v\<rparr>) \<Longrightarrow> find P (take n (set_value P v xs)) = Some (e\<lparr>e_value := v\<rparr>)"
proof (induction xs arbitrary: n)
  case (Cons x xs)
  then show ?case by (cases n) (auto split: if_splits)
qed simp

lemma find_after_update:
  assumes ok: "map_ok m" and f: "find_entry_internal m k (key_hash k) = Some e"
  shows "find_entry_internal (map_update m k (key_hash k) v) k (key_hash k) = Some (e\<lparr>e_value := v\<rparr>)"
proof -
  have "m_buckets m \<noteq> []" using ok by (simp add: map_ok_def)
  moreover have "entry_matches k (key_hash k) (e\<lparr>e_value := v\<rparr>)"
    using f by (auto simp: find_entry_internal_def find_Some_iff entry_matches_def)
  ultimately show ?thesis
    using find_set_value [OF f [unfolded find_entry_internal_def]]
    by (simp add: find_entry_internal_def map_update_def Let_def)
qed

text \<open>What \<open>map_set\<close> on \<open>a\<close> returns: the map \<open>m'\<close> at \<open>b\<close>, with exact reference counts.\<close>

definition map_result :: "addr \<Rightarrow> store \<Rightarrow> addr multiset \<Rightarrow> addr \<Rightarrow> store \<Rightarrow> Map \<Rightarrow> bool" where
  "map_result a s R b s' m' \<longleftrightarrow> pay s' b = Some (VMap m') \<and> map_ok m' \<and> owns (add_mset b R) s'
     \<and> (b = a \<longleftrightarrow> unshared s a)"

lemma map_set_existing:
  assumes t: "write_target a (VMap m) (add_mset x R) s b w s1" and ok: "map_ok m" and k: "nul_free k"
    and f: "find_entry_internal m k (key_hash k) = Some e"
  shows "\<exists>s'. map_set_body k (Some x) b m s1 = Some (Some b, s')
    \<and> map_result a s R b s' (map_update m k (key_hash k) (Some x))"
proof -
  obtain s2 w2 where s2: "gc_write_barrier b (Some x) s1 = Some s2" "owns (add_mset b (add_mset x R)) s2"
    "cell s2 b = Some w2" "v_as w2 = VMap m" "refcount w2 = 1"
    by (rule mp.after_barrier [OF t, of "Some x"]) simp_all
  let ?m = "map_update m k (key_hash k) (Some x)"
  note u = map_update_ok [OF ok k f, of "Some x"]
  have "e_value e \<in> set (map e_value (concat (m_buckets m)))"
    using find_entry_Some(3) [OF ok k f] by (simp del: set_concat)
  moreover have "mset (values_of (concat (m_buckets ?m))) + mset (somes [e_value e]) + R
    = mset (values_of (concat (m_buckets m))) + add_mset x R"
    using arg_cong [OF u(3), of "\<lambda>M. \<Sum>e \<in># M. mset (somes [e_value e])"] unfolding mset_values
    by (simp add: ac_simps)
  ultimately obtain s3 s4 where "free_item (e_value e) s2 = Some s3" "store_as b (VMap ?m) s3 = Some s4"
    "owns (add_mset b R) s4" "pay s4 b = Some (VMap ?m)"
    using mp.take_out(1) [OF s2(2-5)] by blast
  then show ?thesis
    using s2(1) f t u(1) key_hash_strlen [OF k] by (simp add: map_set_body_def map_result_def write_target_def)
qed

lemma map_set_fresh:
  assumes t: "write_target a (VMap m) (add_mset x R) s b w s1" and ok: "map_ok m" and k: "nul_free k"
    and f: "find_entry_internal m k (key_hash k) = None" and new: "\<forall>e \<in> set (concat (m_buckets m)). key_of e \<noteq> k"
    and mem: "\<forall>k. \<not> oom s k"
  shows "\<exists>s' m' e. map_set_body k (Some x) b m s1 = Some (Some b, s') \<and> map_result a s R b s' m'
    \<and> map_abs m' = (map_abs m)(k \<mapsto> Some x)
    \<and> find_entry_internal m' k (key_hash k) = Some e \<and> e_value e = Some x"
proof -
  obtain s2 w2 where s2: "gc_write_barrier b (Some x) s1 = Some s2" "owns (add_mset b (add_mset x R)) s2"
    "pay s2 = pay s1" "oom s2 = oom s"
    by (rule mp.after_barrier [OF t, of "Some x"]) simp_all
  obtain m1 s3 where g: "map_grow m (key_hash k) s2 = (m1, s3)" by force
  note gg = map_grow_ok [OF ok g]
  obtain s4 where s4: "allocs_ok 2 s3 = (True, s4)" using allocs_ok_mem [of s3 2] gg(5) s2(4) mem by auto
  have o4: "owns (add_mset b (add_mset x R)) s4" "pay s4 = pay s1"
    using cloned_allocs(1) [OF _ s4] gg(6,7) s2(2,3) by (simp_all add: cloned_def)
  have new1: "\<forall>e \<in> set (concat (m_buckets m1)). key_of e \<noteq> k"
    using new mset_eq_setD [OF gg(3)] by simp
  let ?m = "map_prepend m1 k (key_hash k) (Some x)"
  have "mset (concat (m_buckets ?m))
      = add_mset \<lparr>e_key = \<lparr>s_hash = key_hash k, s_data = k\<rparr>, e_value = Some x\<rparr> (mset (concat (m_buckets m)))"
    using mset_add_entry [of "m_buckets m1"] gg(1,3) by (simp add: map_prepend_def map_ok_def)
  then have moved: "mset (values_of (concat (m_buckets ?m))) + R = mset (values_of (concat (m_buckets m))) + add_mset x R"
    unfolding mset_values by simp
  obtain s' where s': "store_as b (VMap ?m) s4 = Some s'" "cow_written a s R b s'" "pay s' b = Some (VMap ?m)"
    using mp.write_done [OF t o4 moved] by blast
  have "take (strlen k) k = k" using k by (simp add: strlen_def)
  then have run: "map_set_body k (Some x) b m s1 = Some (Some b, s')"
    using s2(1) f g s4 s'(1) key_hash_strlen [OF k] by (simp add: map_set_body_def)
  have "map_result a s R b s' ?m"
    using s'(2,3) map_prepend_ok(1) [OF gg(1) k new1] by (simp add: map_result_def cow_written_def)
  moreover have "map_abs ?m = (map_abs m)(k \<mapsto> Some x)"
    using map_prepend_ok(2) [OF gg(1) k new1] gg(2) by simp
  ultimately show ?thesis using run find_after_prepend [OF gg(1) k, of "Some x"] by fastforce
qed

text \<open>
  C8. A map behaves as a finite map under insertion of a key that is not stored behind the sixteen
  entries of its chain that a lookup follows: when memory is available, \<open>map_set\<close> returns a map
  that satisfies the type invariant and represents the old map updated at that key, through
  growth, rehashing and replacement alike. The new value is found at once, the reference to a
  replaced value is given up exactly once, and a shared map is copied first. (The condition holds
  for every key of a map whose chains have at most sixteen entries, but \<open>map_set\<close> does not keep
  the chains that short; the theorem on the depth bound below shows what happens beyond it.)
\<close>

theorem map_set_refines:
  assumes o: "owns (add_mset a (add_mset x R)) s" and p: "pay s a = Some (VMap m)" and ok: "map_ok m"
    and k: "nul_free k" and depth: "not_hidden m k"
    and rm: "room (length (concat (m_buckets m))) s" and mem: "\<forall>k. \<not> oom s k"
  shows "\<exists>b s' m'. map_set (Some a) k (Some x) s = Some (Some b, s') \<and> map_result a s R b s' m'
    \<and> map_abs m' = (map_abs m)(k \<mapsto> Some x) \<and> map_get (Some b) k s' = Some (Some x)"
proof -
  have rm': "room (length (map e_value (concat (m_buckets m)))) s" using rm by simp
  show ?thesis
    using o p rm'
  proof (cases rule: mp.on_writable_owns [where f = "map_set_body k (Some x)" and other = "\<lambda>p. p"])
    case (nomem s')
    then show ?thesis using mem by blast
  next
    case (target b w s1)
    show ?thesis
    proof (cases "find_entry_internal m k (key_hash k)")
      case (Some e)
      obtain s' where s': "map_set_body k (Some x) b m s1 = Some (Some b, s')"
        "map_result a s R b s' (map_update m k (key_hash k) (Some x))"
        using map_set_existing [OF target(2) ok k Some] by blast
      moreover have "map_get (Some b) k s' = Some (Some x)"
        using s'(2) map_get_pay [OF _ k] find_after_update [OF ok Some] by (simp add: map_result_def)
      ultimately show ?thesis
        using target(1) map_update_ok(2) [OF ok k Some] unfolding map_set_def by metis
    next
      case None
      note new = find_entry_None(2) [OF ok k depth None]
      obtain s' m' e where s': "map_set_body k (Some x) b m s1 = Some (Some b, s')" "map_result a s R b s' m'"
        "map_abs m' = (map_abs m)(k \<mapsto> Some x)" "find_entry_internal m' k (key_hash k) = Some e" "e_value e = Some x"
        using map_set_fresh [OF target(2) ok k None new mem] by blast
      then have "map_get (Some b) k s' = Some (Some x)"
        using map_get_pay [OF _ k, of s' b m'] by (simp add: map_result_def)
      then show ?thesis using target(1) s'(1-3) unfolding map_set_def by metis
    qed
  qed
qed

lemma map_ok_empty: "0 < n \<Longrightarrow> map_ok \<lparr>m_size = 0, m_buckets = replicate n []\<rparr>"
  by (simp add: map_ok_def placed_def)

lemma map_abs_empty [simp]: "map_abs \<lparr>m_size = 0, m_buckets = replicate n []\<rparr> = Map.empty"
  by (simp add: map_abs_def)

theorem map_set_refines_witness:
  "\<exists>b s' m'. map_set (Some 1) ''id'' (Some 0) (store_of [fresh_value 0 (VInt 7),
      fresh_value 0 (VMap \<lparr>m_size = 0, m_buckets = replicate 16 []\<rparr>)]) = Some (Some b, s')
    \<and> pay s' b = Some (VMap m') \<and> map_abs m' = [''id'' \<mapsto> Some 0]
    \<and> map_get (Some b) ''id'' s' = Some (Some 0)"
proof -
  let ?m = "\<lparr>m_size = 0, m_buckets = replicate 16 []\<rparr>"
  let ?vs = "[fresh_value 0 (VInt 7), fresh_value 0 (VMap ?m)]"
  have "owns (add_mset 1 (add_mset 0 {#})) (store_of ?vs)"
    by (rule owns_store_of) (simp_all add: store_eval)
  moreover have "room 0 (store_of ?vs)" by (rule room_store_of) (simp add: fresh_value_def)
  moreover have "pay (store_of ?vs) 1 = Some (VMap ?m)" by (simp add: pay_store_of fresh_value_def)
  moreover have "map_ok ?m" by (rule map_ok_empty) simp
  moreover have "nul_free ''id''" by (simp add: nul_free_def)
  moreover have "not_hidden ?m ''id''" by (rule not_hidden_short) (simp add: bucket_index_def)
  ultimately show ?thesis
    using map_set_refines [of 1 0 "{#}" "store_of ?vs" ?m "''id''"]
    by (auto simp: map_result_def concat_eq_Nil_conv)
qed

lemma find_full_chain:
  assumes ok: "map_ok m" and k: "nul_free k"
    and f: "find (entry_matches k (key_hash k)) (m_buckets m ! key_index m k) = None"
  shows "map_abs m k = None"
proof (rule ccontr)
  assume "map_abs m k \<noteq> None"
  then obtain e where e: "e \<in> set (concat (m_buckets m))" "key_of e = k"
    using map_abs_Some [OF ok, of k] by (auto simp del: set_concat)
  then have "e \<in> set (m_buckets m ! key_index m k)" using in_concat_bucket [OF ok] by blast
  moreover have "entry_matches k (key_hash k) e"
    using e ok k entry_matches_key [of e k] unfolding map_ok_def by blast
  ultimately show False using f by (auto simp: find_None_iff)
qed

text \<open>
  C9. Deletion refines removal from the finite map, whatever the length of the chain: the
  resulting map satisfies the type invariant, represents the old map without the key, and the
  reference to the deleted value is given up exactly once.
\<close>

theorem map_delete_refines:
  assumes o: "owns (add_mset a R) s" and p: "pay s a = Some (VMap m)" and ok: "map_ok m" and k: "nul_free k"
    and rm: "room (length (concat (m_buckets m))) s" and mem: "\<forall>k. \<not> oom s k"
  shows "\<exists>b s' m'. map_delete (Some a) k s = Some (Some b, s') \<and> map_result a s R b s' m'
    \<and> map_abs m' = (map_abs m)(k := None)"
proof -
  have rm': "room (length (map e_value (concat (m_buckets m)))) s" using rm by simp
  show ?thesis
    using o p rm'
  proof (cases rule: mp.on_writable_owns [where f = "map_delete_body k" and other = "\<lambda>p. p"])
    case (nomem s')
    then show ?thesis using mem by blast
  next
    case (target b w s1)
    have t: "cell s1 b = Some w" "v_as w = VMap m" "owns (add_mset b R) s1" "refcount w = 1" "b = a \<longleftrightarrow> unshared s a"
      using target(2) by (simp_all add: write_target_def)
    let ?P = "entry_matches k (key_hash k)"
    show ?thesis
    proof (cases "find ?P (m_buckets m ! key_index m k)")
      case None
      then have "map_delete (Some a) k s = Some (Some b, s1)"
        using target(1) key_hash_strlen [OF k] by (simp add: map_delete_def map_delete_body_def Let_def)
      moreover have "map_result a s R b s1 m" using t ok by (simp add: map_result_def pay_def)
      moreover have "(map_abs m)(k := None) = map_abs m"
        using find_full_chain [OF ok k None] by (simp add: fun_upd_idem)
      ultimately show ?thesis by metis
    next
      case (Some e)
      let ?m = "m\<lparr>m_size := m_size m - 1, m_buckets := (m_buckets m)[key_index m k :=
        remove_first ?P (m_buckets m ! key_index m k)]\<rparr>"
      note r = map_remove_ok [OF ok k Some refl]
      have "e_value e \<in> set (map e_value (concat (m_buckets m)))"
        using mset_eq_setD [OF r(3) [unfolded mset.simps(2) [symmetric]]] by (metis list.set_intros(1) image_eqI set_map)
      moreover have "mset (values_of (concat (m_buckets ?m))) + mset (somes [e_value e]) + R
        = mset (values_of (concat (m_buckets m))) + R"
        using arg_cong [OF r(3), of "\<lambda>M. \<Sum>e \<in># M. mset (somes [e_value e])"] unfolding mset_values
        by (simp add: ac_simps)
      ultimately obtain s2 s3 where "store_as b (VMap ?m) s1 = Some s2" "free_item (e_value e) s2 = Some s3"
        "owns (add_mset b R) s3" "pay s3 b = Some (VMap ?m)"
        using mp.take_out(2) [OF t(3,1,2,4)] by blast
      then have "map_delete (Some a) k s = Some (Some b, s3)" "map_result a s R b s3 ?m"
        using target(1) key_hash_strlen [OF k] Some t(5) r(1)
        by (simp_all add: map_delete_def map_delete_body_def Let_def map_result_def)
      then show ?thesis using r(2) by blast
    qed
  qed
qed

definition entry_for :: "string \<Rightarrow> ptr \<Rightarrow> MapEntry" where
  "entry_for k v = \<lparr>e_key = \<lparr>s_hash = key_hash k, s_data = k\<rparr>, e_value = v\<rparr>"

text \<open>A map with a single bucket, for concrete runs.\<close>

definition one_bucket :: "(string \<times> ptr) list \<Rightarrow> Map" where
  "one_bucket kvs = \<lparr>m_size = length kvs, m_buckets = [map (\<lambda>(k, v). entry_for k v) kvs]\<rparr>"

lemma one_bucket_ok:
  assumes "\<forall>(k, v) \<in> set kvs. nul_free k" and "distinct (map fst kvs)"
  shows "map_ok (one_bucket kvs)"
proof -
  have e: "map key_of (map (\<lambda>(k, v). entry_for k v) kvs) = map fst kvs"
    by (induction kvs) (auto simp: entry_for_def)
  have "distinct (map key_of (concat (m_buckets (one_bucket kvs))))"
    using assms(2) e by (simp only: one_bucket_def Map.select_convs concat.simps append_Nil2)
  moreover have "\<forall>e \<in> set (concat (m_buckets (one_bucket kvs))). entry_ok e"
    using assms(1) by (auto simp: one_bucket_def entry_ok_def entry_for_def)
  ultimately show ?thesis
    by (simp add: map_ok_def one_bucket_def placed_def bucket_index_def)
qed

lemma map_abs_one_bucket: "map_abs (one_bucket kvs) = map_of kvs"
proof -
  have "map (\<lambda>e. (key_of e, e_value e)) (concat (m_buckets (one_bucket kvs))) = kvs"
    by (induction kvs) (auto simp: one_bucket_def entry_for_def)
  then show ?thesis by (simp add: map_abs_def)
qed

theorem map_delete_refines_witness:
  "\<exists>b s' m'. map_delete (Some 1) ''id'' (store_of [fresh_value 0 (VInt 7),
      fresh_value 0 (VMap (one_bucket [(''id'', Some 0), (''tag'', None)]))]) = Some (Some b, s')
    \<and> pay s' b = Some (VMap m') \<and> map_abs m' = [''tag'' \<mapsto> None] \<and> owns {#b#} s'"
proof -
  let ?m = "one_bucket [(''id'', Some 0), (''tag'', None)]"
  let ?vs = "[fresh_value 0 (VInt 7), fresh_value 0 (VMap ?m)]"
  have "owns (add_mset 1 {#}) (store_of ?vs)"
    by (rule owns_store_of) (simp_all add: store_eval one_bucket_def entry_for_def)
  moreover have "length (concat (m_buckets ?m)) = 2" by (simp add: one_bucket_def)
  moreover have "room 2 (store_of ?vs)" by (rule room_store_of) (simp add: fresh_value_def)
  moreover have "pay (store_of ?vs) 1 = Some (VMap ?m)" by (simp add: pay_store_of fresh_value_def)
  moreover have "map_ok ?m" by (rule one_bucket_ok) (simp_all add: nul_free_def)
  moreover have "nul_free ''id''" by (simp add: nul_free_def)
  moreover have "(map_abs ?m)(''id'' := None) = [''tag'' \<mapsto> None]" by (simp add: map_abs_one_bucket fun_eq_iff)
  ultimately show ?thesis
    using map_delete_refines [of 1 "{#}" "store_of ?vs" ?m "''id''"]
    by (simp add: map_result_def) blast
qed

text \<open>
  C10. The depth bound loses entries: in a well-formed map an entry behind sixteen others of its
  bucket is not found, although the map holds its key. \<open>map_set\<close> then enters the key a second
  time. (Such chains arise from seventeen keys whose hashes agree modulo the capacity, since
  \<open>map_set\<close> doubles the capacity at most once per overlong chain and inserts in any case.)
\<close>

theorem map_lookup_depth_bound:
  assumes ok: "map_ok m" and i: "i < length (m_buckets m)"
    and j: "MAP_MAX_CHAIN_DEPTH \<le> j" "j < length (m_buckets m ! i)"
    and e: "e = m_buckets m ! i ! j" and p: "pay s b = Some (VMap m)"
  shows "map_abs m (key_of e) = Some (e_value e) \<and> map_has (Some b) (key_of e) s = Some False"
proof
  let ?k = "key_of e"
  have eb: "e \<in> set (m_buckets m ! i)" using e j(2) by simp
  then have ec: "e \<in> set (concat (m_buckets m))" using i by (metis UN_I nth_mem set_concat)
  then show "map_abs m ?k = Some (e_value e)" using map_abs_Some [OF ok] by auto
  have nk: "nul_free ?k" "entry_ok e" using ok ec unfolding map_ok_def entry_ok_def by blast+
  have "s_hash (e_key e) = key_hash ?k" using nk(2) by (simp add: entry_ok_def)
  then have ki: "key_index m ?k = i" using ok i eb unfolding map_ok_def placed_def by metis
  have "key_of f \<noteq> ?k" if f: "f \<in> set (take MAP_MAX_CHAIN_DEPTH (m_buckets m ! i))" for f
  proof -
    obtain l where l: "l < MAP_MAX_CHAIN_DEPTH" "l < length (m_buckets m ! i)" "m_buckets m ! i ! l = f"
      using f by (auto simp: in_set_conv_nth)
    then have "map key_of (m_buckets m ! i) ! l \<noteq> map key_of (m_buckets m ! i) ! j"
      using nth_eq_iff_index_eq [OF bucket_keys_distinct [OF ok i], of l j] j by simp
    then show ?thesis using l j e by simp
  qed
  then have "find_entry_internal m ?k (key_hash ?k) = None"
    using find_entry_within [OF ok nk(1)] ki by (auto simp: find_None_iff)
  then show "map_has (Some b) ?k s = Some False"
    using p nk(1) by (auto simp: map_has_def map_find_entry_def peek_def pay_Some key_hash_cstring)
qed

theorem map_lookup_depth_bound_witness:
  "map_has (Some 0) ''q'' (store_of [fresh_value 0 (VMap (one_bucket (map (\<lambda>c. ([c], None))
     ''abcdefghijklmnopq'')))]) = Some False"
proof -
  let ?m = "one_bucket (map (\<lambda>c. ([c], None)) ''abcdefghijklmnopq'')"
  let ?s = "store_of [fresh_value 0 (VMap ?m)]"
  have "map_ok ?m" by (rule one_bucket_ok) (simp_all add: nul_free_def)
  moreover have "pay ?s 0 = Some (VMap ?m)" by (simp add: pay_store_of fresh_value_def)
  moreover have "key_of (m_buckets ?m ! 0 ! 16) = ''q''" by (simp add: one_bucket_def entry_for_def)
  moreover have "length (m_buckets ?m ! 0) = 17" "length (m_buckets ?m) = 1" by (simp_all add: one_bucket_def)
  ultimately show ?thesis
    using map_lookup_depth_bound [of ?m 0 16 "m_buckets ?m ! 0 ! 16" ?s 0]
    by (simp add: MAP_MAX_CHAIN_DEPTH_def)
qed

end
