(* ===== verification/FloatArith.thy ===== *)
theory FloatArith
  imports Float64
begin

text \<open>
  Arithmetic on the C type \<^verbatim>\<open>double\<close>: the exact result as an integer times a power of two, rounded
  once to nearest, ties to even, with gradual underflow and overflow to infinity. An operation on
  a NaN returns the quieted operand, an invalid one the default NaN of the x86-64 vector unit.
\<close>

definition f64_inf_mag :: nat where "f64_inf_mag = 2047 * 2 ^ 52"

definition f64_pack :: "bool \<Rightarrow> nat \<Rightarrow> f64" where
  "f64_pack neg m = of_nat m + (if neg then 2 ^ 63 else 0)"

definition f64_is_inf :: "f64 \<Rightarrow> bool" where
  "f64_is_inf x \<longleftrightarrow> f64_mag x = f64_inf_mag"

text \<open>A finite double is \<open>f64_significand x * 2 ^ f64_exponent x\<close>, up to its sign.\<close>

definition f64_significand :: "f64 \<Rightarrow> nat" where
  "f64_significand x = (if f64_mag x < 2 ^ 52 then f64_mag x else f64_mag x mod 2 ^ 52 + 2 ^ 52)"

definition f64_exponent :: "f64 \<Rightarrow> int" where
  "f64_exponent x = max (int (f64_mag x div 2 ^ 52)) 1 - 1075"

text \<open>The magnitude of \<open>n * 2 ^ k\<close>, rounded.\<close>

definition f64_round :: "nat \<Rightarrow> int \<Rightarrow> nat" where
  "f64_round n k =
     (if n = 0 then 0
      else let q = max (int (bit_length n) - 53 + k) (- 1074);
               f = (if q \<le> k then n * 2 ^ nat (k - q) else round_shift n (nat (q - k)))
           in min (nat (q + 1074) * 2 ^ 52 + f) f64_inf_mag)"

definition f64_default_nan :: f64 where "f64_default_nan = 0xFFF8000000000000"

definition f64_nan2 :: "f64 \<Rightarrow> f64 \<Rightarrow> f64" where
  "f64_nan2 x y =
     (if f64_is_nan x then x OR 2 ^ 51 else if f64_is_nan y then y OR 2 ^ 51 else f64_default_nan)"

definition f64_add :: "f64 \<Rightarrow> f64 \<Rightarrow> f64" where
  "f64_add x y =
     (if f64_is_nan x \<or> f64_is_nan y \<or> f64_is_inf x \<and> f64_is_inf y \<and> f64_neg x \<noteq> f64_neg y
      then f64_nan2 x y
      else if f64_is_inf x then x
      else if f64_is_inf y then y
      else let k = min (f64_exponent x) (f64_exponent y);
               a = int (f64_significand x * 2 ^ nat (f64_exponent x - k));
               b = int (f64_significand y * 2 ^ nat (f64_exponent y - k));
               s = (if f64_neg x then - a else a) + (if f64_neg y then - b else b)
           in if s = 0 then f64_pack (f64_neg x \<and> f64_neg y) 0
              else f64_pack (s < 0) (f64_round (nat \<bar>s\<bar>) k))"

definition f64_minus :: "f64 \<Rightarrow> f64" where
  "f64_minus x = x XOR 2 ^ 63"

definition f64_sub :: "f64 \<Rightarrow> f64 \<Rightarrow> f64" where
  "f64_sub x y = (if f64_is_nan y then f64_nan2 x y else f64_add x (f64_minus y))"

definition f64_mul :: "f64 \<Rightarrow> f64 \<Rightarrow> f64" where
  "f64_mul x y =
     (let neg = (f64_neg x \<noteq> f64_neg y)
      in if f64_is_nan x \<or> f64_is_nan y \<or> f64_is_inf x \<and> f64_mag y = 0 \<or> f64_mag x = 0 \<and> f64_is_inf y
         then f64_nan2 x y
         else if f64_is_inf x \<or> f64_is_inf y then f64_pack neg f64_inf_mag
         else f64_pack neg (f64_round (f64_significand x * f64_significand y) (f64_exponent x + f64_exponent y)))"

text \<open>The quotient is taken with 110 extra bits and a sticky bit for the remainder.\<close>

definition f64_div :: "f64 \<Rightarrow> f64 \<Rightarrow> f64" where
  "f64_div x y =
     (let neg = (f64_neg x \<noteq> f64_neg y)
      in if f64_is_nan x \<or> f64_is_nan y \<or> f64_is_inf x \<and> f64_is_inf y \<or> f64_mag x = 0 \<and> f64_mag y = 0
         then f64_nan2 x y
         else if f64_is_inf x \<or> f64_mag y = 0 then f64_pack neg f64_inf_mag
         else if f64_is_inf y then f64_pack neg 0
         else let n = f64_significand x * 2 ^ 110; d = f64_significand y
              in f64_pack neg (f64_round (2 * (n div d) + (if n mod d = 0 then 0 else 1))
                   (f64_exponent x - f64_exponent y - 111)))"

definition f64_le :: "f64 \<Rightarrow> f64 \<Rightarrow> bool" where
  "f64_le x y \<longleftrightarrow> \<not> f64_is_nan x \<and> \<not> f64_is_nan y \<and> f64_key x \<le> f64_key y"

text \<open>
  Known values: \<open>0.1 + 0.2\<close>, \<open>1 / 3\<close>, \<open>0.1 * 3\<close>, the overflow \<open>1e308 * 10\<close>, and the underflow of half
  the smallest subnormal number to zero.
\<close>

lemma f64_samples:
  "f64_add 0x3FB999999999999A 0x3FC999999999999A = 0x3FD3333333333334"
  "f64_div 0x3FF0000000000000 0x4008000000000000 = 0x3FD5555555555555"
  "f64_mul 0x3FB999999999999A 0x4008000000000000 = 0x3FD3333333333334"
  "f64_mul 0x7FE1CCF385EBC8A0 0x4024000000000000 = 0x7FF0000000000000"
  "f64_mul 1 0x3FE0000000000000 = 0"
  "f64_sub 0x3FF0000000000000 0x3FF0000000000000 = 0"
  by (simp_all add: f64_add_def f64_div_def f64_mul_def f64_sub_def f64_minus_def f64_round_def f64_pack_def
      f64_significand_def f64_exponent_def f64_is_nan_def f64_is_inf_def f64_inf_mag_def f64_mag_def f64_neg_def
      bit_length.simps round_shift_def Let_def)

end
