(* ===== verification/RegVM.thy ===== *)
theory RegVM
  imports MapType Nanbox FloatArith
begin

text \<open>
  The register machine of \<^verbatim>\<open>vm/regvm.c\<close>. Registers hold NaN-boxed words; objects are cells of the
  value store behind a boxed address. Instructions keep their byte layout, since the meaning of a
  jump depends on it. \<open>None\<close> is undefined behaviour: a jump out of the code, an opcode without an
  entry in the dispatch table, an uninitialised or missing register, a signed overflow, or what the
  called operations leave undefined. Printing appends to a list of printed values; the fields of
  the machine that this file never reads (upvalues, block, scheduler) are left out.
\<close>

subsection \<open>Instructions\<close>

datatype RegOp =
    ROP_NOP | ROP_MOV | ROP_LOAD_K | ROP_LOAD_NIL | ROP_LOAD_TRUE | ROP_LOAD_FALSE | ROP_LOAD_INT
  | ROP_ADD | ROP_SUB | ROP_MUL | ROP_DIV | ROP_MOD | ROP_NEG
  | ROP_EQ | ROP_NE | ROP_LT | ROP_LE | ROP_GT | ROP_GE
  | ROP_NOT | ROP_AND | ROP_OR
  | ROP_JMP | ROP_JMP_IF | ROP_JMP_UNLESS | ROP_LOOP
  | ROP_CALL | ROP_TAIL_CALL | ROP_RET
  | ROP_GET_GLOBAL | ROP_SET_GLOBAL
  | ROP_ARRAY_NEW | ROP_ARRAY_PUSH | ROP_ARRAY_GET | ROP_ARRAY_SET
  | ROP_MAP_NEW | ROP_MAP_GET | ROP_MAP_SET | ROP_MAP_GET_IC
  | ROP_CONCAT
  | ROP_CLOSURE | ROP_GET_UPVALUE | ROP_SET_UPVALUE | ROP_CLOSE_UPVALUE
  | ROP_SPAWN | ROP_SEND | ROP_RECEIVE | ROP_SELF | ROP_YIELD
  | ROP_LEN | ROP_TYPE | ROP_PRINT | ROP_HALT

record RegInstr =
  i_op :: RegOp
  i_rd :: u8
  i_rs1 :: u8
  i_rs2 :: u8

definition reg_get_imm :: "RegInstr \<Rightarrow> u16" where
  "reg_get_imm i = push_bit 8 (ucast (i_rs1 i)) OR ucast (i_rs2 i)"

text \<open>The sum is an \<^verbatim>\<open>int32_t\<close>; bit 23 is its sign.\<close>

definition reg_get_offset :: "RegInstr \<Rightarrow> u32" where
  "reg_get_offset i =
     (let off = push_bit 16 (ucast (i_rd i)) OR push_bit 8 (ucast (i_rs1 i)) OR ucast (i_rs2 i) :: u32
      in if off AND 0x800000 \<noteq> 0 then off OR 0xFF000000 else off)"

definition reg_instr :: "RegOp \<Rightarrow> u8 \<Rightarrow> u8 \<Rightarrow> u8 \<Rightarrow> RegInstr" where
  "reg_instr opc rd rs1 rs2 = \<lparr>i_op = opc, i_rd = rd, i_rs1 = rs1, i_rs2 = rs2\<rparr>"

definition reg_instr_imm :: "RegOp \<Rightarrow> u8 \<Rightarrow> u16 \<Rightarrow> RegInstr" where
  "reg_instr_imm opc rd imm =
     \<lparr>i_op = opc, i_rd = rd, i_rs1 = ucast (drop_bit 8 imm AND 0xFF), i_rs2 = ucast (imm AND 0xFF)\<rparr>"

definition reg_instr_jump :: "RegOp \<Rightarrow> u32 \<Rightarrow> RegInstr" where
  "reg_instr_jump opc offset =
     \<lparr>i_op = opc, i_rd = ucast (drop_bit 16 offset AND 0xFF), i_rs1 = ucast (drop_bit 8 offset AND 0xFF),
      i_rs2 = ucast (offset AND 0xFF)\<rparr>"

definition reg_instr_cond_jump :: "RegOp \<Rightarrow> u8 \<Rightarrow> u16 \<Rightarrow> RegInstr" where
  "reg_instr_cond_jump opc cond_reg offset =
     \<lparr>i_op = opc, i_rd = cond_reg, i_rs1 = ucast (drop_bit 8 offset AND 0xFF), i_rs2 = ucast (offset AND 0xFF)\<rparr>"

definition reg_get_cond_offset :: "RegInstr \<Rightarrow> u16" where
  "reg_get_cond_offset i = push_bit 8 (ucast (i_rs1 i)) OR ucast (i_rs2 i)"

subsection \<open>Chunks\<close>

record RegChunk =
  ch_code :: "RegInstr list"
  ch_code_capacity :: nat
  ch_constants :: "ptr list"
  ch_constants_capacity :: nat
  ch_lines :: "int list"
  ch_lines_capacity :: nat
  ch_num_regs :: u8
  ch_num_params :: u8
  ch_num_upvalues :: u8

text \<open>
  The four arrays of a new chunk are allocated without a check; a failed one is written through
  later, which the model makes undefined at once.
\<close>

definition regchunk_new :: "store \<Rightarrow> (RegChunk option \<times> store) option" where
  "regchunk_new s =
     (let (ok, s) = agim_alloc s
      in if \<not> ok then Some (None, s)
         else let (ok, s) = allocs_ok 4 s
              in if \<not> ok then None
                 else Some (Some \<lparr>ch_code = [], ch_code_capacity = 256, ch_constants = [],
                   ch_constants_capacity = 64, ch_lines = [], ch_lines_capacity = 256,
                   ch_num_regs = 0, ch_num_params = 0, ch_num_upvalues = 0\<rparr>, s))"

definition regchunk_write :: "RegChunk \<Rightarrow> RegInstr \<Rightarrow> int \<Rightarrow> store \<Rightarrow> (RegChunk \<times> store) option" where
  "regchunk_write chunk instr line s = do {
     (chunk, s) \<leftarrow>
       (if ch_code_capacity chunk \<le> length (ch_code chunk)
        then let (ok, s) = agim_alloc s
             in if ok then Some (chunk\<lparr>ch_code_capacity := sz (ch_code_capacity chunk * 2)\<rparr>, s) else None
        else Some (chunk, s));
     (chunk, s) \<leftarrow>
       (if ch_lines_capacity chunk \<le> length (ch_code chunk)
        then let (ok, s) = agim_alloc s
             in if ok then Some (chunk\<lparr>ch_lines_capacity := sz (ch_lines_capacity chunk * 2)\<rparr>, s) else None
        else Some (chunk, s));
     Some (chunk\<lparr>ch_code := ch_code chunk @ [instr], ch_lines := ch_lines chunk @ [line]\<rparr>, s)}"

definition regchunk_add_constant :: "RegChunk \<Rightarrow> ptr \<Rightarrow> store \<Rightarrow> (nat \<times> RegChunk \<times> store) option" where
  "regchunk_add_constant chunk v s = do {
     (chunk, s) \<leftarrow>
       (if ch_constants_capacity chunk \<le> length (ch_constants chunk)
        then let (ok, s) = agim_alloc s
             in if ok then Some (chunk\<lparr>ch_constants_capacity := sz (ch_constants_capacity chunk * 2)\<rparr>, s) else None
        else Some (chunk, s));
     Some (length (ch_constants chunk), chunk\<lparr>ch_constants := ch_constants chunk @ [v]\<rparr>, s)}"

fun regchunk_free_constants :: "ptr list \<Rightarrow> store \<Rightarrow> store option" where
  "regchunk_free_constants [] s = Some s"
| "regchunk_free_constants (v # vs) s = do {s \<leftarrow> value_free v s; regchunk_free_constants vs s}"

definition regchunk_free :: "RegChunk option \<Rightarrow> store \<Rightarrow> store option" where
  "regchunk_free chunk s = (case chunk of None \<Rightarrow> Some s | Some c \<Rightarrow> regchunk_free_constants (ch_constants c) s)"

subsection \<open>Conversion between boxed words and cells\<close>

text \<open>Addresses of cells as machine addresses; 0 is the null pointer.\<close>

definition ptr_word :: "ptr \<Rightarrow> u64" where
  "ptr_word p = (case p of None \<Rightarrow> 0 | Some a \<Rightarrow> of_nat (Suc a))"

definition word_ptr :: "u64 \<Rightarrow> ptr" where
  "word_ptr w = (if w = 0 then None else Some (unat w - 1))"

definition nanbox_to_value :: "NanValue \<Rightarrow> store \<Rightarrow> ptr \<times> store" where
  "nanbox_to_value v s =
     (if nanbox_is_nil v then value_nil s
      else if nanbox_is_bool v then value_bool (nanbox_as_bool v) s
      else if nanbox_is_int v then value_int (nanbox_as_int v) s
      else if nanbox_is_double v then value_float (nanbox_as_double v) s
      else if nanbox_is_pid v then value_pid (nanbox_as_pid v) s
      else if nanbox_is_obj v then (word_ptr (nanbox_as_obj v), s)
      else value_nil s)"

definition value_to_nanbox :: "ptr \<Rightarrow> store \<Rightarrow> NanValue option" where
  "value_to_nanbox p s =
     (case p of None \<Rightarrow> Some NANBOX_NIL
      | Some a \<Rightarrow> do {
          v \<leftarrow> cell s a;
          Some (case v_as v of
             VNil \<Rightarrow> NANBOX_NIL
           | VBool b \<Rightarrow> nanbox_bool b
           | VInt i \<Rightarrow> nanbox_int i
           | VFloat d \<Rightarrow> nanbox_double d
           | VPid q \<Rightarrow> nanbox_pid q
           | _ \<Rightarrow> nanbox_obj (ptr_word p))})"

subsection \<open>Arithmetic and comparison\<close>

text \<open>The \<^verbatim>\<open>int64_t\<close> result of a signed operation; overflow is undefined.\<close>

definition int64 :: "int \<Rightarrow> u64 option" where
  "int64 i = (if - (2 ^ 63) \<le> i \<and> i < 2 ^ 63 then Some (of_int i) else None)"

text \<open>C division truncates towards zero, and the remainder has the sign of the dividend.\<close>

definition quot :: "int \<Rightarrow> int \<Rightarrow> int" where
  "quot a b = sgn a * sgn b * (\<bar>a\<bar> div \<bar>b\<bar>)"

definition rem :: "int \<Rightarrow> int \<Rightarrow> int" where
  "rem a b = a - b * quot a b"

definition as_int :: "NanValue \<Rightarrow> int" where
  "as_int v = sint (nanbox_as_int v)"

definition int_double :: "NanValue \<Rightarrow> f64" where
  "int_double v = f64_of_int (as_int v)"

text \<open>The common shape of addition, subtraction and multiplication.\<close>

definition arith :: "(int \<Rightarrow> int \<Rightarrow> int) \<Rightarrow> (f64 \<Rightarrow> f64 \<Rightarrow> f64) \<Rightarrow> NanValue \<Rightarrow> NanValue \<Rightarrow> NanValue option" where
  "arith iop fop a b =
     (if nanbox_is_int a \<and> nanbox_is_int b then map_option nanbox_int (int64 (iop (as_int a) (as_int b)))
      else if nanbox_is_double a \<and> nanbox_is_double b then Some (nanbox_double (fop (nanbox_as_double a) (nanbox_as_double b)))
      else if nanbox_is_int a \<and> nanbox_is_double b then Some (nanbox_double (fop (int_double a) (nanbox_as_double b)))
      else if nanbox_is_double a \<and> nanbox_is_int b then Some (nanbox_double (fop (nanbox_as_double a) (int_double b)))
      else Some NANBOX_NIL)"

definition nanbox_add :: "NanValue \<Rightarrow> NanValue \<Rightarrow> NanValue option" where
  "nanbox_add = arith (+) f64_add"

definition nanbox_sub :: "NanValue \<Rightarrow> NanValue \<Rightarrow> NanValue option" where
  "nanbox_sub = arith (-) f64_sub"

definition nanbox_mul :: "NanValue \<Rightarrow> NanValue \<Rightarrow> NanValue option" where
  "nanbox_mul = arith (*) f64_mul"

definition nanbox_div :: "NanValue \<Rightarrow> NanValue \<Rightarrow> NanValue option" where
  "nanbox_div a b =
     (if nanbox_is_int a \<and> nanbox_is_int b \<and> as_int b = 0 then Some NANBOX_NIL else arith quot f64_div a b)"

definition nanbox_mod :: "NanValue \<Rightarrow> NanValue \<Rightarrow> NanValue option" where
  "nanbox_mod a b =
     (if nanbox_is_int a \<and> nanbox_is_int b
      then if as_int b = 0 then Some NANBOX_NIL else map_option nanbox_int (int64 (rem (as_int a) (as_int b)))
      else Some NANBOX_NIL)"

definition nanbox_neg :: "NanValue \<Rightarrow> NanValue option" where
  "nanbox_neg a =
     (if nanbox_is_int a then map_option nanbox_int (int64 (- as_int a))
      else if nanbox_is_double a then Some (nanbox_double (f64_minus (nanbox_as_double a)))
      else Some NANBOX_NIL)"

definition nanbox_eq :: "NanValue \<Rightarrow> NanValue \<Rightarrow> NanValue" where
  "nanbox_eq a b =
     (if nanbox_is_int a \<and> nanbox_is_int b then nanbox_bool (as_int a = as_int b)
      else if nanbox_is_double a \<and> nanbox_is_double b then nanbox_bool (f64_eq (nanbox_as_double a) (nanbox_as_double b))
      else if nanbox_is_bool a \<and> nanbox_is_bool b then nanbox_bool (nanbox_as_bool a = nanbox_as_bool b)
      else if nanbox_is_nil a \<and> nanbox_is_nil b then nanbox_bool True
      else if nanbox_is_obj a \<and> nanbox_is_obj b then nanbox_bool (nanbox_as_obj a = nanbox_as_obj b)
      else nanbox_bool False)"

text \<open>The common shape of \<^verbatim>\<open>nanbox_lt\<close> and \<^verbatim>\<open>nanbox_le\<close>; \<open>scmp\<close> tests the result of the string comparison.\<close>

definition compare_boxed ::
  "(int \<Rightarrow> int \<Rightarrow> bool) \<Rightarrow> (f64 \<Rightarrow> f64 \<Rightarrow> bool) \<Rightarrow> (int \<Rightarrow> bool) \<Rightarrow> NanValue \<Rightarrow> NanValue \<Rightarrow> store \<Rightarrow> NanValue option" where
  "compare_boxed icmp fcmp scmp a b s =
     (if nanbox_is_int a \<and> nanbox_is_int b then Some (nanbox_bool (icmp (as_int a) (as_int b)))
      else if nanbox_is_double a \<and> nanbox_is_double b then Some (nanbox_bool (fcmp (nanbox_as_double a) (nanbox_as_double b)))
      else if nanbox_is_int a \<and> nanbox_is_double b then Some (nanbox_bool (fcmp (int_double a) (nanbox_as_double b)))
      else if nanbox_is_double a \<and> nanbox_is_int b then Some (nanbox_bool (fcmp (nanbox_as_double a) (int_double b)))
      else if nanbox_is_obj a \<and> nanbox_is_obj b then do {
        sa \<leftarrow> value_is_string (word_ptr (nanbox_as_obj a)) s;
        sb \<leftarrow> (if sa then value_is_string (word_ptr (nanbox_as_obj b)) s else Some False);
        if sa \<and> sb
        then do {c \<leftarrow> string_compare (word_ptr (nanbox_as_obj a)) (word_ptr (nanbox_as_obj b)) s; Some (nanbox_bool (scmp c))}
        else Some (nanbox_bool False)}
      else Some (nanbox_bool False))"

definition nanbox_lt :: "NanValue \<Rightarrow> NanValue \<Rightarrow> store \<Rightarrow> NanValue option" where
  "nanbox_lt = compare_boxed (<) f64_lt (\<lambda>c. c < 0)"

definition nanbox_le :: "NanValue \<Rightarrow> NanValue \<Rightarrow> store \<Rightarrow> NanValue option" where
  "nanbox_le = compare_boxed (\<le>) f64_le (\<lambda>c. c \<le> 0)"

definition reg_nanbox_is_truthy :: "NanValue \<Rightarrow> bool" where
  "reg_nanbox_is_truthy v =
     (if nanbox_is_nil v then False
      else if nanbox_is_bool v then nanbox_as_bool v
      else if nanbox_is_int v then nanbox_as_int v \<noteq> 0
      else if nanbox_is_double v then \<not> f64_eq (nanbox_as_double v) 0
      else True)"

subsection \<open>The machine\<close>

definition REG_MAX_REGISTERS :: nat where "REG_MAX_REGISTERS = 256"
definition REG_MAX_FRAMES :: nat where "REG_MAX_FRAMES = 64"

text \<open>A register that was never written is \<open>None\<close>; \<open>f_ip\<close> counts from the start of the code.\<close>

record RegCallFrame =
  f_ip :: int
  f_regs :: "nat \<Rightarrow> NanValue option"
  f_chunk :: RegChunk
  f_base :: u8
  f_result_reg :: u8

record RegVM =
  rv_frames :: "nat \<Rightarrow> RegCallFrame"
  rv_frame_count :: nat
  rv_globals :: ptr
  rv_error :: "string option"
  rv_error_line :: int
  rv_reductions :: nat
  rv_reduction_limit :: nat
  rv_printed :: "ptr list"

datatype RegVMResult =
    REGVM_OK | REGVM_HALT | REGVM_YIELD | REGVM_ERROR_COMPILE | REGVM_ERROR_RUNTIME
  | REGVM_ERROR_TYPE | REGVM_ERROR_OVERFLOW

definition no_chunk :: RegChunk where
  "no_chunk = \<lparr>ch_code = [], ch_code_capacity = 0, ch_constants = [], ch_constants_capacity = 0,
     ch_lines = [], ch_lines_capacity = 0, ch_num_regs = 0, ch_num_params = 0, ch_num_upvalues = 0\<rparr>"

definition no_frame :: RegCallFrame where
  "no_frame = \<lparr>f_ip = 0, f_regs = (\<lambda>_. None), f_chunk = no_chunk, f_base = 0, f_result_reg = 0\<rparr>"

text \<open>The allocation of the machine is not checked.\<close>

definition regvm_new :: "store \<Rightarrow> (RegVM \<times> store) option" where
  "regvm_new s =
     (let (ok, s) = agim_alloc s
      in if \<not> ok then None
         else let (globals, s) = value_map s
              in Some (\<lparr>rv_frames = (\<lambda>_. no_frame), rv_frame_count = 0, rv_globals = globals, rv_error = None,
                   rv_error_line = 0, rv_reductions = 0, rv_reduction_limit = 10000, rv_printed = []\<rparr>, s))"

definition regvm_free :: "RegVM option \<Rightarrow> store \<Rightarrow> store option" where
  "regvm_free vm s = (case vm of None \<Rightarrow> Some s | Some v \<Rightarrow> value_free (rv_globals v) s)"

definition regvm_reset :: "RegVM \<Rightarrow> RegVM" where
  "regvm_reset vm = vm\<lparr>rv_frame_count := 0, rv_error := None, rv_error_line := 0, rv_reductions := 0\<rparr>"

definition regvm_set_error :: "string \<Rightarrow> RegVM \<Rightarrow> RegVM" where
  "regvm_set_error msg vm = vm\<lparr>rv_error := Some msg\<rparr>"

definition regvm_error :: "RegVM \<Rightarrow> string option" where "regvm_error vm = rv_error vm"
definition regvm_error_line :: "RegVM \<Rightarrow> int" where "regvm_error_line vm = rv_error_line vm"

text \<open>Registers \<open>0\<close> to \<open>max_reg\<close> are set to nil.\<close>

definition init_regs :: "RegChunk \<Rightarrow> (nat \<Rightarrow> NanValue option) \<Rightarrow> nat \<Rightarrow> NanValue option" where
  "init_regs chunk regs =
     (let max_reg = (if 0 < ch_num_regs chunk then unat (ch_num_regs chunk) else 16)
      in (\<lambda>i. if i \<le> max_reg \<and> i < REG_MAX_REGISTERS then Some NANBOX_NIL else regs i))"

definition enter_frame :: "RegChunk \<Rightarrow> u8 \<Rightarrow> RegVM \<Rightarrow> RegVM" where
  "enter_frame chunk result vm =
     (let n = rv_frame_count vm
      in vm\<lparr>rv_frames := (rv_frames vm)(n := \<lparr>f_ip = 0, f_regs = init_regs chunk (f_regs (rv_frames vm n)),
              f_chunk = chunk, f_base = 0, f_result_reg = result\<rparr>),
            rv_frame_count := Suc n\<rparr>)"

text \<open>The current frame, \<^verbatim>\<open>frame = &vm->frames[vm->frame_count - 1]\<close>.\<close>

definition cur_frame :: "RegVM \<Rightarrow> RegCallFrame" where
  "cur_frame vm = rv_frames vm (rv_frame_count vm - 1)"

definition set_frame :: "RegCallFrame \<Rightarrow> RegVM \<Rightarrow> RegVM" where
  "set_frame f vm = vm\<lparr>rv_frames := (rv_frames vm)(rv_frame_count vm - 1 := f)\<rparr>"

definition get_reg :: "RegVM \<Rightarrow> u8 \<Rightarrow> NanValue option" where
  "get_reg vm r = f_regs (cur_frame vm) (unat r)"

definition set_reg :: "u8 \<Rightarrow> NanValue \<Rightarrow> RegVM \<Rightarrow> RegVM" where
  "set_reg r v vm = set_frame ((cur_frame vm)\<lparr>f_regs := (f_regs (cur_frame vm))(unat r \<mapsto> v)\<rparr>) vm"

definition jump_by :: "int \<Rightarrow> RegVM \<Rightarrow> RegVM" where
  "jump_by d vm = set_frame ((cur_frame vm)\<lparr>f_ip := f_ip (cur_frame vm) + d\<rparr>) vm"

datatype outcome =
    Running RegVM store
  | Stopped RegVMResult RegVM store

definition binary_op :: "(NanValue \<Rightarrow> NanValue \<Rightarrow> store \<Rightarrow> NanValue option) \<Rightarrow> RegInstr \<Rightarrow> RegVM \<Rightarrow> store \<Rightarrow> outcome option" where
  "binary_op f i vm s = do {
     a \<leftarrow> get_reg vm (i_rs1 i);
     b \<leftarrow> get_reg vm (i_rs2 i);
     v \<leftarrow> f a b s;
     Some (Running (set_reg (i_rd i) v vm) s)}"

definition unary_op :: "(NanValue \<Rightarrow> NanValue option) \<Rightarrow> RegInstr \<Rightarrow> RegVM \<Rightarrow> store \<Rightarrow> outcome option" where
  "unary_op f i vm s = do {
     a \<leftarrow> get_reg vm (i_rs1 i);
     v \<leftarrow> f a;
     Some (Running (set_reg (i_rd i) v vm) s)}"

text \<open>A boxed value that the current instruction loads into its destination register.\<close>

definition load_reg :: "NanValue \<Rightarrow> RegInstr \<Rightarrow> RegVM \<Rightarrow> store \<Rightarrow> outcome option" where
  "load_reg v i vm s = Some (Running (set_reg (i_rd i) v vm) s)"

subsection \<open>Calls\<close>

text \<open>The arguments are copied from the caller's registers, indexed in \<^verbatim>\<open>int\<close>.\<close>

fun copy_args :: "(nat \<Rightarrow> NanValue option) \<Rightarrow> nat \<Rightarrow> nat \<Rightarrow> nat \<Rightarrow> (nat \<Rightarrow> NanValue option) \<Rightarrow> (nat \<Rightarrow> NanValue option) option" where
  "copy_args caller first j 0 regs = Some regs"
| "copy_args caller first j (Suc n) regs =
     (if REG_MAX_REGISTERS \<le> first + j then None
      else do {
        v \<leftarrow> caller (first + j);
        copy_args caller first (Suc j) n (regs(j \<mapsto> v))})"

text \<open>\<open>chunks\<close> is the memory that holds chunks: an object word that is no chunk's address is not a function.\<close>

definition op_call :: "(u64 \<Rightarrow> RegChunk option) \<Rightarrow> RegInstr \<Rightarrow> RegVM \<Rightarrow> store \<Rightarrow> outcome option" where
  "op_call chunks i vm s = do {
     func_val \<leftarrow> get_reg vm (i_rs1 i);
     if \<not> nanbox_is_obj func_val
     then Some (Stopped REGVM_ERROR_TYPE (regvm_set_error ''cannot call non-function value'' vm) s)
     else if nanbox_as_obj func_val = 0
     then Some (Stopped REGVM_ERROR_TYPE (regvm_set_error ''cannot call nil value'' vm) s)
     else do {
       target \<leftarrow> chunks (nanbox_as_obj func_val);
       if ch_code target = []
       then Some (Stopped REGVM_ERROR_RUNTIME (regvm_set_error ''invalid function: no code'' vm) s)
       else if REG_MAX_FRAMES \<le> rv_frame_count vm
       then Some (Stopped REGVM_ERROR_OVERFLOW (regvm_set_error ''stack overflow'' vm) s)
       else do {
         let caller = (cur_frame vm)\<lparr>f_result_reg := i_rd i\<rparr>;
         let callee = enter_frame target (i_rd i) (set_frame caller vm);
         regs \<leftarrow> copy_args (f_regs caller) (unat (i_rs2 i)) 0 (unat (ch_num_params target)) (f_regs (cur_frame callee));
         Some (Running (set_frame ((cur_frame callee)\<lparr>f_regs := regs\<rparr>) callee) s)}}}"

definition op_ret :: "RegInstr \<Rightarrow> RegVM \<Rightarrow> store \<Rightarrow> outcome option" where
  "op_ret i vm s = do {
     result \<leftarrow> get_reg vm (i_rd i);
     let vm = vm\<lparr>rv_frame_count := rv_frame_count vm - 1\<rparr>;
     if rv_frame_count vm = 0 then Some (Stopped REGVM_OK vm s)
     else Some (Running (set_reg (f_result_reg (cur_frame vm)) result vm) s)}"

subsection \<open>Objects\<close>

definition op_array_push :: "RegInstr \<Rightarrow> RegVM \<Rightarrow> store \<Rightarrow> outcome option" where
  "op_array_push i vm s = do {
     rd \<leftarrow> get_reg vm (i_rd i);
     let (arr, s) = nanbox_to_value rd s;
     r1 \<leftarrow> get_reg vm (i_rs1 i);
     let (v, s) = nanbox_to_value r1 s;
     is_arr \<leftarrow> value_is_array arr s;
     if is_arr
     then do {
       (arr, s) \<leftarrow> array_push arr v s;
       w \<leftarrow> value_to_nanbox arr s;
       Some (Running (set_reg (i_rd i) w vm) s)}
     else Some (Running vm s)}"

definition op_array_get :: "RegInstr \<Rightarrow> RegVM \<Rightarrow> store \<Rightarrow> outcome option" where
  "op_array_get i vm s = do {
     r1 \<leftarrow> get_reg vm (i_rs1 i);
     let (arr, s) = nanbox_to_value r1 s;
     r2 \<leftarrow> get_reg vm (i_rs2 i);
     is_arr \<leftarrow> value_is_array arr s;
     if is_arr \<and> nanbox_is_int r2 \<and> 0 \<le> as_int r2
     then do {
       item \<leftarrow> array_get arr (nat (as_int r2)) s;
       w \<leftarrow> value_to_nanbox item s;
       Some (Running (set_reg (i_rd i) w vm) s)}
     else Some (Running (set_reg (i_rd i) NANBOX_NIL vm) s)}"

text \<open>The data of a string value, as \<^verbatim>\<open>key->as.string->data\<close> reads it.\<close>

definition key_bytes :: "ptr \<Rightarrow> store \<Rightarrow> string option" where
  "key_bytes key s = do {
     v \<leftarrow> deref key s;
     (case v_as v of VString str \<Rightarrow> Some (s_data str) | _ \<Rightarrow> None)}"

definition op_map_get :: "RegInstr \<Rightarrow> RegVM \<Rightarrow> store \<Rightarrow> outcome option" where
  "op_map_get i vm s = do {
     r1 \<leftarrow> get_reg vm (i_rs1 i);
     let (m, s) = nanbox_to_value r1 s;
     r2 \<leftarrow> get_reg vm (i_rs2 i);
     let (key, s) = nanbox_to_value r2 s;
     is_map \<leftarrow> value_is_map m s;
     is_key \<leftarrow> value_is_string key s;
     if is_map \<and> is_key
     then do {
       k \<leftarrow> key_bytes key s;
       v \<leftarrow> map_get m k s;
       w \<leftarrow> value_to_nanbox v s;
       Some (Running (set_reg (i_rd i) w vm) s)}
     else Some (Running (set_reg (i_rd i) NANBOX_NIL vm) s)}"

definition op_map_set :: "RegInstr \<Rightarrow> RegVM \<Rightarrow> store \<Rightarrow> outcome option" where
  "op_map_set i vm s = do {
     r1 \<leftarrow> get_reg vm (i_rs1 i);
     let (m, s) = nanbox_to_value r1 s;
     r2 \<leftarrow> get_reg vm (i_rs2 i);
     let (key, s) = nanbox_to_value r2 s;
     rd \<leftarrow> get_reg vm (i_rd i);
     let (v, s) = nanbox_to_value rd s;
     is_map \<leftarrow> value_is_map m s;
     is_key \<leftarrow> value_is_string key s;
     if is_map \<and> is_key
     then do {
       k \<leftarrow> key_bytes key s;
       (m, s) \<leftarrow> map_set m k v s;
       w \<leftarrow> value_to_nanbox m s;
       Some (Running (set_reg (i_rs1 i) w vm) s)}
     else Some (Running vm s)}"

text \<open>Nil, or a null pointer, counts as the empty string.\<close>

definition op_concat :: "RegInstr \<Rightarrow> RegVM \<Rightarrow> store \<Rightarrow> outcome option" where
  "op_concat i vm s = do {
     r1 \<leftarrow> get_reg vm (i_rs1 i);
     let (a, s) = nanbox_to_value r1 s;
     r2 \<leftarrow> get_reg vm (i_rs2 i);
     let (b, s) = nanbox_to_value r2 s;
     nil_a \<leftarrow> value_is_nil a s;
     str_a \<leftarrow> value_is_string a s;
     nil_b \<leftarrow> value_is_nil b s;
     str_b \<leftarrow> value_is_string b s;
     if (a = None \<or> nil_a \<or> str_a) \<and> (b = None \<or> nil_b \<or> str_b)
     then do {
       let (a, s) = (if a = None \<or> nil_a then value_string [] s else (a, s));
       let (b, s) = (if b = None \<or> nil_b then value_string [] s else (b, s));
       (c, s) \<leftarrow> string_concat a b s;
       w \<leftarrow> value_to_nanbox c s;
       Some (Running (set_reg (i_rd i) w vm) s)}
     else Some (Running (set_reg (i_rd i) NANBOX_NIL vm) s)}"

definition op_len :: "RegInstr \<Rightarrow> RegVM \<Rightarrow> store \<Rightarrow> outcome option" where
  "op_len i vm s = do {
     r1 \<leftarrow> get_reg vm (i_rs1 i);
     let (v, s) = nanbox_to_value r1 s;
     is_arr \<leftarrow> value_is_array v s;
     is_str \<leftarrow> value_is_string v s;
     is_map \<leftarrow> value_is_map v s;
     len \<leftarrow> (if is_arr then array_length v s else if is_str then string_length v s
             else if is_map then map_size v s else Some 0);
     Some (Running (set_reg (i_rd i) (nanbox_int (of_nat len)) vm) s)}"

definition op_print :: "RegInstr \<Rightarrow> RegVM \<Rightarrow> store \<Rightarrow> outcome option" where
  "op_print i vm s = do {
     rd \<leftarrow> get_reg vm (i_rd i);
     let (v, s) = nanbox_to_value rd s;
     Some (Running (vm\<lparr>rv_printed := rv_printed vm @ [v]\<rparr>) s)}"

subsection \<open>Dispatch\<close>

text \<open>
  One instruction, after the instruction pointer has moved past it. \<open>main\<close> is the argument
  \<^verbatim>\<open>chunk\<close> of \<^verbatim>\<open>regvm_run\<close>, whose constants \<^verbatim>\<open>LOAD_K\<close> reads whatever frame is current. The opcodes of
  the last case have no entry in the dispatch table: the jump goes to address 0.
\<close>

definition reg_exec :: "(u64 \<Rightarrow> RegChunk option) \<Rightarrow> RegChunk \<Rightarrow> RegInstr \<Rightarrow> RegVM \<Rightarrow> store \<Rightarrow> outcome option" where
  "reg_exec chunks main i vm s =
     (case i_op i of
        ROP_NOP \<Rightarrow> Some (Running vm s)
      | ROP_MOV \<Rightarrow> unary_op Some i vm s
      | ROP_LOAD_K \<Rightarrow>
          (let idx = unat (reg_get_imm i)
           in if idx < length (ch_constants main)
              then do {v \<leftarrow> value_to_nanbox (ch_constants main ! idx) s; load_reg v i vm s}
              else Some (Running vm s))
      | ROP_LOAD_NIL \<Rightarrow> load_reg NANBOX_NIL i vm s
      | ROP_LOAD_TRUE \<Rightarrow> load_reg (nanbox_bool True) i vm s
      | ROP_LOAD_FALSE \<Rightarrow> load_reg (nanbox_bool False) i vm s
      | ROP_LOAD_INT \<Rightarrow> load_reg (nanbox_int (scast (reg_get_imm i))) i vm s
      | ROP_ADD \<Rightarrow> binary_op (\<lambda>a b _. nanbox_add a b) i vm s
      | ROP_SUB \<Rightarrow> binary_op (\<lambda>a b _. nanbox_sub a b) i vm s
      | ROP_MUL \<Rightarrow> binary_op (\<lambda>a b _. nanbox_mul a b) i vm s
      | ROP_DIV \<Rightarrow> binary_op (\<lambda>a b _. nanbox_div a b) i vm s
      | ROP_MOD \<Rightarrow> binary_op (\<lambda>a b _. nanbox_mod a b) i vm s
      | ROP_NEG \<Rightarrow> unary_op nanbox_neg i vm s
      | ROP_EQ \<Rightarrow> binary_op (\<lambda>a b _. Some (nanbox_eq a b)) i vm s
      | ROP_NE \<Rightarrow> binary_op (\<lambda>a b _. Some (nanbox_bool (\<not> nanbox_as_bool (nanbox_eq a b)))) i vm s
      | ROP_LT \<Rightarrow> binary_op nanbox_lt i vm s
      | ROP_LE \<Rightarrow> binary_op nanbox_le i vm s
      | ROP_GT \<Rightarrow> binary_op (\<lambda>a b. nanbox_lt b a) i vm s
      | ROP_GE \<Rightarrow> binary_op (\<lambda>a b. nanbox_le b a) i vm s
      | ROP_NOT \<Rightarrow> unary_op (\<lambda>a. Some (nanbox_bool (\<not> reg_nanbox_is_truthy a))) i vm s
      | ROP_AND \<Rightarrow> binary_op (\<lambda>a b _. Some (if \<not> reg_nanbox_is_truthy a then a else b)) i vm s
      | ROP_OR \<Rightarrow> binary_op (\<lambda>a b _. Some (if reg_nanbox_is_truthy a then a else b)) i vm s
      | ROP_JMP \<Rightarrow> Some (Running (jump_by (sint (reg_get_offset i)) vm) s)
      | ROP_JMP_IF \<Rightarrow> do {
          c \<leftarrow> get_reg vm (i_rd i);
          Some (Running (if reg_nanbox_is_truthy c then jump_by (sint (reg_get_cond_offset i)) vm else vm) s)}
      | ROP_JMP_UNLESS \<Rightarrow> do {
          c \<leftarrow> get_reg vm (i_rd i);
          Some (Running (if \<not> reg_nanbox_is_truthy c then jump_by (sint (reg_get_cond_offset i)) vm else vm) s)}
      | ROP_LOOP \<Rightarrow> Some (Running (jump_by (sint (reg_get_offset i)) vm) s)
      | ROP_CALL \<Rightarrow> op_call chunks i vm s
      | ROP_RET \<Rightarrow> op_ret i vm s
      | ROP_ARRAY_NEW \<Rightarrow> (let (p, s) = value_array s in do {w \<leftarrow> value_to_nanbox p s; load_reg w i vm s})
      | ROP_ARRAY_PUSH \<Rightarrow> op_array_push i vm s
      | ROP_ARRAY_GET \<Rightarrow> op_array_get i vm s
      | ROP_MAP_NEW \<Rightarrow> (let (p, s) = value_map s in do {w \<leftarrow> value_to_nanbox p s; load_reg w i vm s})
      | ROP_MAP_GET \<Rightarrow> op_map_get i vm s
      | ROP_MAP_SET \<Rightarrow> op_map_set i vm s
      | ROP_CONCAT \<Rightarrow> op_concat i vm s
      | ROP_LEN \<Rightarrow> op_len i vm s
      | ROP_PRINT \<Rightarrow> op_print i vm s
      | ROP_HALT \<Rightarrow> Some (Stopped REGVM_HALT vm s)
      | _ \<Rightarrow> None)"

text \<open>Fetching: \<^verbatim>\<open>cur_instr = *frame->ip++\<close>, undefined outside the code.\<close>

definition reg_step :: "(u64 \<Rightarrow> RegChunk option) \<Rightarrow> RegChunk \<Rightarrow> RegVM \<Rightarrow> store \<Rightarrow> outcome option" where
  "reg_step chunks main vm s =
     (let ip = f_ip (cur_frame vm); code = ch_code (f_chunk (cur_frame vm))
      in if 0 \<le> ip \<and> nat ip < length code
         then reg_exec chunks main (code ! nat ip) (jump_by 1 vm) s
         else None)"

partial_function (option) run_loop ::
  "(u64 \<Rightarrow> RegChunk option) \<Rightarrow> RegChunk \<Rightarrow> RegVM \<Rightarrow> store \<Rightarrow> (RegVMResult \<times> RegVM \<times> store) option" where
  "run_loop chunks main vm s = do {
     r \<leftarrow> reg_step chunks main vm s;
     (case r of Running vm s \<Rightarrow> run_loop chunks main vm s | Stopped res vm s \<Rightarrow> Some (res, vm, s))}"

declare run_loop.simps [code]

definition regvm_run :: "(u64 \<Rightarrow> RegChunk option) \<Rightarrow> RegVM \<Rightarrow> RegChunk \<Rightarrow> store \<Rightarrow> (RegVMResult \<times> RegVM \<times> store) option" where
  "regvm_run chunks vm chunk s =
     (if REG_MAX_FRAMES \<le> rv_frame_count vm then None
      else run_loop chunks chunk (enter_frame chunk 0 vm) s)"

end
