(* ===== verification/RegCompiler.thy ===== *)
theory RegCompiler
  imports Ast RegAlloc RegVM
begin

text \<open>
  The compiler from the syntax tree to register code, \<^verbatim>\<open>lang/regcompiler.c\<close>. The file keeps its
  state in the global \<^verbatim>\<open>compiler\<close>; here it is passed along, together with the value store that
  holds the constants. \<open>None\<close> is undefined behaviour, of which the only sources are unchecked
  allocations. A compilation function that the source calls on the children of a node takes the
  compiled children as arguments; \<open>compile_expr\<close> and \<open>compile_stmt\<close> tie the recursion.
\<close>

subsection \<open>State\<close>

record RegLocal =
  rl_name :: string
  rl_depth :: int
  rl_is_const :: bool
  rl_reg :: u8

record RegCompiler =
  rc_chunk :: RegChunk
  rc_alloc :: RegAlloc
  rc_locals :: "RegLocal list"
  rc_scope_depth :: int
  rc_error :: "string option"
  rc_error_line :: int
  rc_had_error :: bool
  rc_store :: store

type_synonym 'a comp = "RegCompiler \<Rightarrow> ('a \<times> RegCompiler) option"

definition compile_error :: "int \<Rightarrow> string \<Rightarrow> RegCompiler \<Rightarrow> RegCompiler" where
  "compile_error line msg c =
     (if rc_had_error c then c
      else c\<lparr>rc_had_error := True, rc_error := Some msg, rc_error_line := line\<rparr>)"

subsection \<open>Code generation helpers\<close>

definition emit :: "RegInstr \<Rightarrow> int \<Rightarrow> RegCompiler \<Rightarrow> RegCompiler option" where
  "emit instr line c = do {
     (chunk, s) \<leftarrow> regchunk_write (rc_chunk c) instr line (rc_store c);
     Some (c\<lparr>rc_chunk := chunk, rc_store := s\<rparr>)}"

definition emit_op :: "RegOp \<Rightarrow> u8 \<Rightarrow> u8 \<Rightarrow> u8 \<Rightarrow> int \<Rightarrow> RegCompiler \<Rightarrow> RegCompiler option" where
  "emit_op opc rd rs1 rs2 line c = emit (reg_instr opc rd rs1 rs2) line c"

definition emit_imm :: "RegOp \<Rightarrow> u8 \<Rightarrow> u16 \<Rightarrow> int \<Rightarrow> RegCompiler \<Rightarrow> RegCompiler option" where
  "emit_imm opc rd imm line c = emit (reg_instr_imm opc rd imm) line c"

definition code_size :: "RegCompiler \<Rightarrow> nat" where
  "code_size c = length (ch_code (rc_chunk c))"

definition emit_jump :: "RegOp \<Rightarrow> u8 \<Rightarrow> int \<Rightarrow> nat comp" where
  "emit_jump opc cond line c = do {
     let offset = code_size c;
     c \<leftarrow> emit (reg_instr_cond_jump opc cond 0) line c;
     Some (offset, c)}"

definition patch_jump :: "nat \<Rightarrow> RegCompiler \<Rightarrow> RegCompiler" where
  "patch_jump offset c =
     (let chunk = rc_chunk c;
          jump = of_int (int (code_size c) - int offset - 1) :: u16;
          i = ch_code chunk ! offset
      in c\<lparr>rc_chunk := chunk\<lparr>ch_code := (ch_code chunk)[offset :=
             i\<lparr>i_rs1 := ucast (drop_bit 8 jump AND 0xFF), i_rs2 := ucast (jump AND 0xFF)\<rparr>]\<rparr>\<rparr>)"

text \<open>\<open>mk\<close> constructs the constant's value.\<close>

definition add_constant :: "(store \<Rightarrow> ptr \<times> store) \<Rightarrow> int \<Rightarrow> nat comp" where
  "add_constant mk line c = do {
     let (v, s) = mk (rc_store c);
     (idx, chunk, s) \<leftarrow> regchunk_add_constant (rc_chunk c) v s;
     let c = c\<lparr>rc_chunk := chunk, rc_store := s\<rparr>;
     if 0xFFFF < idx then Some (0, compile_error line ''too many constants'' c) else Some (idx, c)}"

definition new_result :: "RegCompiler \<Rightarrow> u8 \<times> RegCompiler" where
  "new_result c = (let (rd, ra) = regalloc_new_result (rc_alloc c) in (rd, c\<lparr>rc_alloc := ra\<rparr>))"

definition new_temp :: "RegCompiler \<Rightarrow> u8 \<times> RegCompiler" where
  "new_temp c = (let (rd, ra) = regalloc_temp (rc_alloc c) in (rd, c\<lparr>rc_alloc := ra\<rparr>))"

definition free_temp :: "u8 \<Rightarrow> RegCompiler \<Rightarrow> RegCompiler" where
  "free_temp r c = c\<lparr>rc_alloc := regalloc_free_temp (rc_alloc c) r\<rparr>"

text \<open>\<^verbatim>\<open>if (regalloc_is_temp(current_alloc(), r)) regalloc_free_temp(current_alloc(), r);\<close>\<close>

definition release_temp :: "u8 \<Rightarrow> RegCompiler \<Rightarrow> RegCompiler" where
  "release_temp r c = (if regalloc_is_temp (rc_alloc c) r then free_temp r c else c)"

subsection \<open>Scopes\<close>

definition begin_scope :: "RegCompiler \<Rightarrow> RegCompiler" where
  "begin_scope c = c\<lparr>rc_scope_depth := rc_scope_depth c + 1\<rparr>"

definition end_scope :: "RegCompiler \<Rightarrow> RegCompiler" where
  "end_scope c =
     (let d = rc_scope_depth c - 1
      in c\<lparr>rc_scope_depth := d, rc_locals := rev (dropWhile (\<lambda>l. d < rl_depth l) (rev (rc_locals c)))\<rparr>)"

text \<open>The slot of the new local, or \<open>-1\<close>. The allocation of its name is not checked.\<close>

definition add_local :: "string \<Rightarrow> bool \<Rightarrow> int \<Rightarrow> int comp" where
  "add_local name is_const line c =
     (if 256 \<le> length (rc_locals c) then Some (- 1, compile_error line ''too many local variables'' c)
      else let (ok, s) = agim_alloc (rc_store c)
           in if \<not> ok then None
              else let slot = int (length (rc_locals c));
                       (r, ra) = regalloc_local (rc_alloc c) slot
                   in Some (slot, c\<lparr>rc_store := s, rc_alloc := ra,
                        rc_locals := rc_locals c @ [\<lparr>rl_name = cstr name, rl_depth = rc_scope_depth c,
                          rl_is_const = is_const, rl_reg = r\<rparr>]\<rparr>))"

definition resolve_local :: "string \<Rightarrow> RegCompiler \<Rightarrow> RegLocal option" where
  "resolve_local name c = find (\<lambda>l. rl_name l = cstr name) (rev (rc_locals c))"

subsection \<open>Expressions\<close>

definition compile_nil :: "int \<Rightarrow> u8 comp" where
  "compile_nil line c = do {
     let (rd, c) = new_result c;
     c \<leftarrow> emit_op ROP_LOAD_NIL rd 0 0 line c;
     Some (rd, c)}"

definition compile_bool :: "int \<Rightarrow> bool \<Rightarrow> u8 comp" where
  "compile_bool line b c = do {
     let (rd, c) = new_result c;
     c \<leftarrow> emit_op (if b then ROP_LOAD_TRUE else ROP_LOAD_FALSE) rd 0 0 line c;
     Some (rd, c)}"

text \<open>A constant loaded from the pool.\<close>

definition load_constant :: "(store \<Rightarrow> ptr \<times> store) \<Rightarrow> int \<Rightarrow> u8 \<Rightarrow> RegCompiler \<Rightarrow> RegCompiler option" where
  "load_constant mk line rd c = do {
     (idx, c) \<leftarrow> add_constant mk line c;
     emit_imm ROP_LOAD_K rd (of_nat idx) line c}"

definition compile_int :: "int \<Rightarrow> u64 \<Rightarrow> u8 comp" where
  "compile_int line v c = do {
     let (rd, c) = new_result c;
     c \<leftarrow> (if - 32768 \<le> sint v \<and> sint v \<le> 32767 then emit_imm ROP_LOAD_INT rd (ucast v) line c
           else load_constant (value_int v) line rd c);
     Some (rd, c)}"

definition compile_float :: "int \<Rightarrow> f64 \<Rightarrow> u8 comp" where
  "compile_float line v c = do {
     let (rd, c) = new_result c;
     c \<leftarrow> load_constant (value_float v) line rd c;
     Some (rd, c)}"

definition compile_string :: "int \<Rightarrow> string \<Rightarrow> u8 comp" where
  "compile_string line v c = do {
     let (rd, c) = new_result c;
     c \<leftarrow> load_constant (value_string v) line rd c;
     Some (rd, c)}"

definition compile_identifier :: "int \<Rightarrow> string \<Rightarrow> u8 comp" where
  "compile_identifier line name c =
     (case resolve_local name c of
        Some l \<Rightarrow> Some (rl_reg l, c)
      | None \<Rightarrow> do {
          let (rd, c) = new_result c;
          (idx, c) \<leftarrow> add_constant (value_string name) line c;
          c \<leftarrow> emit_imm ROP_GET_GLOBAL rd (of_nat idx) line c;
          Some (rd, c)})"

definition binary_rop :: "TokenType \<Rightarrow> RegOp option" where
  "binary_rop t =
     (case t of
        TOK_PLUS \<Rightarrow> Some ROP_ADD | TOK_MINUS \<Rightarrow> Some ROP_SUB | TOK_STAR \<Rightarrow> Some ROP_MUL
      | TOK_SLASH \<Rightarrow> Some ROP_DIV | TOK_PERCENT \<Rightarrow> Some ROP_MOD | TOK_EQ \<Rightarrow> Some ROP_EQ
      | TOK_NE \<Rightarrow> Some ROP_NE | TOK_LT \<Rightarrow> Some ROP_LT | TOK_LE \<Rightarrow> Some ROP_LE | TOK_GT \<Rightarrow> Some ROP_GT
      | TOK_GE \<Rightarrow> Some ROP_GE | TOK_AND \<Rightarrow> Some ROP_AND | TOK_OR \<Rightarrow> Some ROP_OR | _ \<Rightarrow> None)"

definition compile_binary :: "int \<Rightarrow> TokenType \<Rightarrow> u8 comp \<Rightarrow> u8 comp \<Rightarrow> u8 comp" where
  "compile_binary line t left right c = do {
     (l, c) \<leftarrow> left c;
     (r, c) \<leftarrow> right c;
     let (rd, c) = new_result c;
     (case binary_rop t of
        None \<Rightarrow> Some (rd, compile_error line ''unknown binary operator'' c)
      | Some opc \<Rightarrow> do {
          c \<leftarrow> emit_op opc rd l r line c;
          Some (rd, release_temp l (release_temp r c))})}"

definition compile_unary :: "int \<Rightarrow> TokenType \<Rightarrow> u8 comp \<Rightarrow> u8 comp" where
  "compile_unary line t operand c = do {
     (x, c) \<leftarrow> operand c;
     let (rd, c) = new_result c;
     c \<leftarrow> (case t of
             TOK_MINUS \<Rightarrow> emit_op ROP_NEG rd x 0 line c
           | TOK_NOT \<Rightarrow> emit_op ROP_NOT rd x 0 line c
           | _ \<Rightarrow> Some (compile_error line ''unknown unary operator'' c));
     Some (rd, release_temp x c)}"

fun push_elements :: "int \<Rightarrow> u8 \<Rightarrow> u8 comp list \<Rightarrow> RegCompiler \<Rightarrow> RegCompiler option" where
  "push_elements line rd [] c = Some c"
| "push_elements line rd (e # es) c = do {
     (x, c) \<leftarrow> e c;
     c \<leftarrow> emit_op ROP_ARRAY_PUSH rd x 0 line c;
     push_elements line rd es (release_temp x c)}"

definition compile_array :: "int \<Rightarrow> u8 comp list \<Rightarrow> u8 comp" where
  "compile_array line es c = do {
     let (rd, c) = new_result c;
     c \<leftarrow> emit_op ROP_ARRAY_NEW rd 0 0 line c;
     c \<leftarrow> push_elements line rd es c;
     Some (rd, c)}"

fun set_entries :: "int \<Rightarrow> u8 \<Rightarrow> (string \<times> u8 comp) list \<Rightarrow> RegCompiler \<Rightarrow> RegCompiler option" where
  "set_entries line rd [] c = Some c"
| "set_entries line rd ((k, e) # es) c = do {
     (idx, c) \<leftarrow> add_constant (value_string k) line c;
     let (key, c) = new_temp c;
     c \<leftarrow> emit_imm ROP_LOAD_K key (of_nat idx) line c;
     (x, c) \<leftarrow> e c;
     c \<leftarrow> emit_op ROP_MAP_SET x rd key line c;
     set_entries line rd es (free_temp key (release_temp x c))}"

definition compile_map :: "int \<Rightarrow> (string \<times> u8 comp) list \<Rightarrow> u8 comp" where
  "compile_map line es c = do {
     let (rd, c) = new_result c;
     c \<leftarrow> emit_op ROP_MAP_NEW rd 0 0 line c;
     c \<leftarrow> set_entries line rd es c;
     Some (rd, c)}"

definition compile_index :: "int \<Rightarrow> u8 comp \<Rightarrow> u8 comp \<Rightarrow> u8 comp" where
  "compile_index line obj_e idx_e c = do {
     (obj, c) \<leftarrow> obj_e c;
     (idx, c) \<leftarrow> idx_e c;
     let (rd, c) = new_result c;
     c \<leftarrow> emit_op ROP_ARRAY_GET rd obj idx line c;
     Some (rd, release_temp obj (release_temp idx c))}"

definition compile_member :: "int \<Rightarrow> u8 comp \<Rightarrow> string \<Rightarrow> u8 comp" where
  "compile_member line obj_e field c = do {
     (obj, c) \<leftarrow> obj_e c;
     let (rd, c) = new_result c;
     (idx, c) \<leftarrow> add_constant (value_string field) line c;
     let (key, c) = new_temp c;
     c \<leftarrow> emit_imm ROP_LOAD_K key (of_nat idx) line c;
     c \<leftarrow> emit_op ROP_MAP_GET rd obj key line c;
     Some (rd, release_temp obj (free_temp key c))}"

fun compile_args :: "u8 comp list \<Rightarrow> u8 list comp" where
  "compile_args [] c = Some ([], c)"
| "compile_args (e # es) c = do {
     (r, c) \<leftarrow> e c;
     (rs, c) \<leftarrow> compile_args es c;
     Some (r # rs, c)}"

definition compile_call :: "int \<Rightarrow> u8 comp \<Rightarrow> u8 comp list \<Rightarrow> u8 comp" where
  "compile_call line callee_e args c = do {
     (callee, c) \<leftarrow> callee_e c;
     let (args, c) = (if 255 < length args then (take 255 args, compile_error line ''too many arguments'' c) else (args, c));
     (rs, c) \<leftarrow> compile_args args c;
     let (rd, c) = new_result c;
     c \<leftarrow> emit_op ROP_CALL rd callee (of_nat (length args)) line c;
     Some (rd, release_temp callee (foldr release_temp rs c))}"

definition compile_ternary :: "int \<Rightarrow> u8 comp \<Rightarrow> u8 comp \<Rightarrow> u8 comp \<Rightarrow> u8 comp" where
  "compile_ternary line cond_e then_e else_e c = do {
     (cond, c) \<leftarrow> cond_e c;
     (else_jump, c) \<leftarrow> emit_jump ROP_JMP_UNLESS cond line c;
     let (rd, c) = new_result (release_temp cond c);
     (then_val, c) \<leftarrow> then_e c;
     c \<leftarrow> emit_op ROP_MOV rd then_val 0 line c;
     (end_jump, c) \<leftarrow> emit_jump ROP_JMP 0 line (release_temp then_val c);
     (else_val, c) \<leftarrow> else_e (patch_jump else_jump c);
     c \<leftarrow> emit_op ROP_MOV rd else_val 0 line c;
     Some (rd, patch_jump end_jump (release_temp else_val c))}"

fun compile_expr :: "AstNode \<Rightarrow> u8 comp" where
  "compile_expr NODE_NULL = compile_nil 0"
| "compile_expr (NODE_NIL line) = compile_nil line"
| "compile_expr (NODE_BOOL line b) = compile_bool line b"
| "compile_expr (NODE_INT line v) = compile_int line v"
| "compile_expr (NODE_FLOAT line v) = compile_float line v"
| "compile_expr (NODE_STRING line v) = compile_string line v"
| "compile_expr (NODE_IDENT line name) = compile_identifier line name"
| "compile_expr (NODE_BINARY line t l r) = compile_binary line t (compile_expr l) (compile_expr r)"
| "compile_expr (NODE_UNARY line t x) = compile_unary line t (compile_expr x)"
| "compile_expr (NODE_ARRAY line es) = compile_array line (map compile_expr es)"
| "compile_expr (NODE_MAP line es) = compile_map line (map (\<lambda>(k, e). (k, compile_expr e)) es)"
| "compile_expr (NODE_INDEX line x i) = compile_index line (compile_expr x) (compile_expr i)"
| "compile_expr (NODE_MEMBER line x field) = compile_member line (compile_expr x) field"
| "compile_expr (NODE_CALL line f args) = compile_call line (compile_expr f) (map compile_expr args)"
| "compile_expr (NODE_TERNARY line b x y) = compile_ternary line (compile_expr b) (compile_expr x) (compile_expr y)"
| "compile_expr node =
     (\<lambda>c. Some (new_result (compile_error (ast_line node) ''cannot compile expression'' c)))"

subsection \<open>Statements\<close>

definition compile_var_decl :: "int \<Rightarrow> string \<Rightarrow> AstNode \<Rightarrow> bool \<Rightarrow> RegCompiler \<Rightarrow> RegCompiler option" where
  "compile_var_decl line name init is_const c = do {
     (init_reg, c) \<leftarrow>
       (if init \<noteq> NODE_NULL then compile_expr init c
        else do {
          let (r, c) = new_temp c;
          c \<leftarrow> emit_op ROP_LOAD_NIL r 0 0 line c;
          Some (r, c)});
     c \<leftarrow>
       (if 0 < rc_scope_depth c
        then do {
          (slot, c) \<leftarrow> add_local name is_const line c;
          if 0 \<le> slot
          then let local_reg = rl_reg (rc_locals c ! nat slot)
               in if local_reg \<noteq> init_reg then emit_op ROP_MOV local_reg init_reg 0 line c else Some c
          else Some c}
        else do {
          (idx, c) \<leftarrow> add_constant (value_string name) line c;
          emit_imm ROP_SET_GLOBAL init_reg (of_nat idx) line c});
     Some (release_temp init_reg c)}"

definition assign_ident :: "int \<Rightarrow> string \<Rightarrow> u8 \<Rightarrow> RegCompiler \<Rightarrow> RegCompiler option" where
  "assign_ident line name val_reg c =
     (case resolve_local name c of
        Some l \<Rightarrow> if rl_reg l \<noteq> val_reg then emit_op ROP_MOV (rl_reg l) val_reg 0 line c else Some c
      | None \<Rightarrow> do {
          (idx, c) \<leftarrow> add_constant (value_string name) line c;
          emit_imm ROP_SET_GLOBAL val_reg (of_nat idx) line c})"

definition compile_assignment :: "int \<Rightarrow> AstNode \<Rightarrow> AstNode \<Rightarrow> RegCompiler \<Rightarrow> RegCompiler option" where
  "compile_assignment line target v c = do {
     (val_reg, c) \<leftarrow> compile_expr v c;
     c \<leftarrow>
       (case target of
          NODE_IDENT _ name \<Rightarrow> assign_ident line name val_reg c
        | NODE_INDEX _ x i \<Rightarrow> do {
            (obj, c) \<leftarrow> compile_expr x c;
            (idx, c) \<leftarrow> compile_expr i c;
            c \<leftarrow> emit_op ROP_ARRAY_SET val_reg obj idx line c;
            Some (release_temp obj (release_temp idx c))}
        | NODE_MEMBER _ x field \<Rightarrow> do {
            (obj, c) \<leftarrow> compile_expr x c;
            (idx, c) \<leftarrow> add_constant (value_string field) line c;
            let (key, c) = new_temp c;
            c \<leftarrow> emit_imm ROP_LOAD_K key (of_nat idx) line c;
            c \<leftarrow> emit_op ROP_MAP_SET val_reg obj key line c;
            Some (release_temp obj (free_temp key c))}
        | _ \<Rightarrow> Some c);
     Some (release_temp val_reg c)}"

definition compile_return :: "int \<Rightarrow> AstNode \<Rightarrow> RegCompiler \<Rightarrow> RegCompiler option" where
  "compile_return line v c = do {
     (r, c) \<leftarrow>
       (if v \<noteq> NODE_NULL then compile_expr v c
        else do {
          let (r, c) = new_temp c;
          c \<leftarrow> emit_op ROP_LOAD_NIL r 0 0 line c;
          Some (r, c)});
     emit_op ROP_RET r 0 0 line c}"

definition compile_expr_stmt :: "AstNode \<Rightarrow> RegCompiler \<Rightarrow> RegCompiler option" where
  "compile_expr_stmt node c = do {
     (r, c) \<leftarrow> compile_expr node c;
     Some (release_temp r c)}"

text \<open>\<open>None\<close> as the compiled \<^verbatim>\<open>else\<close> branch stands for its absence.\<close>

definition compile_if ::
  "int \<Rightarrow> AstNode \<Rightarrow> (RegCompiler \<Rightarrow> RegCompiler option) \<Rightarrow> (RegCompiler \<Rightarrow> RegCompiler option) option \<Rightarrow> RegCompiler \<Rightarrow> RegCompiler option" where
  "compile_if line cond_e then_s else_s c = do {
     (cond, c) \<leftarrow> compile_expr cond_e c;
     (else_jump, c) \<leftarrow> emit_jump ROP_JMP_UNLESS cond line c;
     c \<leftarrow> then_s (release_temp cond c);
     (case else_s of
        Some el \<Rightarrow> do {
          (end_jump, c) \<leftarrow> emit_jump ROP_JMP 0 line c;
          c \<leftarrow> el (patch_jump else_jump c);
          Some (patch_jump end_jump c)}
      | None \<Rightarrow> Some (patch_jump else_jump c))}"

definition compile_while :: "int \<Rightarrow> AstNode \<Rightarrow> (RegCompiler \<Rightarrow> RegCompiler option) \<Rightarrow> RegCompiler \<Rightarrow> RegCompiler option" where
  "compile_while line cond_e body c = do {
     let loop_start = code_size c;
     (cond, c) \<leftarrow> compile_expr cond_e c;
     (exit_jump, c) \<leftarrow> emit_jump ROP_JMP_UNLESS cond line c;
     c \<leftarrow> body (release_temp cond c);
     let offset = (of_int (int loop_start - int (code_size c) - 1) :: u16);
     c \<leftarrow> emit (reg_instr_cond_jump ROP_JMP 0 offset) line c;
     Some (patch_jump exit_jump c)}"

fun compile_all :: "(RegCompiler \<Rightarrow> RegCompiler option) list \<Rightarrow> RegCompiler \<Rightarrow> RegCompiler option" where
  "compile_all [] c = Some c"
| "compile_all (f # fs) c = do {c \<leftarrow> f c; compile_all fs c}"

definition compile_block :: "(RegCompiler \<Rightarrow> RegCompiler option) list \<Rightarrow> RegCompiler \<Rightarrow> RegCompiler option" where
  "compile_block stmts c = do {
     c \<leftarrow> compile_all stmts (begin_scope c);
     Some (end_scope c)}"

definition free_all_temps :: "RegCompiler \<Rightarrow> RegCompiler" where
  "free_all_temps c = c\<lparr>rc_alloc := regalloc_free_all_temps (rc_alloc c)\<rparr>"

fun compile_stmt :: "AstNode \<Rightarrow> RegCompiler \<Rightarrow> RegCompiler option" where
  "compile_stmt NODE_NULL c = Some c"
| "compile_stmt (NODE_LET line name ty v m) c = map_option free_all_temps (compile_var_decl line name v False c)"
| "compile_stmt (NODE_CONST line name ty v m) c = map_option free_all_temps (compile_var_decl line name v True c)"
| "compile_stmt (NODE_ASSIGN line target t v) c = map_option free_all_temps (compile_assignment line target v c)"
| "compile_stmt (NODE_IF line b x y) c = map_option free_all_temps
     (compile_if line b (compile_stmt x) (if y \<noteq> NODE_NULL then Some (compile_stmt y) else None) c)"
| "compile_stmt (NODE_WHILE line b x) c = map_option free_all_temps (compile_while line b (compile_stmt x) c)"
| "compile_stmt (NODE_BLOCK line stmts) c = map_option free_all_temps (compile_block (map compile_stmt stmts) c)"
| "compile_stmt (NODE_RETURN line v) c = map_option free_all_temps (compile_return line v c)"
| "compile_stmt node c = map_option free_all_temps (compile_expr_stmt node c)"

subsection \<open>Entry points\<close>

definition start :: "RegChunk \<Rightarrow> store \<Rightarrow> RegCompiler" where
  "start chunk s = \<lparr>rc_chunk = chunk, rc_alloc = regalloc_reset, rc_locals = [], rc_scope_depth = 0,
     rc_error = None, rc_error_line = 0, rc_had_error = False, rc_store = s\<rparr>"

text \<open>The chunk with its register count, or its destruction after an error.\<close>

definition finish :: "RegCompiler \<Rightarrow> (RegChunk option \<times> store) option" where
  "finish c =
     (let chunk = (rc_chunk c)\<lparr>ch_num_regs := regalloc_count (rc_alloc c)\<rparr>
      in if rc_had_error c
         then do {s \<leftarrow> regchunk_free (Some chunk) (rc_store c); Some (None, s)}
         else Some (Some chunk, rc_store c))"

fun compile_decls :: "AstNode list \<Rightarrow> RegCompiler \<Rightarrow> RegCompiler option" where
  "compile_decls [] c = Some c"
| "compile_decls (d # ds) c = do {
     c \<leftarrow> compile_stmt d c;
     if rc_had_error c then Some c else compile_decls ds c}"

text \<open>A failed allocation of the chunk is not checked.\<close>

definition regcompile :: "AstNode \<Rightarrow> store \<Rightarrow> (RegChunk option \<times> store) option" where
  "regcompile ast s =
     (if ast = NODE_NULL then Some (None, s)
      else do {
        (chunk, s) \<leftarrow> regchunk_new s;
        chunk \<leftarrow> chunk;
        c \<leftarrow> (case ast of NODE_PROGRAM _ decls \<Rightarrow> compile_decls decls (start chunk s)
              | _ \<Rightarrow> compile_stmt ast (start chunk s));
        c \<leftarrow> emit_op ROP_HALT 0 0 0 0 c;
        finish c})"

definition regcompile_expr :: "AstNode \<Rightarrow> store \<Rightarrow> (RegChunk option \<times> store) option" where
  "regcompile_expr ast s =
     (if ast = NODE_NULL then Some (None, s)
      else do {
        (chunk, s) \<leftarrow> regchunk_new s;
        chunk \<leftarrow> chunk;
        (result, c) \<leftarrow> compile_expr ast (start chunk s);
        c \<leftarrow> (if result \<noteq> 0 then emit_op ROP_MOV 0 result 0 (ast_line ast) c else Some c);
        c \<leftarrow> emit_op ROP_RET 0 0 0 (ast_line ast) c;
        finish c})"

end
