(* ===== verification/RegCorrect.thy ===== *)
theory RegCorrect
  imports RegCompiler "HOL-Library.Sublist"
begin

text \<open>
  The register compiler against a reference evaluator: for expressions without objects, the
  compiled code, run by the machine, leaves the value of the expression in register 0. The
  conditions are a register budget and that the source arithmetic does not overflow. The second
  part shows where the compiler and the machine do not fit together.
\<close>

subsection \<open>Reference semantics\<close>

definition eval_binary :: "TokenType \<Rightarrow> NanValue \<Rightarrow> NanValue \<Rightarrow> store \<Rightarrow> NanValue option" where
  "eval_binary t a b s =
     (case t of
        TOK_PLUS \<Rightarrow> nanbox_add a b
      | TOK_MINUS \<Rightarrow> nanbox_sub a b
      | TOK_STAR \<Rightarrow> nanbox_mul a b
      | TOK_SLASH \<Rightarrow> nanbox_div a b
      | TOK_PERCENT \<Rightarrow> nanbox_mod a b
      | TOK_EQ \<Rightarrow> Some (nanbox_eq a b)
      | TOK_NE \<Rightarrow> Some (nanbox_bool (nanbox_eq a b \<noteq> NANBOX_TRUE))
      | TOK_LT \<Rightarrow> nanbox_lt a b s
      | TOK_LE \<Rightarrow> nanbox_le a b s
      | TOK_GT \<Rightarrow> nanbox_lt b a s
      | TOK_GE \<Rightarrow> nanbox_le b a s
      | TOK_AND \<Rightarrow> Some (if reg_nanbox_is_truthy a then b else a)
      | TOK_OR \<Rightarrow> Some (if reg_nanbox_is_truthy a then a else b)
      | _ \<Rightarrow> None)"

definition eval_unary :: "TokenType \<Rightarrow> NanValue \<Rightarrow> NanValue option" where
  "eval_unary t a =
     (case t of TOK_MINUS \<Rightarrow> nanbox_neg a | TOK_NOT \<Rightarrow> Some (nanbox_bool (\<not> reg_nanbox_is_truthy a)) | _ \<Rightarrow> None)"

text \<open>\<open>env\<close> gives the values of the variables; both operands of every operator are evaluated.\<close>

fun eval :: "(string \<Rightarrow> NanValue option) \<Rightarrow> store \<Rightarrow> AstNode \<Rightarrow> NanValue option" where
  "eval env s NODE_NULL = Some NANBOX_NIL"
| "eval env s (NODE_NIL _) = Some NANBOX_NIL"
| "eval env s (NODE_BOOL _ b) = Some (nanbox_bool b)"
| "eval env s (NODE_INT _ i) = Some (nanbox_int i)"
| "eval env s (NODE_FLOAT _ d) = Some (nanbox_double d)"
| "eval env s (NODE_IDENT _ x) = env (cstr x)"
| "eval env s (NODE_UNARY _ t x) = do {a \<leftarrow> eval env s x; eval_unary t a}"
| "eval env s (NODE_BINARY _ t x y) = do {a \<leftarrow> eval env s x; b \<leftarrow> eval env s y; eval_binary t a b s}"
| "eval env s (NODE_TERNARY _ b x y) = do {
     c \<leftarrow> eval env s b;
     if reg_nanbox_is_truthy c then eval env s x else eval env s y}"
| "eval env s _ = None"

text \<open>The expressions covered, with the registers they may take and the variables they may use.\<close>

inductive scalar :: "string set \<Rightarrow> AstNode \<Rightarrow> bool" for V where
  scalar_null: "scalar V NODE_NULL"
| scalar_nil: "scalar V (NODE_NIL l)"
| scalar_bool: "scalar V (NODE_BOOL l b)"
| scalar_int: "scalar V (NODE_INT l i)"
| scalar_float: "scalar V (NODE_FLOAT l d)"
| scalar_ident: "cstr x \<in> V \<Longrightarrow> scalar V (NODE_IDENT l x)"
| scalar_unary: "t = TOK_MINUS \<or> t = TOK_NOT \<Longrightarrow> scalar V x \<Longrightarrow> scalar V (NODE_UNARY l t x)"
| scalar_binary: "binary_rop t = Some opc \<Longrightarrow> scalar V x \<Longrightarrow> scalar V y \<Longrightarrow> scalar V (NODE_BINARY l t x y)"
| scalar_ternary: "scalar V b \<Longrightarrow> scalar V x \<Longrightarrow> scalar V y \<Longrightarrow> scalar V (NODE_TERNARY l b x y)"

fun regs_needed :: "AstNode \<Rightarrow> nat" where
  "regs_needed (NODE_IDENT _ x) = 0"
| "regs_needed (NODE_UNARY _ t x) = Suc (regs_needed x)"
| "regs_needed (NODE_BINARY _ t x y) = Suc (regs_needed x + regs_needed y)"
| "regs_needed (NODE_TERNARY _ b x y) = Suc (regs_needed b + regs_needed x + regs_needed y)"
| "regs_needed _ = 1"

subsection \<open>Execution\<close>

definition at :: "RegVM \<Rightarrow> int \<Rightarrow> (nat \<Rightarrow> NanValue option) \<Rightarrow> RegVM" where
  "at vm pc regs = set_frame ((cur_frame vm)\<lparr>f_ip := pc, f_regs := regs\<rparr>) vm"

lemma cur_frame_set [simp]: "cur_frame (set_frame f vm) = f"
  by (simp add: cur_frame_def set_frame_def)

lemma set_frame_set [simp]: "set_frame f (set_frame g vm) = set_frame f vm"
  by (simp add: set_frame_def)

lemma at_simps [simp]:
  "f_ip (cur_frame (at vm pc regs)) = pc" "f_regs (cur_frame (at vm pc regs)) = regs"
  "f_chunk (cur_frame (at vm pc regs)) = f_chunk (cur_frame vm)"
  "at (at vm pc regs) pc' regs' = at vm pc' regs'"
  "set_reg r v (at vm pc regs) = at vm pc (regs(unat r \<mapsto> v))"
  "jump_by d (at vm pc regs) = at vm (pc + d) regs"
  "get_reg (at vm pc regs) r = regs (unat r)"
  "rv_frame_count (at vm pc regs) = rv_frame_count vm"
  by (simp_all add: at_def set_reg_def jump_by_def get_reg_def)
    (cases "cur_frame vm"; simp add: set_frame_def)+

lemma at_self: "at vm (f_ip (cur_frame vm)) (f_regs (cur_frame vm)) = vm"
  by (cases vm) (simp add: at_def set_frame_def cur_frame_def)

text \<open>Running from one place is running from another.\<close>

definition goes ::
  "(u64 \<Rightarrow> RegChunk option) \<Rightarrow> RegChunk \<Rightarrow> RegVM \<Rightarrow> store \<Rightarrow> int \<Rightarrow> (nat \<Rightarrow> NanValue option) \<Rightarrow> int \<Rightarrow> (nat \<Rightarrow> NanValue option) \<Rightarrow> bool" where
  "goes chunks main vm S pc regs pc' regs' \<longleftrightarrow>
     run_loop chunks main (at vm pc regs) S = run_loop chunks main (at vm pc' regs') S"

lemma goes_refl: "goes chunks main vm S pc regs pc regs"
  by (simp add: goes_def)

lemma goes_trans:
  "goes chunks main vm S pc regs pc' regs' \<Longrightarrow> goes chunks main vm S pc' regs' pc'' regs'' \<Longrightarrow> goes chunks main vm S pc regs pc'' regs''"
  by (simp add: goes_def)

lemma goes_step:
  assumes "n < length (ch_code (f_chunk (cur_frame vm)))"
    and "reg_exec chunks main (ch_code (f_chunk (cur_frame vm)) ! n) (at vm (int n + 1) regs) S = Some (Running (at vm pc' regs') S)"
  shows "goes chunks main vm S (int n) regs pc' regs'"
  unfolding goes_def using assms by (subst run_loop.simps) (simp add: reg_step_def)

subsection \<open>Emitting code\<close>

text \<open>Without allocation failures the store of the compiler only grows.\<close>

definition grows :: "store \<Rightarrow> store \<Rightarrow> bool" where
  "grows s s' \<longleftrightarrow> oom s' = oom s \<and> brk s \<le> brk s' \<and> (\<forall>a < brk s. cells s' a = cells s a)"

lemma grows_refl [simp]: "grows s s" by (simp add: grows_def)

lemma grows_trans: "grows s s' \<Longrightarrow> grows s' s'' \<Longrightarrow> grows s s''"
  by (auto simp: grows_def)

lemma grows_cell: "grows s s' \<Longrightarrow> cell s a = Some v \<Longrightarrow> cell s' a = Some v"
  by (auto simp: grows_def cell_def split: if_splits)

definition mem_ok :: "store \<Rightarrow> bool" where "mem_ok s \<longleftrightarrow> (\<forall>k. \<not> oom s k)"

lemma grows_mem_ok: "grows s s' \<Longrightarrow> mem_ok s \<Longrightarrow> mem_ok s'" by (simp add: grows_def mem_ok_def)

lemma agim_alloc_ok: "mem_ok s \<Longrightarrow> agim_alloc s = (True, s\<lparr>allocs := Suc (allocs s)\<rparr>)"
  by (simp add: agim_alloc_def mem_ok_def)

lemma grows_allocs [simp]: "grows s (s\<lparr>allocs := n\<rparr>)" "mem_ok (s\<lparr>allocs := n\<rparr>) = mem_ok s"
  by (simp_all add: grows_def mem_ok_def)

lemma construct_ok:
  assumes "mem_ok s"
  shows "\<exists>a s'. construct (Suc 0) fl p s = (Some a, s') \<and> grows s s' \<and> cell s' a = Some (fresh_value fl p)"
  using assms by (simp add: construct_def agim_alloc_ok new_cell_def grows_def cell_def)

text \<open>What compiling adds: code, constants and temporaries; the variables stay.\<close>

definition adds :: "RegCompiler \<Rightarrow> RegCompiler \<Rightarrow> RegInstr list \<Rightarrow> ptr list \<Rightarrow> bool" where
  "adds c c' seg ks \<longleftrightarrow>
     ch_code (rc_chunk c') = ch_code (rc_chunk c) @ seg \<and>
     ch_constants (rc_chunk c') = ch_constants (rc_chunk c) @ ks \<and>
     rc_locals c' = rc_locals c \<and> rc_scope_depth c' = rc_scope_depth c \<and>
     rc_had_error c' = rc_had_error c \<and> temp_base (rc_alloc c') = temp_base (rc_alloc c) \<and>
     grows (rc_store c) (rc_store c')"

lemma adds_refl: "adds c c [] []" by (simp add: adds_def)

lemma adds_trans: "adds c c1 seg ks \<Longrightarrow> adds c1 c2 seg' ks' \<Longrightarrow> adds c c2 (seg @ seg') (ks @ ks')"
  by (auto simp: adds_def intro: grows_trans)

lemma emit_adds:
  assumes "mem_ok (rc_store c)"
  shows "\<exists>c'. emit i line c = Some c' \<and> adds c c' [i] [] \<and> rc_alloc c' = rc_alloc c"
  using assms
  by (simp add: emit_def regchunk_write_def adds_def agim_alloc_ok Let_def)

lemma load_constant_adds:
  assumes m: "mem_ok (rc_store c)" and k: "length (ch_constants (rc_chunk c)) \<le> 0xFFFF"
    and mk: "mk = construct (Suc 0) 0 p"
  shows "\<exists>c' a. load_constant mk line rd c = Some c'
    \<and> adds c c' [reg_instr_imm ROP_LOAD_K rd (of_nat (length (ch_constants (rc_chunk c))))] [Some a]
    \<and> rc_alloc c' = rc_alloc c \<and> cell (rc_store c') a = Some (fresh_value 0 p)"
proof -
  obtain a s where a: "construct (Suc 0) 0 p (rc_store c) = (Some a, s)" "grows (rc_store c) s" "cell s a = Some (fresh_value 0 p)"
    using construct_ok [OF m] by blast
  have ms: "mem_ok s" using grows_mem_ok a(2) m by blast
  define idx where "idx = length (ch_constants (rc_chunk c))"
  obtain chunk s' where ch: "regchunk_add_constant (rc_chunk c) (Some a) s = Some (idx, chunk, s')" "grows s s'"
    "ch_code chunk = ch_code (rc_chunk c)" "ch_constants chunk = ch_constants (rc_chunk c) @ [Some a]"
    using ms by (cases "ch_constants_capacity (rc_chunk c) \<le> length (ch_constants (rc_chunk c))")
      (auto simp: regchunk_add_constant_def agim_alloc_ok idx_def)
  let ?c = "c\<lparr>rc_chunk := chunk, rc_store := s'\<rparr>"
  have ad: "adds c ?c [] [Some a]" using ch a(2) by (auto simp: adds_def intro: grows_trans)
  have "mem_ok (rc_store ?c)" using grows_mem_ok ch(2) ms by simp
  then obtain c' where c': "emit (reg_instr_imm ROP_LOAD_K rd (of_nat idx)) line ?c = Some c'"
    "adds ?c c' [reg_instr_imm ROP_LOAD_K rd (of_nat idx)] []" "rc_alloc c' = rc_alloc ?c"
    using emit_adds by blast
  have "load_constant mk line rd c = Some c'"
    using a(1) ch(1) c'(1) k mk by (simp add: load_constant_def add_constant_def emit_imm_def idx_def Let_def)
  moreover have "cell (rc_store c') a = Some (fresh_value 0 p)"
    using grows_cell a(3) ch(2) c'(2) by (auto simp: adds_def)
  ultimately show ?thesis using adds_trans [OF ad c'(2)] c'(3) unfolding idx_def by auto
qed

subsection \<open>Jump offsets\<close>

lemma bytes_u16: "push_bit 8 (ucast (ucast (drop_bit 8 w AND 0xFF) :: u8)) OR ucast (ucast (w AND 0xFF) :: u8) = w" for w :: u16
proof (rule bit_word_eqI)
  fix n assume n: "n < LENGTH(16)"
  have m: "(0xFF :: u16) = mask 8" by (simp add: mask_eq_exp_minus_1)
  show "bit (push_bit 8 (ucast (ucast (drop_bit 8 w AND 0xFF) :: u8)) OR ucast (ucast (w AND 0xFF) :: u8) :: u16) n = bit w n"
    using n unfolding m
    by (cases "n < 8") (auto simp: bit_or_iff bit_push_bit_iff bit_ucast_iff bit_and_iff bit_drop_bit_eq bit_mask_iff)
qed

lemma bytes_u32: "push_bit 8 (ucast (ucast (drop_bit 8 w AND 0xFF) :: u8)) OR ucast (ucast (w AND 0xFF) :: u8) = (ucast w :: u32)" for w :: u16
proof (rule bit_word_eqI)
  fix n assume n: "n < LENGTH(32)"
  have m: "(0xFF :: u16) = mask 8" by (simp add: mask_eq_exp_minus_1)
  show "bit (push_bit 8 (ucast (ucast (drop_bit 8 w AND 0xFF) :: u8)) OR ucast (ucast (w AND 0xFF) :: u8) :: u32) n = bit (ucast w :: u32) n"
    using n unfolding m
    by (cases "n < 8") (auto simp: bit_or_iff bit_push_bit_iff bit_ucast_iff bit_and_iff bit_drop_bit_eq bit_mask_iff dest: bit_imp_le_length)
qed

definition with_offset :: "RegInstr \<Rightarrow> u16 \<Rightarrow> RegInstr" where
  "with_offset i w = i\<lparr>i_rs1 := ucast (drop_bit 8 w AND 0xFF), i_rs2 := ucast (w AND 0xFF)\<rparr>"

lemma with_offset_simps [simp]:
  "i_op (with_offset i w) = i_op i" "i_rd (with_offset i w) = i_rd i"
  "reg_get_cond_offset (with_offset i w) = w" "reg_get_imm (with_offset i w) = w"
  by (simp_all add: with_offset_def reg_get_cond_offset_def reg_get_imm_def bytes_u16)

lemma instr_with_offset:
  "reg_instr_imm opc rd w = with_offset (reg_instr opc rd 0 0) w"
  "reg_instr_cond_jump opc rd w = with_offset (reg_instr opc rd 0 0) w"
  by (simp_all add: reg_instr_imm_def reg_instr_cond_jump_def with_offset_def reg_instr_def)

text \<open>With a zero in the first operand the 24-bit offset is the 16-bit field without a sign.\<close>

lemma get_offset_unsigned:
  assumes "i_rd i = 0"
  shows "sint (reg_get_offset (with_offset i w)) = int (unat w)"
proof -
  have b: "n = 23" if "bit (0x800000 :: u32) n" for n
  proof -
    have "(0x800000 :: u32) = 2 ^ 23" by simp
    then have "bit (2 ^ 23 :: u32) n" using that by (simp only:)
    then show ?thesis by (simp only: bit_exp_iff)
  qed
  have "ucast w AND 0x800000 = (0 :: u32)"
  proof (rule bit_word_eqI)
    fix n assume "n < LENGTH(32)"
    show "bit (ucast w AND 0x800000 :: u32) n = bit (0 :: u32) n"
      using b [of n] bit_imp_le_length [of w n] unfolding bit_and_iff bit_ucast_iff by auto
  qed
  then have "reg_get_offset (with_offset i w) = ucast w"
    using assms by (simp add: reg_get_offset_def with_offset_def bytes_u32)
  moreover have "sint (ucast w :: u32) = int (unat w)"
  proof -
    have "0 \<le> uint w" "uint w < 2 ^ LENGTH(16)" by (simp, rule unsigned_less)
    then have u: "uint w < 2 ^ 31" by simp
    have "- (2 ^ 31) \<le> uint w" by (rule order_trans [OF _ \<open>0 \<le> uint w\<close>]) simp
    then have "signed_take_bit 31 (uint w) = uint w" using u by (rule signed_take_bit_int_eq_self)
    then show ?thesis using \<open>uint w < 2 ^ LENGTH(16)\<close> by (simp add: sint_uint unsigned_ucast_eq take_bit_int_eq_self)
  qed
  ultimately show ?thesis by simp
qed

lemma sint_small_u16: "n < 32768 \<Longrightarrow> sint (of_nat n :: u16) = int n"
  by (simp add: signed_of_nat signed_take_bit_int_eq_self)

lemma patch_jump_adds:
  assumes "adds c0 c (pre @ [i] @ post) ks" and "off = length (ch_code (rc_chunk c0)) + length pre"
  shows "adds c0 (patch_jump off c) (pre @ [with_offset i (of_nat (length post))] @ post) ks"
    "rc_alloc (patch_jump off c) = rc_alloc c"
proof -
  let ?A = "ch_code (rc_chunk c0)"
  have code: "ch_code (rc_chunk c) = (?A @ pre) @ i # post" using assms(1) by (simp add: adds_def)
  have n: "ch_code (rc_chunk c) ! off = i" using code assms(2) by (metis length_append nth_append_length)
  have u: "(ch_code (rc_chunk c))[off := x] = (?A @ pre) @ x # post" for x
    using code assms(2) by (metis length_append list_update_length)
  have "int (code_size c) - int off - 1 = int (length post)" using code assms(2) by (simp add: code_size_def)
  then have "ch_code (rc_chunk (patch_jump off c)) = ?A @ pre @ with_offset i (of_nat (length post)) # post"
    by (simp add: patch_jump_def Let_def n u with_offset_def)
  then show "adds c0 (patch_jump off c) (pre @ [with_offset i (of_nat (length post))] @ post) ks"
    using assms(1) by (simp add: adds_def patch_jump_def Let_def)
  show "rc_alloc (patch_jump off c) = rc_alloc c" by (simp add: patch_jump_def Let_def)
qed

subsection \<open>Temporaries\<close>

definition lim :: "RegCompiler \<Rightarrow> nat" where
  "lim c = unat (temp_base (rc_alloc c)) + unat (temp_count (rc_alloc c))"

definition base :: "RegCompiler \<Rightarrow> nat" where
  "base c = unat (temp_base (rc_alloc c))"

lemma adds_base: "adds c c' seg ks \<Longrightarrow> base c' = base c" by (simp add: adds_def base_def)

lemma lim_alloc: "rc_alloc c' = rc_alloc c \<Longrightarrow> lim c' = lim c" by (simp add: lim_def)

lemma new_result_ok:
  assumes "lim c < 255"
  obtains rd c' where "new_result c = (rd, c')" "unat rd = lim c" "lim c' = Suc (lim c)" "adds c c' [] []"
    "rc_store c' = rc_store c" "ch_code (rc_chunk c') = ch_code (rc_chunk c)"
proof -
  let ?ra = "rc_alloc c"
  have s: "unat (temp_base ?ra) + unat (temp_count ?ra) < 255" using assms by (simp add: lim_def)
  then have "unat (temp_count ?ra + 1) = unat (temp_count ?ra) + 1"
    by (intro unat_Suc_u8 [THEN trans]) (auto simp: word_less_nat_alt)
  moreover have "unat (of_nat (lim c) :: u8) = lim c" using assms by (simp add: unsigned_of_nat take_bit_nat_eq_self)
  ultimately show ?thesis using s
    by (intro that [of "of_nat (lim c)" "snd (new_result c)"])
      (auto simp: new_result_def regalloc_new_result_def regalloc_temp_def Let_def REG_MAX_def lim_def adds_def)
qed

lemma free_temp_nat:
  "regalloc_free_temp ra r = (if 0 < temp_count ra \<and> Suc (unat r) = unat (temp_base ra) + unat (temp_count ra)
     then ra\<lparr>temp_count := temp_count ra - 1\<rparr> else ra)"
proof -
  have "(int a = int b + int n - 1) = (Suc a = b + n)" for a b n by linarith
  then show ?thesis unfolding regalloc_free_temp_def by (simp only:)
qed

lemma release_temp_ok:
  shows "adds c (release_temp r c) [] []" "rc_store (release_temp r c) = rc_store c"
    "lim (release_temp r c) = (if base c \<le> unat r \<and> Suc (unat r) = lim c then unat r else lim c)"
proof -
  let ?ra = "rc_alloc c"
  have dec: "unat (temp_count ?ra - 1) = unat (temp_count ?ra) - 1" if "0 < temp_count ?ra"
    using that by (metis unat_minus_one word_gt_0)
  have pos: "0 < temp_count ?ra" if "base c \<le> unat r" "Suc (unat r) = lim c"
    using that by (auto simp: base_def lim_def word_gt_0)
  show "adds c (release_temp r c) [] []" "rc_store (release_temp r c) = rc_store c"
    by (simp_all add: release_temp_def free_temp_def free_temp_nat adds_def)
  show "lim (release_temp r c) = (if base c \<le> unat r \<and> Suc (unat r) = lim c then unat r else lim c)"
    using dec pos
    by (auto simp: release_temp_def free_temp_def free_temp_nat regalloc_is_temp_def lim_def base_def
        word_le_nat_alt)
qed

subsection \<open>Expressions compile correctly\<close>

definition local_of :: "string \<Rightarrow> RegCompiler \<Rightarrow> RegLocal option" where
  "local_of y c = find (\<lambda>l. rl_name l = y) (rev (rc_locals c))"

definition declared :: "string set \<Rightarrow> RegCompiler \<Rightarrow> bool" where
  "declared V c \<longleftrightarrow> (\<forall>y \<in> V. \<exists>l. local_of y c = Some l \<and> unat (rl_reg l) < base c)"

definition holds_vars :: "string set \<Rightarrow> (string \<Rightarrow> NanValue option) \<Rightarrow> RegCompiler \<Rightarrow> (nat \<Rightarrow> NanValue option) \<Rightarrow> bool" where
  "holds_vars V env c regs \<longleftrightarrow> (\<forall>y \<in> V. \<forall>l. local_of y c = Some l \<longrightarrow> regs (unat (rl_reg l)) = env y)"

text \<open>A machine whose constants and store extend those of the compiler.\<close>

definition knows :: "RegCompiler \<Rightarrow> RegChunk \<Rightarrow> store \<Rightarrow> bool" where
  "knows c main S \<longleftrightarrow> (\<exists>extra. ch_constants main = ch_constants (rc_chunk c) @ extra) \<and> grows (rc_store c) S"

lemma knows_adds: "adds c c' seg ks \<Longrightarrow> knows c' main S \<Longrightarrow> knows c main S"
  by (auto simp: knows_def adds_def intro: grows_trans)

lemma knows_patch [simp]: "knows (patch_jump off c) main S = knows c main S"
  by (simp add: knows_def patch_jump_def Let_def)

definition runs_to :: "string set \<Rightarrow> AstNode \<Rightarrow> RegCompiler \<Rightarrow> u8 \<Rightarrow> RegCompiler \<Rightarrow> RegInstr list \<Rightarrow> bool" where
  "runs_to V e c r c' seg \<longleftrightarrow> (\<forall>chunks main vm S regs env v A rest.
     ch_code (f_chunk (cur_frame vm)) = A @ seg @ rest \<longrightarrow>
     knows c' main S \<longrightarrow> holds_vars V env c regs \<longrightarrow> eval env S e = Some v \<longrightarrow>
     (\<exists>regs'. goes chunks main vm S (int (length A)) regs (int (length (A @ seg))) regs'
        \<and> regs' (unat r) = Some v \<and> (\<forall>k < lim c. regs' k = regs k)))"

definition compiled :: "string set \<Rightarrow> AstNode \<Rightarrow> RegCompiler \<Rightarrow> u8 \<Rightarrow> RegCompiler \<Rightarrow> RegInstr list \<Rightarrow> ptr list \<Rightarrow> bool" where
  "compiled V e c r c' seg ks \<longleftrightarrow>
     compile_expr e c = Some (r, c') \<and> adds c c' seg ks \<and> lim c \<le> lim c' \<and> lim c' \<le> lim c + regs_needed e \<and>
     length seg \<le> 4 * regs_needed e \<and> length ks \<le> regs_needed e \<and>
     (unat r < base c \<or> lim c \<le> unat r \<and> unat r < lim c') \<and> runs_to V e c r c' seg"

text \<open>What compiling an expression asks for.\<close>

definition ready :: "string set \<Rightarrow> nat \<Rightarrow> RegCompiler \<Rightarrow> bool" where
  "ready V n c \<longleftrightarrow> mem_ok (rc_store c) \<and> declared V c \<and> lim c + n \<le> 255
     \<and> length (ch_constants (rc_chunk c)) + n \<le> 0x10000"

lemma base_le_lim: "base c \<le> lim c" by (simp add: base_def lim_def)

lemma ready_adds:
  assumes "ready V (m + n) c" "adds c c' seg ks" "lim c' \<le> lim c + m" "length ks \<le> m"
  shows "ready V n c'"
  using assms adds_base [OF assms(2)]
  by (auto simp: ready_def adds_def declared_def local_of_def intro: grows_mem_ok)

lemma ready_mono: "ready V m c \<Longrightarrow> n \<le> m \<Longrightarrow> ready V n c" by (simp add: ready_def)

lemma holds_vars_adds:
  assumes "holds_vars V env c regs" "declared V c" "adds c c' seg ks" "\<forall>k < lim c. regs' k = regs k"
  shows "holds_vars V env c' regs'"
proof -
  have "regs' (unat (rl_reg l)) = env y" if "y \<in> V" "local_of y c' = Some l" for y l
  proof -
    have l: "local_of y c = Some l" using that(2) assms(3) by (simp add: local_of_def adds_def)
    then have "unat (rl_reg l) < base c" using assms(2) that(1) by (auto simp: declared_def)
    then show ?thesis using assms(1,4) l that(1) base_le_lim [of c] by (auto simp: holds_vars_def)
  qed
  then show ?thesis by (simp add: holds_vars_def)
qed

text \<open>An instruction at a known place in the code.\<close>

lemma goes_at:
  assumes "ch_code (f_chunk (cur_frame vm)) = A @ i # rest"
    and "reg_exec chunks main i (at vm (int (length A) + 1) regs) S = Some (Running (at vm pc' regs') S)"
  shows "goes chunks main vm S (int (length A)) regs pc' regs'"
  using assms by (intro goes_step) auto

text \<open>Expressions that compile to one load.\<close>

lemma compiled_leaf:
  assumes ready: "ready V 1 c" and e: "regs_needed e = 1"
    and comp: "compile_expr e c = (case new_result c of (rd, c1) \<Rightarrow> map_option (\<lambda>c'. (rd, c')) (f rd c1))"
    and f: "\<And>rd c1. mem_ok (rc_store c1) \<Longrightarrow> length (ch_constants (rc_chunk c1)) \<le> 0xFFFF \<Longrightarrow>
       \<exists>c' i ks. f rd c1 = Some c' \<and> adds c1 c' [i] ks \<and> rc_alloc c' = rc_alloc c1 \<and> length ks \<le> 1 \<and>
         (\<forall>chunks main vm S pc regs env extra. ch_constants main = ch_constants (rc_chunk c') @ extra \<longrightarrow> grows (rc_store c') S \<longrightarrow>
            (\<exists>v. eval env S e = Some v \<and> reg_exec chunks main i (at vm pc regs) S = Some (Running (at vm pc (regs(unat rd \<mapsto> v))) S)))"
  shows "\<exists>r c' seg ks. compiled V e c r c' seg ks"
proof -
  have m: "mem_ok (rc_store c)" "lim c < 255" "length (ch_constants (rc_chunk c)) \<le> 0xFFFF"
    using ready by (auto simp: ready_def)
  obtain rd c1 where c1: "new_result c = (rd, c1)" "unat rd = lim c" "lim c1 = Suc (lim c)" "adds c c1 [] []"
    "rc_store c1 = rc_store c"
    using new_result_ok [OF m(2)] by metis
  have "length (ch_constants (rc_chunk c1)) \<le> 0xFFFF" using m(3) c1(4) by (simp add: adds_def)
  then obtain c' i ks where c': "f rd c1 = Some c'" "adds c1 c' [i] ks" "rc_alloc c' = rc_alloc c1" "length ks \<le> 1"
    and ex: "\<And>chunks main vm S pc regs env extra. ch_constants main = ch_constants (rc_chunk c') @ extra \<Longrightarrow> grows (rc_store c') S \<Longrightarrow>
            \<exists>v. eval env S e = Some v \<and> reg_exec chunks main i (at vm pc regs) S = Some (Running (at vm pc (regs(unat rd \<mapsto> v))) S)"
    using f [of c1 rd] m(1) c1(5) by metis
  have ad: "adds c c' [i] ks" using adds_trans [OF c1(4) c'(2)] by simp
  have "runs_to V e c rd c' [i]"
    unfolding runs_to_def
  proof (intro allI impI)
    fix chunks :: "u64 \<Rightarrow> RegChunk option" and main :: RegChunk and vm :: RegVM and S :: store and regs env v A rest
    assume a: "ch_code (f_chunk (cur_frame vm)) = A @ [i] @ rest" "knows c' main S" "eval env S e = Some v"
    have "reg_exec chunks main i (at vm (int (length A) + 1) regs) S
        = Some (Running (at vm (int (length A) + 1) (regs(unat rd \<mapsto> v))) S)"
      using ex a(2,3) unfolding knows_def by (metis option.inject)
    then have "goes chunks main vm S (int (length A)) regs (int (length A) + 1) (regs(unat rd \<mapsto> v))"
      using a(1) by (intro goes_at) simp_all
    then show "\<exists>regs'. goes chunks main vm S (int (length A)) regs (int (length (A @ [i]))) regs' \<and> regs' (unat rd) = Some v
        \<and> (\<forall>k<lim c. regs' k = regs k)"
      using c1(2) by (intro exI [of _ "regs(unat rd \<mapsto> v)"]) (simp add: add.commute)
  qed
  moreover have "compile_expr e c = Some (rd, c')" using comp c1(1) c'(1) by simp
  ultimately have "compiled V e c rd c' [i] ks"
    using ad c1(2,3) lim_alloc [OF c'(3)] c'(4) e by (simp add: compiled_def)
  then show ?thesis by blast
qed

lemma scast_ucast_u16:
  fixes i :: u64
  assumes "- 32768 \<le> sint i" "sint i \<le> 32767"
  shows "scast (ucast i :: u16) = i"
proof -
  have "sint (ucast i :: u16) = signed_take_bit 15 (sint i)"
    by (simp add: sint_uint unsigned_ucast_eq signed_take_bit_take_bit)
  also have "\<dots> = sint i" using assms by (intro signed_take_bit_int_eq_self) simp_all
  finally have "sint (ucast i :: u16) = sint i" .
  moreover have "scast (ucast i :: u16) = (word_of_int (sint (ucast i :: u16)) :: u64)" by (rule scast_eq)
  ultimately show ?thesis by simp
qed

lemma exec_load_constant:
  assumes "ch_constants main = A @ Some a # extra" "length A \<le> 0xFFFF" "grows s S" "cell s a = Some (fresh_value 0 p)"
    and "v = (case p of VInt i \<Rightarrow> nanbox_int i | VFloat d \<Rightarrow> nanbox_double d | _ \<Rightarrow> v)" "value_type p = 2 \<or> value_type p = 3"
  shows "reg_exec chunks main (reg_instr_imm ROP_LOAD_K rd (of_nat (length A))) (at vm pc regs) S
    = Some (Running (at vm pc (regs(unat rd \<mapsto> v))) S)"
proof -
  have "unat (of_nat (length A) :: u16) = length A" using assms(2) by (simp add: unsigned_of_nat take_bit_nat_eq_self)
  moreover have "cell S a = Some (fresh_value 0 p)" using grows_cell [OF assms(3,4)] .
  ultimately show ?thesis using assms(1,5,6)
    by (cases p) (simp_all add: reg_exec_def instr_with_offset reg_instr_def value_to_nanbox_def fresh_value_def load_reg_def Let_def)
qed

lemma compiled_load:
  assumes "ready V 1 c" "regs_needed e = 1" "\<And>env S. eval env S e = Some v"
    and "\<And>c. compile_expr e c = (case new_result c of (rd, c1) \<Rightarrow> map_option (\<lambda>c'. (rd, c')) (emit (i rd) l c1))"
    and "\<And>chunks main rd vm pc regs S. reg_exec chunks main (i rd) (at vm pc regs) S = Some (Running (at vm pc (regs(unat rd \<mapsto> v))) S)"
  shows "\<exists>r c' seg ks. compiled V e c r c' seg ks"
proof (rule compiled_leaf [OF assms(1,2) assms(4)])
  fix rd :: u8 and c1 :: RegCompiler
  assume "mem_ok (rc_store c1)"
  then obtain c' where "emit (i rd) l c1 = Some c'" "adds c1 c' [i rd] []" "rc_alloc c' = rc_alloc c1"
    using emit_adds by blast
  then show "\<exists>c' i' ks. emit (i rd) l c1 = Some c' \<and> adds c1 c' [i'] ks \<and> rc_alloc c' = rc_alloc c1 \<and> length ks \<le> 1 \<and>
      (\<forall>chunks main vm S pc regs env extra. ch_constants main = ch_constants (rc_chunk c') @ extra \<longrightarrow> grows (rc_store c') S \<longrightarrow>
         (\<exists>v. eval env S e = Some v \<and> reg_exec chunks main i' (at vm pc regs) S = Some (Running (at vm pc (regs(unat rd \<mapsto> v))) S)))"
    using assms(3,5) by (intro exI [of _ c'] exI [of _ "i rd"] exI [of _ "[]"]) auto
qed

lemma compiled_const:
  assumes "ready V 1 c" "regs_needed e = 1" "\<And>env S. eval env S e = Some v"
    and "\<And>c. compile_expr e c = (case new_result c of (rd, c1) \<Rightarrow> map_option (\<lambda>c'. (rd, c')) (load_constant (construct (Suc 0) 0 p) l rd c1))"
    and "v = (case p of VInt i \<Rightarrow> nanbox_int i | VFloat d \<Rightarrow> nanbox_double d | _ \<Rightarrow> v)" "value_type p = 2 \<or> value_type p = 3"
  shows "\<exists>r c' seg ks. compiled V e c r c' seg ks"
proof (rule compiled_leaf [OF assms(1,2) assms(4)])
  fix rd :: u8 and c1 :: RegCompiler
  assume m: "mem_ok (rc_store c1)" and k: "length (ch_constants (rc_chunk c1)) \<le> 0xFFFF"
  let ?i = "reg_instr_imm ROP_LOAD_K rd (of_nat (length (ch_constants (rc_chunk c1))))"
  obtain c' a where c': "load_constant (construct (Suc 0) 0 p) l rd c1 = Some c'" "adds c1 c' [?i] [Some a]"
    "rc_alloc c' = rc_alloc c1" "cell (rc_store c') a = Some (fresh_value 0 p)"
    using load_constant_adds [OF m k refl] by blast
  have "reg_exec chunks main ?i (at vm pc regs) S = Some (Running (at vm pc (regs(unat rd \<mapsto> v))) S)"
    if "ch_constants main = ch_constants (rc_chunk c') @ extra" "grows (rc_store c') S" for chunks main vm pc regs S extra
    using that c'(2) by (intro exec_load_constant [OF _ k that(2) c'(4) assms(5,6)]) (simp add: adds_def)
  then show "\<exists>c' i' ks. load_constant (construct (Suc 0) 0 p) l rd c1 = Some c' \<and> adds c1 c' [i'] ks \<and> rc_alloc c' = rc_alloc c1 \<and> length ks \<le> 1 \<and>
      (\<forall>chunks main vm S pc regs env extra. ch_constants main = ch_constants (rc_chunk c') @ extra \<longrightarrow> grows (rc_store c') S \<longrightarrow>
         (\<exists>v. eval env S e = Some v \<and> reg_exec chunks main i' (at vm pc regs) S = Some (Running (at vm pc (regs(unat rd \<mapsto> v))) S)))"
    using c' assms(3) by (intro exI [of _ c'] exI [of _ ?i] exI [of _ "[Some a]"]) auto
qed

lemma literal_constructs: "value_int i = construct (Suc 0) 0 (VInt i)" "value_float d = construct (Suc 0) 0 (VFloat d)"
  by (simp_all add: fun_eq_iff value_int_def value_float_def)

lemma compiled_int:
  assumes "ready V 1 c"
  shows "\<exists>r c' seg ks. compiled V (NODE_INT l i) c r c' seg ks"
proof (cases "- 32768 \<le> sint i \<and> sint i \<le> 32767")
  case True
  show ?thesis
  proof (rule compiled_load [OF assms, of _ "nanbox_int i" "\<lambda>rd. reg_instr_imm ROP_LOAD_INT rd (ucast i)" l])
    show "reg_exec chunks main (reg_instr_imm ROP_LOAD_INT rd (ucast i)) (at vm pc regs) S
        = Some (Running (at vm pc (regs(unat rd \<mapsto> nanbox_int i))) S)" for chunks main rd vm pc regs S
      using True scast_ucast_u16 by (simp add: reg_exec_def instr_with_offset reg_instr_def load_reg_def)
  qed (use True in \<open>auto simp: compile_int_def emit_imm_def map_option_case split: prod.splits option.splits bind_splits\<close>)
next
  case False
  show ?thesis
    by (rule compiled_const [OF assms, of _ "nanbox_int i" "VInt i" l])
      (use False in \<open>auto simp: compile_int_def literal_constructs split: prod.splits bind_splits\<close>)
qed

lemma compiled_ident:
  assumes "ready V 0 c" "cstr x \<in> V"
  shows "\<exists>r c' seg ks. compiled V (NODE_IDENT l x) c r c' seg ks"
proof -
  obtain lo where lo: "local_of (cstr x) c = Some lo" "unat (rl_reg lo) < base c"
    using assms by (auto simp: ready_def declared_def)
  then have "compile_expr (NODE_IDENT l x) c = Some (rl_reg lo, c)"
    by (simp add: compile_identifier_def resolve_local_def local_of_def)
  moreover have "runs_to V (NODE_IDENT l x) c (rl_reg lo) c []"
    using lo assms(2) by (auto simp: runs_to_def holds_vars_def intro: goes_refl)
  ultimately have "compiled V (NODE_IDENT l x) c (rl_reg lo) c [] []"
    using lo(2) adds_refl by (simp add: compiled_def)
  then show ?thesis by blast
qed

lemma exec_binary:
  assumes t: "binary_rop t = Some opc" and ab: "regs (unat l) = Some a" "regs (unat r) = Some b" "eval_binary t a b S = Some v"
  shows "reg_exec chunks main (reg_instr opc rd l r) (at vm pc regs) S = Some (Running (at vm pc (regs(unat rd \<mapsto> v))) S)"
proof -
  have "t \<in> {TOK_PLUS, TOK_MINUS, TOK_STAR, TOK_SLASH, TOK_PERCENT, TOK_EQ, TOK_NE, TOK_LT, TOK_LE, TOK_GT, TOK_GE, TOK_AND, TOK_OR}"
    using t by (cases t) (simp_all add: binary_rop_def)
  then show ?thesis using t ab
    by (elim insertE emptyE)
      (auto simp: binary_rop_def eval_binary_def reg_exec_def reg_instr_def binary_op_def nanbox_as_bool_def split: if_splits)
qed

lemma exec_unary:
  assumes "t = TOK_MINUS \<and> opc = ROP_NEG \<or> t = TOK_NOT \<and> opc = ROP_NOT" "regs (unat x) = Some a" "eval_unary t a = Some v"
  shows "reg_exec chunks main (reg_instr opc rd x 0) (at vm pc regs) S = Some (Running (at vm pc (regs(unat rd \<mapsto> v))) S)"
  using assms by (auto simp: eval_unary_def reg_exec_def reg_instr_def unary_op_def)

text \<open>
  The end of every operator: a new register above everything in use, the instruction, and the
  release of operands, which leaves the new register alone.
\<close>

lemma release_keeps:
  assumes "unat r < k" "k < lim c"
  shows "adds c (release_temp r c) [] []" "rc_store (release_temp r c) = rc_store c" "lim (release_temp r c) = lim c"
  using release_temp_ok [where r = r and c = c] assms by auto

lemma operator_tail:
  assumes "mem_ok (rc_store c1)" "lim c1 < 255"
  obtains rd c2 c3 where "new_result c1 = (rd, c2)" "emit (reg_instr opc rd x y) l c2 = Some c3"
    "adds c1 c3 [reg_instr opc rd x y] []" "unat rd = lim c1" "lim c3 = Suc (lim c1)"
proof -
  obtain rd c2 where c2: "new_result c1 = (rd, c2)" "unat rd = lim c1" "lim c2 = Suc (lim c1)" "adds c1 c2 [] []" "rc_store c2 = rc_store c1"
    using new_result_ok [OF assms(2)] by metis
  obtain c3 where c3: "emit (reg_instr opc rd x y) l c2 = Some c3" "adds c2 c3 [reg_instr opc rd x y] []" "rc_alloc c3 = rc_alloc c2"
    using emit_adds assms(1) c2(5) by metis
  then show ?thesis using that [OF c2(1) c3(1)] adds_trans [OF c2(4) c3(2)] c2(2,3) lim_alloc [OF c3(3)] by simp
qed

text \<open>Running compiled code inside a longer program.\<close>

lemma runs_toD:
  assumes "compiled V e c r c1 seg ks" "knows c1 main S"
    and "ch_code (f_chunk (cur_frame vm)) = A @ seg @ rest" "holds_vars V env c regs" "eval env S e = Some v"
  obtains regs' where "goes chunks main vm S (int (length A)) regs (int (length (A @ seg))) regs'"
    "regs' (unat r) = Some v" "\<forall>k < lim c. regs' k = regs k"
  using assms that unfolding compiled_def runs_to_def by blast

lemma compiled_unary:
  assumes t: "t = TOK_MINUS \<or> t = TOK_NOT" and ready: "ready V (Suc (regs_needed x)) c"
    and x: "compiled V x c r1 c1 seg1 ks1"
  shows "\<exists>r c' seg ks. compiled V (NODE_UNARY l t x) c r c' seg ks"
proof -
  note X = x [unfolded compiled_def]
  define opc where "opc = (if t = TOK_MINUS then ROP_NEG else ROP_NOT)"
  have "ready V 1 c1" using X ready_adds [of V "regs_needed x" 1 c c1 seg1 ks1] ready by simp
  then have m: "mem_ok (rc_store c1)" "lim c1 < 255" by (auto simp: ready_def)
  obtain rd c2 c3 where c3: "new_result c1 = (rd, c2)" "emit (reg_instr opc rd r1 0) l c2 = Some c3"
    "adds c1 c3 [reg_instr opc rd r1 0] []" "unat rd = lim c1" "lim c3 = Suc (lim c1)"
    by (rule operator_tail [OF m])
  have "unat r1 < lim c1" using X base_le_lim [of c] by linarith
  then have c4: "adds c3 (release_temp r1 c3) [] []" "lim (release_temp r1 c3) = lim c3"
    using release_keeps [of r1 "lim c1" c3] c3(5) by simp_all
  let ?c = "release_temp r1 c3" and ?i = "reg_instr opc rd r1 0"
  have a2: "adds c1 ?c [?i] []" using adds_trans [OF c3(3) c4(1)] by simp
  have ad: "adds c ?c (seg1 @ [?i]) ks1" using adds_trans [of c c1 seg1 ks1, OF _ a2] X by simp
  have "compile_expr (NODE_UNARY l t x) c = Some (rd, ?c)"
    using X t c3(1,2) by (auto simp: compile_unary_def emit_op_def opc_def)
  moreover have "runs_to V (NODE_UNARY l t x) c rd ?c (seg1 @ [?i])"
    unfolding runs_to_def
  proof (intro allI impI)
    fix chunks :: "u64 \<Rightarrow> RegChunk option" and main :: RegChunk and vm :: RegVM and S :: store and regs env v A rest
    assume a: "ch_code (f_chunk (cur_frame vm)) = A @ (seg1 @ [?i]) @ rest"
      "knows ?c main S" "holds_vars V env c regs"
      "eval env S (NODE_UNARY l t x) = Some v"
    obtain b where b: "eval env S x = Some b" "eval_unary t b = Some v" using a(4) by (auto split: bind_splits)
    have "ch_code (f_chunk (cur_frame vm)) = A @ seg1 @ ?i # rest" using a(1) by simp
    then obtain regs1 where r1: "goes chunks main vm S (int (length A)) regs (int (length (A @ seg1))) regs1"
      "regs1 (unat r1) = Some b" "\<forall>k < lim c. regs1 k = regs k"
      by (rule runs_toD [OF x knows_adds [OF a2 a(2)] _ a(3) b(1)])
    have "reg_exec chunks main ?i (at vm (int (length (A @ seg1)) + 1) regs1) S
          = Some (Running (at vm (int (length (A @ seg1)) + 1) (regs1(unat rd \<mapsto> v))) S)"
      using exec_unary [of t opc regs1 r1 b v] t r1(2) b(2) by (auto simp: opc_def)
    then have "goes chunks main vm S (int (length (A @ seg1))) regs1 (int (length (A @ seg1)) + 1) (regs1(unat rd \<mapsto> v))"
      using a(1) by (intro goes_at) simp_all
    from goes_trans [OF r1(1) this]
    show "\<exists>regs'. goes chunks main vm S (int (length A)) regs (int (length (A @ seg1 @ [?i]))) regs' \<and> regs' (unat rd) = Some v
        \<and> (\<forall>k<lim c. regs' k = regs k)"
      using r1(3) c3(4) X by (intro exI [of _ "regs1(unat rd \<mapsto> v)"]) (auto simp: algebra_simps)
  qed
  ultimately have "compiled V (NODE_UNARY l t x) c rd ?c (seg1 @ [?i]) ks1"
    using X ad c3(4,5) c4(2) unfolding compiled_def by simp
  then show ?thesis by blast
qed

lemma compiled_binary:
  assumes t: "binary_rop t = Some opc" and ready: "ready V (Suc (regs_needed x + regs_needed y)) c"
    and x: "compiled V x c r1 c1 seg1 ks1" and y: "compiled V y c1 r2 c2 seg2 ks2"
  shows "\<exists>r c' seg ks. compiled V (NODE_BINARY l t x y) c r c' seg ks"
proof -
  note X = x [unfolded compiled_def] and Y = y [unfolded compiled_def]
  have decl: "declared V c" using ready by (simp add: ready_def)
  have a1: "adds c c1 seg1 ks1" and a2: "adds c1 c2 seg2 ks2" using X Y by blast+
  have "ready V (regs_needed y + 1) c1" using X ready_adds [OF _ a1, of V "regs_needed x" "regs_needed y + 1"] ready by simp
  then have "ready V 1 c2" using Y ready_adds [OF _ a2, of V "regs_needed y" 1] by simp
  then have m: "mem_ok (rc_store c2)" "lim c2 < 255" by (auto simp: ready_def)
  obtain rd c3 c4 where c4: "new_result c2 = (rd, c3)" "emit (reg_instr opc rd r1 r2) l c3 = Some c4"
    "adds c2 c4 [reg_instr opc rd r1 r2] []" "unat rd = lim c2" "lim c4 = Suc (lim c2)"
    by (rule operator_tail [OF m])
  have b1: "base c1 = base c" using adds_base [OF a1] .
  have r1: "unat r1 < lim c1" "unat r1 < lim c2" "unat r2 < lim c2"
    using X Y base_le_lim [of c] base_le_lim [of c1] b1 by linarith+
  let ?c5 = "release_temp r2 c4" and ?i = "reg_instr opc rd r1 r2"
  let ?c = "release_temp r1 ?c5"
  have c5: "adds c4 ?c5 [] []" "lim ?c5 = lim c4" using release_keeps [OF r1(3), of c4] c4(5) by simp_all
  have c6: "adds ?c5 ?c [] []" "lim ?c = lim ?c5" using release_keeps [OF r1(2), of ?c5] c4(5) c5(2) by simp_all
  have a3: "adds c2 ?c [?i] []" using adds_trans [OF adds_trans [OF c4(3) c5(1)] c6(1)] by simp
  have a23: "adds c1 ?c (seg2 @ [?i]) ks2" using adds_trans [OF a2 a3] by simp
  have ad: "adds c ?c (seg1 @ seg2 @ [?i]) (ks1 @ ks2)" using adds_trans [OF a1 a23] by simp
  have "compile_expr (NODE_BINARY l t x y) c = Some (rd, ?c)"
    using X Y t c4(1,2) by (simp add: compile_binary_def emit_op_def)
  moreover have "runs_to V (NODE_BINARY l t x y) c rd ?c (seg1 @ seg2 @ [?i])"
    unfolding runs_to_def
  proof (intro allI impI)
    fix chunks :: "u64 \<Rightarrow> RegChunk option" and main :: RegChunk and vm :: RegVM and S :: store and regs env v A rest
    assume a: "ch_code (f_chunk (cur_frame vm)) = A @ (seg1 @ seg2 @ [?i]) @ rest"
      "knows ?c main S" "holds_vars V env c regs"
      "eval env S (NODE_BINARY l t x y) = Some v"
    let ?B = "(A @ seg1) @ seg2"
    obtain p q where b: "eval env S x = Some p" "eval env S y = Some q" "eval_binary t p q S = Some v"
      using a(4) by (auto split: bind_splits)
    have "ch_code (f_chunk (cur_frame vm)) = A @ seg1 @ seg2 @ ?i # rest" using a(1) by simp
    then obtain regs1 where g1: "goes chunks main vm S (int (length A)) regs (int (length (A @ seg1))) regs1"
      "regs1 (unat r1) = Some p" "\<forall>k < lim c. regs1 k = regs k"
      by (rule runs_toD [OF x knows_adds [OF a23 a(2)] _ a(3) b(1)])
    have hv: "holds_vars V env c1 regs1" by (rule holds_vars_adds [OF a(3) decl a1 g1(3)])
    have "ch_code (f_chunk (cur_frame vm)) = (A @ seg1) @ seg2 @ ?i # rest" using a(1) by simp
    then obtain regs2 where g2: "goes chunks main vm S (int (length (A @ seg1))) regs1 (int (length ?B)) regs2"
      "regs2 (unat r2) = Some q" "\<forall>k < lim c1. regs2 k = regs1 k"
      by (rule runs_toD [OF y knows_adds [OF a3 a(2)] _ hv b(2)])
    have "reg_exec chunks main ?i (at vm (int (length ?B) + 1) regs2) S
          = Some (Running (at vm (int (length ?B) + 1) (regs2(unat rd \<mapsto> v))) S)"
      using exec_binary [where regs = regs2, OF t _ g2(2) b(3)] g1(2) g2(3) r1(1) by simp
    then have "goes chunks main vm S (int (length ?B)) regs2 (int (length ?B) + 1) (regs2(unat rd \<mapsto> v))"
      using a(1) by (intro goes_at) simp_all
    from goes_trans [OF goes_trans [OF g1(1) g2(1)] this]
    show "\<exists>regs'. goes chunks main vm S (int (length A)) regs (int (length (A @ seg1 @ seg2 @ [?i]))) regs'
        \<and> regs' (unat rd) = Some v \<and> (\<forall>k<lim c. regs' k = regs k)"
      using g1(3) g2(3) c4(4) X Y by (intro exI [of _ "regs2(unat rd \<mapsto> v)"]) (auto simp: algebra_simps)
  qed
  ultimately have "compiled V (NODE_BINARY l t x y) c rd ?c (seg1 @ seg2 @ [?i]) (ks1 @ ks2)"
    using X Y ad c4(4,5) c5(2) c6(2) unfolding compiled_def by simp
  then show ?thesis by blast
qed

text \<open>An arm of a conditional: the expression, and a move of its value to \<open>rd\<close>.\<close>

definition arm :: "string set \<Rightarrow> AstNode \<Rightarrow> u8 \<Rightarrow> RegCompiler \<Rightarrow> RegCompiler \<Rightarrow> RegInstr list \<Rightarrow> ptr list \<Rightarrow> bool" where
  "arm V e rd c c' seg ks \<longleftrightarrow>
     adds c c' seg ks \<and> lim c \<le> lim c' \<and> lim c' \<le> lim c + regs_needed e \<and>
     length seg \<le> 4 * regs_needed e + 1 \<and> length ks \<le> regs_needed e \<and>
     (\<forall>chunks main vm S regs env v A rest.
        ch_code (f_chunk (cur_frame vm)) = A @ seg @ rest \<longrightarrow> knows c' main S \<longrightarrow>
        holds_vars V env c regs \<longrightarrow> eval env S e = Some v \<longrightarrow>
        (\<exists>regs'. goes chunks main vm S (int (length A)) regs (int (length (A @ seg))) regs'
           \<and> regs' (unat rd) = Some v \<and> (\<forall>k < lim c. k \<noteq> unat rd \<longrightarrow> regs' k = regs k)))"

lemma release_bounds:
  assumes "unat r < base c \<or> k \<le> unat r" "k \<le> lim c"
  shows "k \<le> lim (release_temp r c)" "lim (release_temp r c) \<le> lim c"
  using release_temp_ok(3) [where r = r and c = c] assms by auto

lemma exec_mov:
  "regs (unat r) = Some v \<Longrightarrow>
   reg_exec chunks main (reg_instr ROP_MOV rd r 0) (at vm pc regs) S = Some (Running (at vm pc (regs(unat rd \<mapsto> v))) S)"
  by (simp add: reg_exec_def reg_instr_def unary_op_def)

lemma arm_compiled:
  assumes x: "compiled V e c r c1 seg ks" and m: "mem_ok (rc_store c1)"
  obtains c2 where "emit_op ROP_MOV rd r 0 l c1 = Some c2"
    "arm V e rd c (release_temp r c2) (seg @ [reg_instr ROP_MOV rd r 0]) ks"
proof -
  note X = x [unfolded compiled_def]
  let ?i = "reg_instr ROP_MOV rd r 0"
  obtain c2 where c2: "emit ?i l c1 = Some c2" "adds c1 c2 [?i] []" "rc_alloc c2 = rc_alloc c1" using emit_adds [OF m] by blast
  let ?c = "release_temp r c2"
  have a2: "adds c1 ?c [?i] []" using adds_trans [OF c2(2) release_temp_ok(1) [where r = r]] by simp
  have ad: "adds c ?c (seg @ [?i]) ks" using adds_trans [OF _ a2, of c seg ks] X by simp
  have "base c2 = base c" using X adds_base c2(2) by metis
  then have l: "lim c \<le> lim ?c" "lim ?c \<le> lim c1"
    using release_bounds [of r c2 "lim c"] X lim_alloc [OF c2(3)] by auto
  have "\<exists>regs'. goes chunks main vm S (int (length A)) regs (int (length (A @ seg @ [?i]))) regs'
           \<and> regs' (unat rd) = Some v \<and> (\<forall>k < lim c. k \<noteq> unat rd \<longrightarrow> regs' k = regs k)"
    if a: "ch_code (f_chunk (cur_frame vm)) = A @ (seg @ [?i]) @ rest" "knows ?c main S" "holds_vars V env c regs"
      "eval env S e = Some v" for chunks main vm S regs env v A rest
  proof -
    have "ch_code (f_chunk (cur_frame vm)) = A @ seg @ ?i # rest" using a(1) by simp
    then obtain regs1 where r1: "goes chunks main vm S (int (length A)) regs (int (length (A @ seg))) regs1"
      "regs1 (unat r) = Some v" "\<forall>k < lim c. regs1 k = regs k"
      by (rule runs_toD [OF x knows_adds [OF a2 a(2)] _ a(3,4)])
    have "goes chunks main vm S (int (length (A @ seg))) regs1 (int (length (A @ seg)) + 1) (regs1(unat rd \<mapsto> v))"
      using a(1) exec_mov [where regs = regs1, OF r1(2)] by (intro goes_at) simp_all
    from goes_trans [OF r1(1) this] show ?thesis
      using r1(3) by (intro exI [of _ "regs1(unat rd \<mapsto> v)"]) (auto simp: algebra_simps)
  qed
  then have "arm V e rd c ?c (seg @ [?i]) ks" using X ad l unfolding arm_def by auto
  then show ?thesis using that c2(1) by (simp add: emit_op_def)
qed

lemma armD:
  assumes "arm V e rd c c1 seg ks" "knows c1 main S"
    and "ch_code (f_chunk (cur_frame vm)) = A @ seg @ rest" "holds_vars V env c regs" "eval env S e = Some v"
  obtains regs' where "goes chunks main vm S (int (length A)) regs (int (length (A @ seg))) regs'"
    "regs' (unat rd) = Some v" "\<forall>k < lim c. k \<noteq> unat rd \<longrightarrow> regs' k = regs k"
  using assms that unfolding arm_def by blast

text \<open>The two jumps of a conditional.\<close>

lemma goes_unless:
  assumes "ch_code (f_chunk (cur_frame vm)) = A @ with_offset (reg_instr ROP_JMP_UNLESS r 0 0) (of_nat n) # rest"
    and "n < 32768" "regs (unat r) = Some v"
  shows "goes chunks main vm S (int (length A)) regs
    (if reg_nanbox_is_truthy v then int (length A) + 1 else int (length A) + 1 + int n) regs"
  using assms by (intro goes_at) (auto simp: reg_exec_def reg_instr_def sint_small_u16)

lemma goes_jmp:
  assumes "ch_code (f_chunk (cur_frame vm)) = A @ with_offset (reg_instr ROP_JMP 0 0 0) (of_nat n) # rest"
    and "n < 65536"
  shows "goes chunks main vm S (int (length A)) regs (int (length A) + 1 + int n) regs"
proof -
  have "sint (reg_get_offset (with_offset (reg_instr ROP_JMP 0 0 0) (of_nat n))) = int n"
    using get_offset_unsigned [of "reg_instr ROP_JMP 0 0 0" "of_nat n"] assms(2)
    by (simp add: reg_instr_def unsigned_of_nat take_bit_nat_eq_self)
  then show ?thesis using assms(1) by (intro goes_at) (auto simp: reg_exec_def reg_instr_def)
qed

lemma ternary_runs:
  assumes b: "compiled V b c r0 c1 segb ksb" and x: "arm V x rd c4 c7 segx ksx" and y: "arm V y rd c9 c12 segy ksy"
    and seg: "seg = segb @ [with_offset (reg_instr ROP_JMP_UNLESS r0 0 0) (of_nat (length segx + 1))] @ segx
      @ [with_offset (reg_instr ROP_JMP 0 0 0) (of_nat (length segy))] @ segy"
    and small: "length segx + 1 < 32768" "length segy < 65536"
    and decl: "declared V c" and ad: "adds c c4 seg4 ks4" "adds c c9 seg9 ks9" 
    and k: "\<And>main S. knows c12 main S \<Longrightarrow> knows c1 main S \<and> knows c7 main S"
    and rd: "lim c \<le> unat rd" "lim c \<le> lim c4" "lim c \<le> lim c9" and c13: "\<And>main S. knows c13 main S = knows c12 main S"
  shows "runs_to V (NODE_TERNARY l b x y) c rd c13 seg"
  unfolding runs_to_def
proof (intro allI impI)
  fix chunks :: "u64 \<Rightarrow> RegChunk option" and main :: RegChunk and vm :: RegVM and S :: store and regs env v A rest
  assume a: "ch_code (f_chunk (cur_frame vm)) = A @ seg @ rest" "knows c13 main S" "holds_vars V env c regs"
    "eval env S (NODE_TERNARY l b x y) = Some v"
  let ?J = "with_offset (reg_instr ROP_JMP_UNLESS r0 0 0) (of_nat (length segx + 1))"
    and ?K = "with_offset (reg_instr ROP_JMP 0 0 0) (of_nat (length segy))"
  have kn: "knows c1 main S" "knows c7 main S" "knows c12 main S" using k a(2) c13 by blast+
  obtain p where p: "eval env S b = Some p" "eval env S (if reg_nanbox_is_truthy p then x else y) = Some v"
    using a(4) by (auto split: bind_splits if_splits)
  have code: "ch_code (f_chunk (cur_frame vm)) = A @ segb @ ?J # segx @ ?K # segy @ rest" using a(1) seg by simp
  then obtain regs1 where g1: "goes chunks main vm S (int (length A)) regs (int (length (A @ segb))) regs1"
    "regs1 (unat r0) = Some p" "\<forall>k < lim c. regs1 k = regs k"
    by (rule runs_toD [OF b kn(1) _ a(3) p(1)])
  have hv: "holds_vars V env c4 regs1" "holds_vars V env c9 regs1"
    using holds_vars_adds [OF a(3) decl _ g1(3)] ad by blast+
  have g2: "goes chunks main vm S (int (length (A @ segb))) regs1
      (if reg_nanbox_is_truthy p then int (length (A @ segb)) + 1 else int (length (A @ segb)) + 1 + int (length segx + 1)) regs1"
    using code g1(2) small(1) by (intro goes_unless [where rest = "segx @ ?K # segy @ rest"]) simp_all
  let ?B = "A @ segb @ [?J]"
  have "\<exists>regs'. goes chunks main vm S (int (length (A @ segb))) regs1 (int (length (A @ seg))) regs' \<and> regs' (unat rd) = Some v
    \<and> (\<forall>k < lim c. regs' k = regs1 k)"
  proof (cases "reg_nanbox_is_truthy p")
    case True
    then have ex: "eval env S x = Some v" using p(2) by simp
    have "ch_code (f_chunk (cur_frame vm)) = ?B @ segx @ ?K # segy @ rest" using code by simp
    then obtain regs2 where g3: "goes chunks main vm S (int (length ?B)) regs1 (int (length (?B @ segx))) regs2"
      "regs2 (unat rd) = Some v" "\<forall>k < lim c4. k \<noteq> unat rd \<longrightarrow> regs2 k = regs1 k"
      by (rule armD [OF x kn(2) _ hv(1) ex])
    have g4: "goes chunks main vm S (int (length (?B @ segx))) regs2 (int (length (?B @ segx)) + 1 + int (length segy)) regs2"
      using code small(2) by (intro goes_jmp [where rest = "segy @ rest"]) simp_all
    have pc: "int (length (A @ segb)) + 1 = int (length ?B)" "int (length (?B @ segx)) + 1 + int (length segy) = int (length (A @ seg))"
      using seg by simp_all
    have "goes chunks main vm S (int (length (A @ segb))) regs1 (int (length ?B)) regs1"
      using g2 True by (simp only: pc(1) if_True)
    from goes_trans [OF goes_trans [OF this g3(1)] g4]
    have "goes chunks main vm S (int (length (A @ segb))) regs1 (int (length (A @ seg))) regs2" by (simp only: pc(2))
    then show ?thesis using g3(2,3) rd by auto
  next
    case False
    then have ey: "eval env S y = Some v" using p(2) by simp
    let ?C = "?B @ segx @ [?K]"
    have "ch_code (f_chunk (cur_frame vm)) = ?C @ segy @ rest" using code by simp
    then obtain regs2 where g3: "goes chunks main vm S (int (length ?C)) regs1 (int (length (?C @ segy))) regs2"
      "regs2 (unat rd) = Some v" "\<forall>k < lim c9. k \<noteq> unat rd \<longrightarrow> regs2 k = regs1 k"
      by (rule armD [OF y kn(3) _ hv(2) ey])
    have pc: "int (length (A @ segb)) + 1 + int (length segx + 1) = int (length ?C)" "?C @ segy = A @ seg" using seg by simp_all
    have "goes chunks main vm S (int (length (A @ segb))) regs1 (int (length ?C)) regs1"
      using g2 False by (simp only: pc(1) if_False)
    from goes_trans [OF this g3(1)]
    have "goes chunks main vm S (int (length (A @ segb))) regs1 (int (length (A @ seg))) regs2" by (simp only: pc(2))
    then show ?thesis using g3(2,3) rd by auto
  qed
  then obtain regs' where g5: "goes chunks main vm S (int (length (A @ segb))) regs1 (int (length (A @ seg))) regs'"
    "regs' (unat rd) = Some v" "\<forall>k < lim c. regs' k = regs1 k" by blast
  from goes_trans [OF g1(1) g5(1)] g5(2,3) g1(3)
  show "\<exists>regs'. goes chunks main vm S (int (length A)) regs (int (length (A @ seg))) regs' \<and> regs' (unat rd) = Some v
      \<and> (\<forall>k<lim c. regs' k = regs k)" by (intro exI [of _ regs']) simp
qed

lemma emit_jump_adds:
  assumes "mem_ok (rc_store c)"
  obtains c' where "emit_jump opc r l c = Some (code_size c, c')"
    "adds c c' [with_offset (reg_instr opc r 0 0) 0] []" "rc_alloc c' = rc_alloc c"
  using emit_adds [OF assms, of "reg_instr_cond_jump opc r 0" l] that
  by (auto simp: emit_jump_def instr_with_offset)

lemma with_offset_twice [simp]: "with_offset (with_offset i v) w = with_offset i w"
  by (simp add: with_offset_def)

abbreviation jump_unless :: "u8 \<Rightarrow> u16 \<Rightarrow> RegInstr" where
  "jump_unless r \<equiv> with_offset (reg_instr ROP_JMP_UNLESS r 0 0)"

abbreviation jump_always :: "u16 \<Rightarrow> RegInstr" where
  "jump_always \<equiv> with_offset (reg_instr ROP_JMP 0 0 0)"

lemma ready_lim: "ready V n c \<Longrightarrow> 0 < n \<Longrightarrow> lim c < 255" by (simp add: ready_def)

lemma ready_patch [simp]: "ready V n (patch_jump off c) = ready V n c"
  by (simp add: ready_def declared_def local_of_def lim_def base_def patch_jump_def Let_def)

lemma lim_patch [simp]: "lim (patch_jump off c) = lim c"
  by (simp add: lim_def patch_jump_def Let_def)

lemma ready_same: "ready V n c \<Longrightarrow> adds c c' seg [] \<Longrightarrow> lim c' \<le> lim c \<Longrightarrow> ready V n c'"
  using ready_adds [of V 0 n c c' seg "[]"] by simp

text \<open>The condition of a conditional, its jump, and the register of the result.\<close>

lemma ternary_test:
  assumes ready: "ready V (Suc (regs_needed b + n)) c" and b: "compiled V b c r0 c1 segb ksb"
  obtains c2 rd c4 where "emit_jump ROP_JMP_UNLESS r0 l c1 = Some (code_size c1, c2)" "new_result (release_temp r0 c2) = (rd, c4)"
    "adds c1 c4 [jump_unless r0 0] []" "lim c \<le> unat rd" "lim c4 = Suc (unat rd)" "unat rd \<le> lim c1" "ready V n c4"
proof -
  note B = b [unfolded compiled_def]
  have a1: "adds c c1 segb ksb" using B by blast
  have q1: "ready V (Suc n) c1" using ready_adds [OF _ a1, of V "regs_needed b" "Suc n"] ready B by simp
  then have m1: "mem_ok (rc_store c1)" by (simp add: ready_def)
  obtain c2 where c2: "emit_jump ROP_JMP_UNLESS r0 l c1 = Some (code_size c1, c2)" "adds c1 c2 [jump_unless r0 0] []" "rc_alloc c2 = rc_alloc c1"
    by (rule emit_jump_adds [OF m1])
  let ?c3 = "release_temp r0 c2"
  have a3: "adds c1 ?c3 [jump_unless r0 0] []" using adds_trans [OF c2(2) release_temp_ok(1) [where r = r0]] by simp
  have "base c2 = base c" using adds_base a1 c2(2) by metis
  then have l3: "lim c \<le> lim ?c3" "lim ?c3 \<le> lim c1"
    using release_bounds [of r0 c2 "lim c"] B lim_alloc [OF c2(3)] by auto
  have q3: "ready V (1 + n) ?c3" using ready_same [OF q1 a3 l3(2)] by simp
  then have l: "lim ?c3 < 255" using ready_lim by simp
  obtain rd c4 where c4: "new_result ?c3 = (rd, c4)" "unat rd = lim ?c3" "lim c4 = Suc (lim ?c3)" "adds ?c3 c4 [] []"
    by (rule new_result_ok [OF l])
  show ?thesis
    using that [OF c2(1) c4(1)] adds_trans [OF a3 c4(4)] l3 c4(2,3) ready_adds [OF q3 c4(4)] by simp
qed

lemma compiled_ternary:
  assumes ready: "ready V (Suc (regs_needed b + regs_needed x + regs_needed y)) c"
    and IHb: "\<And>c. ready V (regs_needed b) c \<Longrightarrow> \<exists>r c' seg ks. compiled V b c r c' seg ks"
    and IHx: "\<And>c. ready V (regs_needed x) c \<Longrightarrow> \<exists>r c' seg ks. compiled V x c r c' seg ks"
    and IHy: "\<And>c. ready V (regs_needed y) c \<Longrightarrow> \<exists>r c' seg ks. compiled V y c r c' seg ks"
  shows "\<exists>r c' seg ks. compiled V (NODE_TERNARY l b x y) c r c' seg ks"
proof -
  have decl: "declared V c" and few: "Suc (regs_needed b + regs_needed x + regs_needed y) \<le> 255"
    using ready by (auto simp: ready_def)
  obtain r0 c1 segb ksb where b: "compiled V b c r0 c1 segb ksb" using IHb ready_mono [OF ready] by force
  have B: "compile_expr b c = Some (r0, c1)" "adds c c1 segb ksb" "lim c1 \<le> lim c + regs_needed b"
    "length segb \<le> 4 * regs_needed b" "length ksb \<le> regs_needed b"
    using b by (auto simp: compiled_def)
  have "ready V (Suc (regs_needed b + (regs_needed x + regs_needed y))) c" using ready by (simp add: add.assoc)
  then obtain c2 rd c4 where c4: "emit_jump ROP_JMP_UNLESS r0 l c1 = Some (code_size c1, c2)"
    "new_result (release_temp r0 c2) = (rd, c4)" "adds c1 c4 [jump_unless r0 0] []"
    and l4: "lim c \<le> unat rd" "lim c4 = Suc (unat rd)" "unat rd \<le> lim c1" and q4: "ready V (regs_needed x + regs_needed y) c4"
    by (rule ternary_test [OF _ b, of _ l])
  have "ready V (regs_needed x) c4" by (rule ready_mono [OF q4]) simp
  then obtain rx c5 segx ksx where x: "compiled V x c4 rx c5 segx ksx" using IHx by blast
  have m5: "mem_ok (rc_store c5)" using q4 x by (auto simp: ready_def compiled_def adds_def intro: grows_mem_ok)
  let ?sx = "segx @ [reg_instr ROP_MOV rd rx 0]"
  obtain c6 where c6: "emit_op ROP_MOV rd rx 0 l c5 = Some c6" "arm V x rd c4 (release_temp rx c6) ?sx ksx"
    by (rule arm_compiled [OF x m5, of rd l])
  let ?c7 = "release_temp rx c6"
  have X: "adds c4 ?c7 ?sx ksx" "lim c4 \<le> lim ?c7" "lim ?c7 \<le> lim c4 + regs_needed x"
    "length ?sx \<le> 4 * regs_needed x + 1" "length ksx \<le> regs_needed x"
    using c6(2) unfolding arm_def by blast+
  have q7: "ready V (regs_needed y) ?c7" by (rule ready_adds [OF q4 X(1,3,5)])
  then have m7: "mem_ok (rc_store ?c7)" by (simp add: ready_def)
  obtain c8 where c8: "emit_jump ROP_JMP 0 l ?c7 = Some (code_size ?c7, c8)" "adds ?c7 c8 [jump_always 0] []" "rc_alloc c8 = rc_alloc ?c7"
    by (rule emit_jump_adds [OF m7])
  have a8: "adds c c8 (segb @ [jump_unless r0 0] @ ?sx @ [jump_always 0]) (ksb @ ksx)"
    using adds_trans [OF B(2) adds_trans [OF c4(3) adds_trans [OF X(1) c8(2)]]] by simp
  let ?c9 = "patch_jump (code_size c1) c8"
  have a9: "adds c ?c9 (segb @ [jump_unless r0 (of_nat (length ?sx + 1))] @ ?sx @ [jump_always 0]) (ksb @ ksx)"
    using patch_jump_adds(1) [OF a8, of "code_size c1"] B(2) by (simp add: adds_def code_size_def)
  have l9: "lim ?c9 = lim ?c7" using lim_alloc [OF c8(3)] by simp
  have q9: "ready V (regs_needed y) ?c9" using ready_same [OF q7 c8(2)] lim_alloc [OF c8(3)] by simp
  obtain ry c10 segy ksy where y: "compiled V y ?c9 ry c10 segy ksy" using IHy [OF q9] by blast
  have q10: "mem_ok (rc_store c10)" using q9 y by (auto simp: ready_def compiled_def adds_def intro: grows_mem_ok)
  let ?sy = "segy @ [reg_instr ROP_MOV rd ry 0]"
  obtain c11 where c11: "emit_op ROP_MOV rd ry 0 l c10 = Some c11" "arm V y rd ?c9 (release_temp ry c11) ?sy ksy"
    by (rule arm_compiled [OF y q10, of rd l])
  let ?c12 = "release_temp ry c11"
  have Y: "adds ?c9 ?c12 ?sy ksy" "lim ?c9 \<le> lim ?c12" "lim ?c12 \<le> lim ?c9 + regs_needed y"
    "length ?sy \<le> 4 * regs_needed y + 1" "length ksy \<le> regs_needed y"
    using c11(2) unfolding arm_def by blast+
  let ?s1 = "segb @ [jump_unless r0 (of_nat (length ?sx + 1))] @ ?sx"
  have a12: "adds c ?c12 (?s1 @ [jump_always 0] @ ?sy) (ksb @ ksx @ ksy)"
    using adds_trans [OF a9 Y(1)] by simp
  have s7: "code_size ?c7 = length (ch_code (rc_chunk c)) + length ?s1" 
    using B(2) c4(3) X(1) by (simp add: adds_def code_size_def)
  let ?c13 = "patch_jump (code_size ?c7) ?c12" and ?seg = "?s1 @ [jump_always (of_nat (length ?sy))] @ ?sy"
  have a13: "adds c ?c13 ?seg (ksb @ ksx @ ksy)" using patch_jump_adds(1) [OF a12 s7] by (simp only: with_offset_twice)
  have "compile_expr (NODE_TERNARY l b x y) c = Some (rd, ?c13)"
    using B(1) x y c4(1,2) c6(1) c8(1) c11(1) by (simp add: compile_ternary_def compiled_def)
  moreover have "runs_to V (NODE_TERNARY l b x y) c rd ?c13 ?seg"
  proof (rule ternary_runs [OF b c6(2) c11(2)])
    show "adds c c4 (segb @ [jump_unless r0 0]) ksb" using adds_trans [OF B(2) c4(3)] by simp
    show "adds c ?c9 (?s1 @ [jump_always 0]) (ksb @ ksx)" using a9 by simp
    show "knows c1 main S \<and> knows ?c7 main S" if "knows ?c12 main S" for main S
    proof -
      have "knows c8 main S" using knows_adds [OF Y(1) that] by simp
      then have "knows ?c7 main S" by (rule knows_adds [OF c8(2)])
      moreover from this have "knows c4 main S" by (rule knows_adds [OF X(1)])
      ultimately show ?thesis using knows_adds [OF c4(3)] by blast
    qed
  qed (use few X(2-5) Y(2-5) l4 l9 decl in simp_all)
  ultimately have "compiled V (NODE_TERNARY l b x y) c rd ?c13 ?seg (ksb @ ksx @ ksy)"
    using B X(2-5) Y(2-5) a13 l9 l4 unfolding compiled_def by simp
  then show ?thesis by blast
qed

lemma scalar_compiled:
  "scalar V e \<Longrightarrow> ready V (regs_needed e) c \<Longrightarrow> \<exists>r c' seg ks. compiled V e c r c' seg ks"
proof (induction arbitrary: c rule: scalar.induct)
  case scalar_null
  then show ?case
    by (intro compiled_load [of V c NODE_NULL "NANBOX_NIL" "\<lambda>rd. reg_instr ROP_LOAD_NIL rd 0 0" 0])
      (auto simp: compile_nil_def emit_op_def map_option_case reg_exec_def reg_instr_def load_reg_def split: prod.splits option.splits bind_splits)
next
  case (scalar_nil l)
  then show ?case
    by (intro compiled_load [of V c "NODE_NIL l" "NANBOX_NIL" "\<lambda>rd. reg_instr ROP_LOAD_NIL rd 0 0" l])
      (auto simp: compile_nil_def emit_op_def map_option_case reg_exec_def reg_instr_def load_reg_def split: prod.splits option.splits bind_splits)
next
  case (scalar_bool l b)
  then show ?case
    by (intro compiled_load [of V c "NODE_BOOL l b" "nanbox_bool b" "\<lambda>rd. reg_instr (if b then ROP_LOAD_TRUE else ROP_LOAD_FALSE) rd 0 0" l])
      (auto simp: compile_bool_def emit_op_def map_option_case reg_exec_def reg_instr_def load_reg_def nanbox_bool_def split: prod.splits option.splits bind_splits)
next
  case (scalar_int l i)
  then show ?case using compiled_int by simp
next
  case (scalar_float l d)
  then show ?case
    by (intro compiled_const [of V c "NODE_FLOAT l d" "nanbox_double d" "VFloat d" l])
      (auto simp: compile_float_def literal_constructs split: prod.splits bind_splits)
next
  case (scalar_ident x l)
  then show ?case using compiled_ident by simp
next
  case (scalar_unary t x l)
  moreover from this obtain r c1 seg ks where "compiled V x c r c1 seg ks" using ready_mono by (metis le_SucI order_refl regs_needed.simps(2))
  ultimately show ?case using compiled_unary by simp
next
  case (scalar_binary t opc x y l)
  have "ready V (regs_needed x) c" by (rule ready_mono [OF scalar_binary.prems]) simp
  then obtain r c1 seg ks where x: "compiled V x c r c1 seg ks" using scalar_binary.IH(1) by blast
  have "ready V (regs_needed x + regs_needed y) c" by (rule ready_mono [OF scalar_binary.prems]) simp
  then have "ready V (regs_needed y) c1" by (rule ready_adds) (use x in \<open>auto simp: compiled_def\<close>)
  then obtain r2 c2 seg2 ks2 where "compiled V y c1 r2 c2 seg2 ks2" using scalar_binary.IH(2) by blast
  then show ?case using compiled_binary [OF scalar_binary.hyps(1) _ x] scalar_binary.prems by simp
next
  case (scalar_ternary b x y l)
  then show ?case using compiled_ternary [of V b x y c l] by simp
qed

subsection \<open>Whole expressions\<close>

lemma regchunk_new_ok:
  assumes "mem_ok s"
  obtains chunk s1 where "regchunk_new s = Some (Some chunk, s1)" "mem_ok s1" "ch_code chunk = []" "ch_constants chunk = []"
  using assms that
  by (auto simp: regchunk_new_def agim_alloc_ok Let_def numeral_eq_Suc mem_ok_def)

lemma ready_start:
  "mem_ok s \<Longrightarrow> ch_constants chunk = [] \<Longrightarrow> n \<le> 255 \<Longrightarrow> ready {} n (start chunk s)"
  by (simp add: ready_def start_def declared_def lim_def regalloc_reset_def)

lemma regvm_new_ok:
  assumes "mem_ok s"
  obtains vm s' where "regvm_new s = Some (vm, s')" "grows s s'" "rv_frame_count vm = 0"
proof -
  let ?s = "s\<lparr>allocs := Suc (allocs s)\<rparr>"
  obtain a s' where "value_map ?s = (Some a, s')" "grows ?s s'"
    using assms by (simp add: value_map_def value_map_with_capacity_def construct_def numeral_eq_Suc agim_alloc_ok new_cell_def grows_def)
  moreover from this have "grows s s'" by (auto simp: grows_def)
  ultimately show ?thesis using that assms by (simp add: regvm_new_def agim_alloc_ok)
qed

lemma run_ret:
  assumes "ch_code (f_chunk (cur_frame vm)) = A @ [reg_instr ROP_RET 0 0 0]" "regs 0 = Some v" "rv_frame_count vm = 1"
  shows "run_loop chunks main (at vm (int (length A)) regs) S
    = Some (REGVM_OK, (at vm (int (length A) + 1) regs)\<lparr>rv_frame_count := 0\<rparr>, S)"
  using assms by (subst run_loop.simps) (simp add: reg_step_def reg_exec_def reg_instr_def op_ret_def)

lemma expr_tail:
  assumes "mem_ok (rc_store c)"
  obtains c1 c2 seg where "(if r \<noteq> 0 then emit_op ROP_MOV 0 r 0 l c else Some c) = Some c1"
    "emit_op ROP_RET 0 0 0 l c1 = Some c2" "adds c c2 (seg @ [reg_instr ROP_RET 0 0 0]) []"
    "\<And>chunks main vm S regs v A rest. ch_code (f_chunk (cur_frame vm)) = A @ seg @ rest \<Longrightarrow> regs (unat r) = Some v \<Longrightarrow>
       goes chunks main vm S (int (length A)) regs (int (length (A @ seg))) (regs(0 \<mapsto> v))"
proof (cases "r = 0")
  case True
  obtain c2 where c2: "emit (reg_instr ROP_RET 0 0 0) l c = Some c2" "adds c c2 [reg_instr ROP_RET 0 0 0] []"
    using emit_adds [OF assms] by blast
  have "goes chunks main vm S (int (length A)) regs (int (length A)) (regs(0 \<mapsto> v))" if "regs (unat r) = Some v"
    for chunks main vm S regs v and A :: "RegInstr list"
    using that True goes_refl by (metis fun_upd_triv unsigned_0)
  then show ?thesis using that [of c c2 "[]"] True c2 by (simp add: emit_op_def)
next
  case False
  let ?i = "reg_instr ROP_MOV 0 r 0"
  obtain c1 where c1: "emit ?i l c = Some c1" "adds c c1 [?i] []" using emit_adds [OF assms] by blast
  then have "mem_ok (rc_store c1)" using assms by (auto simp: adds_def intro: grows_mem_ok)
  then obtain c2 where c2: "emit (reg_instr ROP_RET 0 0 0) l c1 = Some c2" "adds c1 c2 [reg_instr ROP_RET 0 0 0] []"
    using emit_adds by blast
  have "goes chunks main vm S (int (length A)) regs (int (length (A @ [?i]))) (regs(0 \<mapsto> v))"
    if "ch_code (f_chunk (cur_frame vm)) = A @ [?i] @ rest" "regs (unat r) = Some v" for chunks main vm S regs v A rest
  proof -
    have "goes chunks main vm S (int (length A)) regs (int (length A) + 1) (regs(0 \<mapsto> v))"
      using that exec_mov [of regs r v _ _ 0] by (intro goes_at) simp_all
    then show ?thesis by (simp add: add.commute)
  qed
  then show ?thesis using that [of c1 c2 "[?i]"] False c1 c2 adds_trans [OF c1(2) c2(2)] by (simp add: emit_op_def)
qed

text \<open>C3: an expression made of literals, operators and conditionals that needs at most 255 registers is compiled
  without error, and the code runs to its end: the machine stops with \<open>REGVM_OK\<close>, its frame popped, and
  register 0 of that frame holds the value the expression evaluates to, whenever it has one.\<close>

theorem regcompile_expr_correct:
  assumes "scalar {} e" "e \<noteq> NODE_NULL" "regs_needed e \<le> 255" "\<forall>k. \<not> oom s k"
  shows "\<exists>chunk s1 vm s2. regcompile_expr e s = Some (Some chunk, s1) \<and> regvm_new s1 = Some (vm, s2) \<and>
    (\<forall>chunks v. eval Map.empty s2 e = Some v \<longrightarrow>
       (\<exists>vm'. regvm_run chunks vm chunk s2 = Some (REGVM_OK, vm', s2) \<and>
          rv_frame_count vm' = 0 \<and> f_regs (rv_frames vm' 0) 0 = Some v))"
proof -
  have "mem_ok s" using assms(4) by (simp add: mem_ok_def)
  then obtain ch s0 where n: "regchunk_new s = Some (Some ch, s0)" "mem_ok s0" "ch_code ch = []" "ch_constants ch = []"
    by (rule regchunk_new_ok)
  let ?c = "start ch s0"
  obtain r c seg ks where c: "compiled {} e ?c r c seg ks"
    using scalar_compiled [OF assms(1) ready_start [OF n(2,4) assms(3)]] by blast
  then have a: "adds ?c c seg ks" by (simp add: compiled_def)
  then have m: "mem_ok (rc_store c)" using n(2) by (auto simp: adds_def start_def intro: grows_mem_ok)
  obtain c1 c2 tl where t: "(if r \<noteq> 0 then emit_op ROP_MOV 0 r 0 (ast_line e) c else Some c) = Some c1"
    "emit_op ROP_RET 0 0 0 (ast_line e) c1 = Some c2" "adds c c2 (tl @ [reg_instr ROP_RET 0 0 0]) []"
    and mv: "\<And>chunks main vm S regs v A rest. ch_code (f_chunk (cur_frame vm)) = A @ tl @ rest \<Longrightarrow> regs (unat r) = Some v \<Longrightarrow>
       goes chunks main vm S (int (length A)) regs (int (length (A @ tl))) (regs(0 \<mapsto> v))"
    using expr_tail [OF m, of r "ast_line e"] by blast
  let ?ch = "(rc_chunk c2)\<lparr>ch_num_regs := regalloc_count (rc_alloc c2)\<rparr>"
  have "\<not> rc_had_error c2" using a t(3) by (simp add: adds_def start_def)
  then have comp: "regcompile_expr e s = Some (Some ?ch, rc_store c2)"
    using n(1) c t(1,2) assms(2) by (simp add: regcompile_expr_def compiled_def finish_def Let_def)
  have "mem_ok (rc_store c2)" using m t(3) by (auto simp: adds_def intro: grows_mem_ok)
  then obtain vm s2 where vm: "regvm_new (rc_store c2) = Some (vm, s2)" "grows (rc_store c2) s2" "rv_frame_count vm = 0"
    by (rule regvm_new_ok)
  let ?vm = "enter_frame ?ch 0 vm"
  let ?regs = "f_regs (cur_frame ?vm)"
  have frame: "f_chunk (cur_frame ?vm) = ?ch" "f_ip (cur_frame ?vm) = 0" "rv_frame_count ?vm = 1"
    using vm(3) by (simp_all add: enter_frame_def cur_frame_def Let_def)
  have code: "ch_code (f_chunk (cur_frame ?vm)) = seg @ tl @ [reg_instr ROP_RET 0 0 0]"
    using frame(1) a t(3) n(3) by (simp add: adds_def start_def)
  have "\<exists>vm'. regvm_run chunks vm ?ch s2 = Some (REGVM_OK, vm', s2) \<and> rv_frame_count vm' = 0 \<and> f_regs (rv_frames vm' 0) 0 = Some v"
    if ev: "eval Map.empty s2 e = Some v" for chunks v
  proof -
    have k: "knows c2 ?ch s2" using vm(2) by (simp add: knows_def)
    have hv: "holds_vars {} Map.empty ?c ?regs" by (simp add: holds_vars_def)
    have "ch_code (f_chunk (cur_frame ?vm)) = [] @ seg @ tl @ [reg_instr ROP_RET 0 0 0]" using code by simp
    then obtain regs1 where r1: "goes chunks ?ch ?vm s2 (int (length ([] :: RegInstr list))) ?regs (int (length ([] @ seg))) regs1" "regs1 (unat r) = Some v"
      by (rule runs_toD [OF c knows_adds [OF t(3) k] _ hv ev])
    have g: "goes chunks ?ch ?vm s2 (int (length seg)) regs1 (int (length (seg @ tl))) (regs1(0 \<mapsto> v))"
      by (rule mv [where regs = regs1, OF code r1(2)])
    have "run_loop chunks ?ch ?vm s2 = run_loop chunks ?ch (at ?vm (int (length (seg @ tl))) (regs1(0 \<mapsto> v))) s2"
      using goes_trans [OF _ g] r1(1) at_self [of ?vm] frame(2) by (simp add: goes_def)
    also have "\<dots> = Some (REGVM_OK, (at ?vm (int (length (seg @ tl)) + 1) (regs1(0 \<mapsto> v)))\<lparr>rv_frame_count := 0\<rparr>, s2)"
      using code frame(3) by (intro run_ret) simp_all
    finally show ?thesis using vm(3) by (simp add: regvm_run_def REG_MAX_FRAMES_def at_def set_frame_def frame(3))
  qed
  then show ?thesis using comp vm(1) by blast
qed

definition sample_expr :: AstNode where
  "sample_expr = NODE_TERNARY 1 (NODE_BINARY 1 TOK_LT (NODE_INT 1 1) (NODE_INT 1 2))
     (NODE_BINARY 1 TOK_PLUS (NODE_INT 1 3) (NODE_UNARY 1 TOK_MINUS (NODE_INT 1 40000))) (NODE_NIL 1)"

lemma sample_scalar: "scalar V sample_expr"
  unfolding sample_expr_def by (intro scalar.intros) (auto simp: binary_rop_def)

lemma sample_eval: "eval Map.empty s sample_expr = Some (nanbox_int (- 39997))"
  unfolding sample_expr_def
  by (simp add: eval_binary_def eval_unary_def nanbox_lt_def compare_boxed_def nanbox_add_def nanbox_neg_def arith_def
      nanbox_is_int_def nanbox_int_def as_int_def nanbox_as_int_def int64_def nanbox_bool_def reg_nanbox_is_truthy_def
      nanbox_is_nil_def nanbox_is_bool_def nanbox_as_bool_def NANBOX_TAG_INT_def NANBOX_PAYLOAD_def NANBOX_TAG_MASK_def
      NANBOX_TAG_SPECIAL_def NANBOX_NIL_def NANBOX_TRUE_def NANBOX_FALSE_def Let_def)

theorem regcompile_expr_correct_witness:
  "\<exists>chunk s1 vm s2. regcompile_expr sample_expr (store_of []) = Some (Some chunk, s1) \<and> regvm_new s1 = Some (vm, s2) \<and>
    (\<forall>chunks. \<exists>vm'. regvm_run chunks vm chunk s2 = Some (REGVM_OK, vm', s2) \<and>
       rv_frame_count vm' = 0 \<and> f_regs (rv_frames vm' 0) 0 = Some (nanbox_int (- 39997)))"
  using regcompile_expr_correct [OF sample_scalar, of "store_of []"] sample_eval
  by (simp add: sample_expr_def store_of_def)

subsection \<open>Loops\<close>

lemma emit_code: "emit i l c = Some c' \<Longrightarrow> ch_code (rc_chunk c') = ch_code (rc_chunk c) @ [i]"
  by (auto simp: emit_def regchunk_write_def Let_def split: bind_splits prod.splits if_splits)

lemma back_offset:
  assumes "0 < n" "n \<le> 0x10000"
  shows "sint (reg_get_offset (reg_instr_cond_jump ROP_JMP 0 (of_int (- int n)))) = 0x10000 - int n"
proof -
  have "sint (reg_get_offset (reg_instr_cond_jump ROP_JMP 0 (of_int (- int n)))) = int (unat (of_int (- int n) :: u16))"
    using get_offset_unsigned [of "reg_instr ROP_JMP 0 0 0"] by (simp add: instr_with_offset reg_instr_def)
  also have "\<dots> = (- int n) mod 0x10000" by (simp only: int_nat_eq uint_nat [symmetric] unsigned_of_int take_bit_eq_mod) simp
  also have "\<dots> = (- int n + 0x10000) mod 0x10000" by simp
  also have "\<dots> = 0x10000 - int n" using assms by (subst mod_pos_pos_trivial) simp_all
  finally show ?thesis .
qed

text \<open>C15: the jump that closes a compiled \<^verbatim>\<open>while\<close> loop does not go back.  It is emitted as a conditional jump
  with a negative 16-bit offset, and \<open>ROP_JMP\<close> reads a 24-bit offset whose high byte is the zero register operand: the
  machine continues \<open>65536\<close> instructions after the start of the loop.\<close>

theorem while_jumps_forward:
  assumes "compile_while l e body c = Some c'"
    and "compile_expr e c = Some (r, c1)" "prefix (ch_code (rc_chunk c)) (ch_code (rc_chunk c1))"
    and "\<And>c1 c2. body c1 = Some c2 \<Longrightarrow> prefix (ch_code (rc_chunk c1)) (ch_code (rc_chunk c2))"
    and "code_size c' \<le> code_size c + 0x10000"
    and "ch_code (f_chunk (cur_frame vm)) = ch_code (rc_chunk c') @ rest" "f_ip (cur_frame vm) = int (code_size c') - 1"
  shows "reg_step chunks main vm S = Some (Running (at vm (int (code_size c) + 0x10000) (f_regs (cur_frame vm))) S)"
proof -
  obtain c2 c3 c4 where c: "emit (reg_instr_cond_jump ROP_JMP_UNLESS r 0) l c1 = Some c2" "body (release_temp r c2) = Some c3"
    "emit (reg_instr_cond_jump ROP_JMP 0 (of_int (int (code_size c) - int (code_size c3) - 1))) l c3 = Some c4"
    "c' = patch_jump (code_size c1) c4"
    using assms(1,2) by (auto simp: compile_while_def emit_jump_def Let_def split: bind_splits)
  let ?n = "code_size c3 + 1 - code_size c"
  let ?i = "reg_instr_cond_jump ROP_JMP 0 (of_int (- int ?n))"
  have le: "code_size c \<le> code_size c1" "Suc (code_size c1) \<le> code_size c3"
    using assms(3) prefix_length_le [OF assms(4) [OF c(2)]] emit_code [OF c(1)] release_temp_ok(1) [where r = r and c = c2]
    by (auto simp: code_size_def adds_def prefix_length_le)
  then have off: "int (code_size c) - int (code_size c3) - 1 = - int ?n" by simp
  obtain x where "ch_code (rc_chunk c') = (ch_code (rc_chunk c4))[code_size c1 := x]"
    by (simp add: c(4) patch_jump_def Let_def)
  moreover have "ch_code (rc_chunk c4) = ch_code (rc_chunk c3) @ [?i]" using emit_code [OF c(3)] by (simp only: off)
  moreover have "code_size c1 < length (ch_code (rc_chunk c3))" using le(2) by (simp add: code_size_def)
  ultimately obtain A where A: "ch_code (rc_chunk c') = A @ [?i]" "length A = code_size c3"
    by (simp add: list_update_append1 code_size_def)
  have size: "code_size c' = Suc (code_size c3)" using A by (simp add: code_size_def)
  have "sint (reg_get_offset ?i) = 0x10000 - int ?n" using assms(5) size le by (intro back_offset) auto
  moreover have "i_op ?i = ROP_JMP" by (simp add: instr_with_offset reg_instr_def)
  ultimately have "reg_exec chunks main ?i (at vm (int (code_size c')) (f_regs (cur_frame vm))) S
      = Some (Running (at vm (int (code_size c') + (0x10000 - int ?n)) (f_regs (cur_frame vm))) S)"
    by (simp add: reg_exec_def)
  moreover have "jump_by 1 vm = at vm (int (code_size c')) (f_regs (cur_frame vm))"
    using assms(7) at_self [of vm] at_simps(6) by (metis diff_add_cancel)
  moreover have "int (code_size c') + (0x10000 - int ?n) = int (code_size c) + 0x10000" using size le by simp
  moreover have "(ch_code (rc_chunk c') @ rest) ! code_size c3 = ?i" using A by (simp add: nth_append)
  ultimately show ?thesis using assms(6,7) size by (simp add: reg_step_def Let_def code_size_def add.commute)
qed

definition sample_loop :: "RegCompiler option" where
  "sample_loop = compile_while 1 (NODE_BOOL 1 True) (compile_expr_stmt (NODE_NIL 2)) (start no_chunk (store_of []))"

lemma sample_loop_code:
  obtains c' c1 where "sample_loop = Some c'" "code_size c' = 4"
    "compile_expr (NODE_BOOL 1 True) (start no_chunk (store_of [])) = Some (0, c1)"
  by (simp add: sample_loop_def compile_while_def compile_bool_def compile_nil_def compile_expr_stmt_def start_def no_chunk_def
      store_of_def emit_jump_def emit_op_def emit_def regchunk_write_def agim_alloc_def new_result_def regalloc_new_result_def
      regalloc_temp_def regalloc_reset_def REG_MAX_def release_temp_def free_temp_def free_temp_nat regalloc_is_temp_def
      code_size_def patch_jump_def Let_def)

lemma nil_stmt_code: "compile_expr_stmt (NODE_NIL l) c1 = Some c2 \<Longrightarrow> prefix (ch_code (rc_chunk c1)) (ch_code (rc_chunk c2))"
  by (auto simp: compile_expr_stmt_def compile_nil_def emit_op_def new_result_def Let_def release_temp_def free_temp_def
      dest!: emit_code split: bind_splits prod.splits)

lemma that_frame: "\<exists>vm. f_chunk (cur_frame vm) = ch \<and> f_ip (cur_frame vm) = ip"
  by (intro exI [of _ "set_frame (no_frame\<lparr>f_chunk := ch, f_ip := ip\<rparr>) vm" for vm]) simp

theorem while_jumps_forward_witness:
  "\<exists>c' vm. sample_loop = Some c' \<and> ch_code (f_chunk (cur_frame vm)) = ch_code (rc_chunk c') \<and>
     f_ip (cur_frame vm) = int (code_size c') - 1 \<and>
     (\<forall>chunks main S. reg_step chunks main vm S = Some (Running (at vm 0x10000 (f_regs (cur_frame vm))) S) \<and>
        reg_step chunks main (at vm 0x10000 (f_regs (cur_frame vm))) S = None)"
proof -
  obtain c' c1 where c': "sample_loop = Some c'" "code_size c' = 4"
    "compile_expr (NODE_BOOL 1 True) (start no_chunk (store_of [])) = Some (0, c1)" by (rule sample_loop_code)
  obtain vm where vm: "f_chunk (cur_frame vm) = rc_chunk c'" "f_ip (cur_frame vm) = 3"
    using that_frame [of "rc_chunk c'" 3] by blast
  have "reg_step chunks main vm S = Some (Running (at vm (int (code_size (start no_chunk (store_of []))) + 0x10000) (f_regs (cur_frame vm))) S)"
    for chunks main S
    using c' vm by (intro while_jumps_forward [OF c'(1) [unfolded sample_loop_def] c'(3) _ nil_stmt_code, where rest = "[]"])
      (simp_all add: start_def no_chunk_def code_size_def)
  moreover have "reg_step chunks main (at vm 0x10000 (f_regs (cur_frame vm))) S = None" for chunks main S
    using vm c'(2) by (simp add: reg_step_def code_size_def)
  ultimately show ?thesis using c'(1,2) vm by (intro exI [of _ c'] exI [of _ vm]) (simp add: start_def no_chunk_def code_size_def)
qed

end
