(* ===== verification/Mailbox.thy ===== *)
theory Mailbox
  imports Cow
begin

text \<open>
  The lock-free mailbox of \<^verbatim>\<open>runtime/mailbox.c\<close>: a linked queue with many producers and one
  consumer. Messages are named by numbers, the stub node of the mailbox is a node of its own, and
  \<open>mb_next\<close> holds the \<^verbatim>\<open>next\<close> pointers. A push is three atomic steps (exchange the tail, link the
  predecessor, count); a pop is the small program \<open>pop_step\<close> between whose steps producers may
  run. A step of the consumer is a load or exchange that producers interfere with, together with
  the accesses up to the next one of these: \<open>take_head\<close> joins the store of the head, the decrement
  of the count and the reset of the taken node's link to the load of that link, and the stub's link
  is reset in the step that exchanges the tail. No producer reads the head, and none writes the
  link of a node that has a successor or of the stub while it is outside the queue, so these
  accesses commute with the steps of producers, but for the decrement of the count, which a producer
  that checks a limit may in the source see a little later.
  Counters of type \<^verbatim>\<open>size_t\<close> are words and wrap.
\<close>

subsection \<open>Data\<close>

datatype OverflowPolicy = OVERFLOW_DROP_NEW | OVERFLOW_DROP_OLD | OVERFLOW_BLOCK_SENDER | OVERFLOW_CRASH

datatype SendResult = SEND_OK | SEND_FULL | SEND_WOULD_BLOCK | SEND_DEAD | SEND_ERROR

record Message =
  msg_sender :: u64
  msg_value :: ptr

datatype node = Stub | Msg nat

record Mailbox =
  mb_head :: node
  mb_tail :: node
  mb_next :: "node \<Rightarrow> node option"
  mb_count :: u64
  mb_max_messages :: u64
  mb_max_bytes :: u64
  mb_policy :: OverflowPolicy
  mb_current_bytes :: u64
  mb_dropped :: u64
  mb_received :: u64

type_synonym messages = "nat \<Rightarrow> Message option"

definition mailbox_init :: Mailbox where
  "mailbox_init = \<lparr>mb_head = Stub, mb_tail = Stub, mb_next = (\<lambda>_. None), mb_count = 0,
     mb_max_messages = 0, mb_max_bytes = 0, mb_policy = OVERFLOW_DROP_NEW, mb_current_bytes = 0,
     mb_dropped = 0, mb_received = 0\<rparr>"

subsection \<open>Messages\<close>

text \<open>A new message lives at an address the caller's allocator chose; \<open>None\<close> is a failed allocation.\<close>

definition message_new :: "nat option \<Rightarrow> u64 \<Rightarrow> ptr \<Rightarrow> messages \<Rightarrow> nat option \<times> messages" where
  "message_new addr sender v msgs =
     (case addr of None \<Rightarrow> (None, msgs)
      | Some k \<Rightarrow> (Some k, msgs(k \<mapsto> \<lparr>msg_sender = sender, msg_value = v\<rparr>)))"

definition message_free :: "nat option \<Rightarrow> messages \<Rightarrow> store \<Rightarrow> (messages \<times> store) option" where
  "message_free msg msgs s =
     (case msg of None \<Rightarrow> Some (msgs, s)
      | Some k \<Rightarrow> do {
          m \<leftarrow> msgs k;
          s \<leftarrow> free_item (msg_value m) s;
          Some (msgs(k := None), s)})"

text \<open>The walk over the chain; a chain that is cyclic would not end.\<close>

partial_function (option) free_chain ::
  "node \<Rightarrow> (node \<Rightarrow> node option) \<Rightarrow> messages \<Rightarrow> store \<Rightarrow> (messages \<times> store) option" where
  "free_chain n nx msgs s = do {
     (msgs', s') \<leftarrow> (case n of Stub \<Rightarrow> Some (msgs, s) | Msg k \<Rightarrow> message_free (Some k) msgs s);
     (case nx n of None \<Rightarrow> Some (msgs', s') | Some n' \<Rightarrow> free_chain n' nx msgs' s')}"

definition mailbox_free :: "Mailbox \<Rightarrow> messages \<Rightarrow> store \<Rightarrow> (Mailbox \<times> messages \<times> store) option" where
  "mailbox_free mb msgs s = do {
     (msgs, s) \<leftarrow> free_chain (mb_head mb) (mb_next mb) msgs s;
     Some (mb\<lparr>mb_next := (mb_next mb)(Stub := None), mb_head := Stub, mb_tail := Stub,
              mb_count := 0, mb_current_bytes := 0\<rparr>, msgs, s)}"

subsection \<open>Push\<close>

text \<open>The three atomic steps of a push.\<close>

definition push_exchange :: "nat \<Rightarrow> Mailbox \<Rightarrow> node \<times> Mailbox" where
  "push_exchange k mb =
     (mb_tail mb, mb\<lparr>mb_next := (mb_next mb)(Msg k := None), mb_tail := Msg k\<rparr>)"

definition push_link :: "node \<Rightarrow> node \<Rightarrow> Mailbox \<Rightarrow> Mailbox" where
  "push_link prev n mb = mb\<lparr>mb_next := (mb_next mb)(prev \<mapsto> n)\<rparr>"

definition push_count :: "Mailbox \<Rightarrow> Mailbox" where
  "push_count mb = mb\<lparr>mb_count := mb_count mb + 1\<rparr>"

definition mailbox_push :: "Mailbox \<Rightarrow> nat option \<Rightarrow> u64 \<Rightarrow> bool \<times> Mailbox" where
  "mailbox_push mb msg max_size =
     (case msg of None \<Rightarrow> (False, mb)
      | Some k \<Rightarrow>
          if 0 < max_size \<and> max_size \<le> mb_count mb then (False, mb)
          else let (prev, mb) = push_exchange k mb
               in (True, push_count (push_link prev (Msg k) mb)))"

subsection \<open>Pop\<close>

text \<open>
  The program points of \<^verbatim>\<open>mailbox_pop\<close>: before the first load; before loading the successor of
  the head; before loading the tail; in the spin loop; before exchanging the tail for the stub;
  before linking the stub; before the last load; returned.
\<close>

datatype pop_pc =
    PStart
  | PNext node
  | PTail node
  | PSpin node nat
  | PStub node
  | PLink node node
  | PFinal node
  | PDone "node option"

definition max_spins :: nat where "max_spins = 100"

definition take_head :: "node \<Rightarrow> node \<Rightarrow> Mailbox \<Rightarrow> pop_pc \<times> Mailbox" where
  "take_head h n mb =
     (PDone (Some h), mb\<lparr>mb_head := n, mb_count := mb_count mb - 1, mb_next := (mb_next mb)(h := None)\<rparr>)"

fun pop_step :: "pop_pc \<Rightarrow> Mailbox \<Rightarrow> pop_pc \<times> Mailbox" where
  "pop_step PStart mb =
     (let h = mb_head mb in
      case mb_next mb h of
        None \<Rightarrow> if h = Stub then (PDone None, mb) else (PTail h, mb)
      | Some n \<Rightarrow> if h = Stub then (PNext n, mb\<lparr>mb_head := n\<rparr>) else take_head h n mb)"
| "pop_step (PNext h) mb =
     (case mb_next mb h of None \<Rightarrow> (PTail h, mb) | Some n \<Rightarrow> take_head h n mb)"
| "pop_step (PTail h) mb = (if h \<noteq> mb_tail mb then (PSpin h 0, mb) else (PStub h, mb))"
| "pop_step (PSpin h i) mb =
     (case mb_next mb h of
        Some n \<Rightarrow> take_head h n mb
      | None \<Rightarrow> if Suc i < max_spins then (PSpin h (Suc i), mb) else (PDone None, mb))"
| "pop_step (PStub h) mb =
     (PLink h (mb_tail mb), mb\<lparr>mb_next := (mb_next mb)(Stub := None), mb_tail := Stub\<rparr>)"
| "pop_step (PLink h prev) mb = (PFinal h, push_link prev Stub mb)"
| "pop_step (PFinal h) mb =
     (case mb_next mb h of None \<Rightarrow> (PDone None, mb) | Some n \<Rightarrow> take_head h n mb)"
| "pop_step (PDone r) mb = (PDone r, mb)"

text \<open>A pop that no producer interrupts.\<close>

fun pop_rank :: "pop_pc \<Rightarrow> nat" where
  "pop_rank PStart = 106"
| "pop_rank (PNext _) = 105"
| "pop_rank (PTail _) = 104"
| "pop_rank (PSpin _ i) = 3 + (max_spins - i)"
| "pop_rank (PStub _) = 3"
| "pop_rank (PLink _ _) = 2"
| "pop_rank (PFinal _) = 1"
| "pop_rank (PDone _) = 0"

fun pop_result :: "pop_pc \<Rightarrow> node option option" where
  "pop_result (PDone r) = Some r"
| "pop_result _ = None"

lemma pop_rank_step: "pop_result pc = None \<Longrightarrow> pop_rank (fst (pop_step pc mb)) < pop_rank pc"
  by (cases pc) (auto simp: take_head_def max_spins_def Let_def split: option.splits)

function pop_run :: "pop_pc \<Rightarrow> Mailbox \<Rightarrow> node option \<times> Mailbox" where
  "pop_run pc mb =
     (case pop_result pc of Some r \<Rightarrow> (r, mb)
      | None \<Rightarrow> pop_run (fst (pop_step pc mb)) (snd (pop_step pc mb)))"
  by pat_completeness auto
termination
  by (relation "measure (\<lambda>(pc, mb). pop_rank pc)") (simp_all add: pop_rank_step case_prod_beta)

declare pop_run.simps [simp del]

definition mailbox_pop :: "Mailbox \<Rightarrow> node option \<times> Mailbox" where
  "mailbox_pop mb = pop_run PStart mb"

definition mailbox_empty :: "Mailbox \<Rightarrow> bool" where
  "mailbox_empty mb \<longleftrightarrow> mb_count mb = 0"

definition mailbox_count :: "Mailbox \<Rightarrow> u64" where
  "mailbox_count mb = mb_count mb"

subsection \<open>Overflow policies\<close>

text \<open>The struct sizes of the 64-bit platform.\<close>

definition sizeof_Message :: u64 where "sizeof_Message = 24"
definition sizeof_Value :: u64 where "sizeof_Value = 32"

definition estimate_message_size :: "nat \<Rightarrow> messages \<Rightarrow> store \<Rightarrow> u64 option" where
  "estimate_message_size k msgs s = do {
     m \<leftarrow> msgs k;
     (case msg_value m of None \<Rightarrow> Some sizeof_Message
      | Some a \<Rightarrow> do {
          v \<leftarrow> cell s a;
          Some (sizeof_Message + sizeof_Value
            + (case v_as v of VString x \<Rightarrow> of_nat (length (s_data x)) | _ \<Rightarrow> 0))})}"

type_synonym mail_state = "Mailbox \<times> messages \<times> store"

fun mailbox_drop_oldest :: "mail_state \<Rightarrow> (bool \<times> mail_state) option" where
  "mailbox_drop_oldest (mb, msgs, s) =
     (case mailbox_pop mb of
        (Some (Msg k), mb) \<Rightarrow> do {
          msg_size \<leftarrow> estimate_message_size k msgs s;
          (msgs, s) \<leftarrow> message_free (Some k) msgs s;
          Some (True, mb\<lparr>mb_current_bytes := mb_current_bytes mb - msg_size\<rparr>, msgs, s)}
      | (_, mb) \<Rightarrow> Some (False, mb, msgs, s))"

definition count_dropped :: "Mailbox \<Rightarrow> Mailbox" where
  "count_dropped mb = mb\<lparr>mb_dropped := mb_dropped mb + 1\<rparr>"

partial_function (option) drop_until_fits :: "u64 \<Rightarrow> mail_state \<Rightarrow> mail_state option" where
  "drop_until_fits msg_size st = (case st of (mb, msgs, s) \<Rightarrow>
     if mb_current_bytes mb + msg_size \<le> mb_max_bytes mb then Some (mb, msgs, s)
     else do {
       (ok, mb, msgs, s) \<leftarrow> mailbox_drop_oldest (mb, msgs, s);
       if \<not> ok then Some (mb, msgs, s) else drop_until_fits msg_size (count_dropped mb, msgs, s)})"

text \<open>The check of the message count; a result is an early return.\<close>

fun limit_messages :: "mail_state \<Rightarrow> (SendResult option \<times> mail_state) option" where
  "limit_messages (mb, msgs, s) =
     (if 0 < mb_max_messages mb \<and> mb_max_messages mb \<le> mb_count mb
      then (case mb_policy mb of
              OVERFLOW_DROP_NEW \<Rightarrow> Some (Some SEND_FULL, count_dropped mb, msgs, s)
            | OVERFLOW_DROP_OLD \<Rightarrow> do {
                (ok, mb, msgs, s) \<leftarrow> mailbox_drop_oldest (mb, msgs, s);
                if ok then Some (None, count_dropped mb, msgs, s) else Some (Some SEND_FULL, mb, msgs, s)}
            | OVERFLOW_BLOCK_SENDER \<Rightarrow> Some (Some SEND_WOULD_BLOCK, mb, msgs, s)
            | OVERFLOW_CRASH \<Rightarrow> Some (Some SEND_FULL, mb, msgs, s))
      else Some (None, mb, msgs, s))"

fun limit_bytes :: "u64 \<Rightarrow> mail_state \<Rightarrow> (SendResult option \<times> mail_state) option" where
  "limit_bytes msg_size (mb, msgs, s) =
     (if 0 < mb_max_bytes mb \<and> mb_max_bytes mb < mb_current_bytes mb + msg_size
      then (case mb_policy mb of
              OVERFLOW_DROP_NEW \<Rightarrow> Some (Some SEND_FULL, count_dropped mb, msgs, s)
            | OVERFLOW_DROP_OLD \<Rightarrow> do {
                st \<leftarrow> drop_until_fits msg_size (mb, msgs, s);
                Some (None, st)}
            | OVERFLOW_BLOCK_SENDER \<Rightarrow> Some (Some SEND_WOULD_BLOCK, mb, msgs, s)
            | OVERFLOW_CRASH \<Rightarrow> Some (Some SEND_FULL, mb, msgs, s))
      else Some (None, mb, msgs, s))"

definition push_accepted :: "nat \<Rightarrow> u64 \<Rightarrow> Mailbox \<Rightarrow> Mailbox" where
  "push_accepted k msg_size mb =
     (let (prev, mb) = push_exchange k mb;
          mb = push_count (push_link prev (Msg k) mb)
      in mb\<lparr>mb_current_bytes := mb_current_bytes mb + msg_size, mb_received := mb_received mb + 1\<rparr>)"

fun mailbox_push_ex :: "nat option \<Rightarrow> mail_state \<Rightarrow> (SendResult \<times> mail_state) option" where
  "mailbox_push_ex None st = Some (SEND_ERROR, st)"
| "mailbox_push_ex (Some k) (mb, msgs, s) = do {
     msg_size \<leftarrow> estimate_message_size k msgs s;
     (early, st) \<leftarrow> limit_messages (mb, msgs, s);
     (case early of Some r \<Rightarrow> Some (r, st)
      | None \<Rightarrow> do {
          (early, mb, msgs, s) \<leftarrow> limit_bytes msg_size st;
          (case early of Some r \<Rightarrow> Some (r, mb, msgs, s)
           | None \<Rightarrow> Some (SEND_OK, push_accepted k msg_size mb, msgs, s))})}"

subsection \<open>Configuration and receiving\<close>

definition mailbox_set_limits :: "Mailbox \<Rightarrow> u64 \<Rightarrow> u64 \<Rightarrow> Mailbox" where
  "mailbox_set_limits mb max_messages max_bytes =
     mb\<lparr>mb_max_messages := max_messages, mb_max_bytes := max_bytes\<rparr>"

definition mailbox_set_overflow_policy :: "Mailbox \<Rightarrow> OverflowPolicy \<Rightarrow> Mailbox" where
  "mailbox_set_overflow_policy mb policy = mb\<lparr>mb_policy := policy\<rparr>"

definition mailbox_get_overflow_policy :: "Mailbox \<Rightarrow> OverflowPolicy" where
  "mailbox_get_overflow_policy mb = mb_policy mb"

definition mailbox_dropped_count :: "Mailbox \<Rightarrow> u64" where
  "mailbox_dropped_count mb = mb_dropped mb"

definition mailbox_bytes_used :: "Mailbox \<Rightarrow> u64" where
  "mailbox_bytes_used mb = mb_current_bytes mb"

text \<open>
  The blocking receive. Each wake-up of the condition variable comes with what the other threads
  did to the mailbox meanwhile; the end of the list is the timeout.
\<close>

fun receive_loop :: "(Mailbox \<Rightarrow> Mailbox) list \<Rightarrow> Mailbox \<Rightarrow> node option \<times> Mailbox" where
  "receive_loop wakes mb =
     (case mailbox_pop mb of
        (Some n, mb) \<Rightarrow> (Some n, mb)
      | (None, mb) \<Rightarrow>
          (case wakes of [] \<Rightarrow> (None, mb) | others # wakes \<Rightarrow> receive_loop wakes (others mb)))"

definition mailbox_receive :: "(Mailbox \<Rightarrow> Mailbox) list \<Rightarrow> Mailbox \<Rightarrow> node option \<times> Mailbox" where
  "mailbox_receive wakes mb =
     (case mailbox_pop mb of (Some n, mb) \<Rightarrow> (Some n, mb) | (None, mb) \<Rightarrow> receive_loop wakes mb)"

declare receive_loop.simps [simp del]

subsection \<open>Chains\<close>

text \<open>
  The queue is the chain of nodes from the head to the tail. A node is linked to its successor,
  or the link is pending: a producer has exchanged the tail and not linked yet.
\<close>

definition edge :: "(node \<Rightarrow> node option) \<Rightarrow> (node \<times> node) set \<Rightarrow> node \<Rightarrow> node option \<Rightarrow> bool" where
  "edge nx P a succ \<longleftrightarrow>
     (case succ of
        None \<Rightarrow> nx a = None \<and> (\<forall>c. (a, c) \<notin> P)
      | Some b \<Rightarrow> nx a = Some b \<and> (\<forall>c. (a, c) \<notin> P) \<or> nx a = None \<and> (\<forall>c. (a, c) \<in> P \<longleftrightarrow> c = b))"

fun linked :: "(node \<Rightarrow> node option) \<Rightarrow> (node \<times> node) set \<Rightarrow> node list \<Rightarrow> bool" where
  "linked nx P [] \<longleftrightarrow> False"
| "linked nx P [a] \<longleftrightarrow> edge nx P a None"
| "linked nx P (a # b # q) \<longleftrightarrow> a \<notin> set (b # q) \<and> edge nx P a (Some b) \<and> linked nx P (b # q)"

lemma edge_other:
  "a \<noteq> x \<Longrightarrow> edge (nx(x := z)) P a n = edge nx P a n"
  "a \<noteq> x \<Longrightarrow> edge nx (insert (x, y) P) a n = edge nx P a n"
  "a \<noteq> x \<Longrightarrow> edge nx (P - {(x, y)}) a n = edge nx P a n"
  "x \<noteq> a \<Longrightarrow> edge (nx(x := z)) P a n = edge nx P a n"
  "x \<noteq> a \<Longrightarrow> edge nx (insert (x, y) P) a n = edge nx P a n"
  by (auto simp: edge_def split: option.splits)

lemma linked_other:
  "linked nx P q \<Longrightarrow> x \<notin> set q \<Longrightarrow> linked (nx(x := z)) P q"
  by (induction q rule: induct_list012) (simp_all add: edge_other del: fun_upd_apply)

lemma linked_distinct: "linked nx P q \<Longrightarrow> distinct q"
  by (induction q rule: induct_list012) auto

text \<open>A producer's exchange appends a node with a pending link.\<close>

lemma linked_append:
  assumes "linked nx P q" and "x \<notin> set q" and "\<forall>c. (x, c) \<notin> P"
  shows "linked (nx(x := None)) (insert (last q, x) P) (q @ [x])"
  using assms
proof (induction q rule: induct_list012)
  case (2 a)
  then show ?case by (auto simp: edge_def)
next
  case (3 a b q)
  have "a \<noteq> last (b # q)" using "3.prems"(1) last_in_set [of "b # q"] by auto
  moreover have "linked (nx(x := None)) (insert (last (b # q), x) P) ((b # q) @ [x])"
    using "3.prems" by (intro "3.IH"(2)) simp_all
  ultimately show ?case using "3.prems"(1,2) by (auto simp add: edge_other simp del: fun_upd_apply)
qed simp

text \<open>Linking turns a pending edge into a pointer.\<close>

lemma linked_link:
  assumes "linked nx P q" and "(a, b) \<in> P"
  shows "linked (nx(a \<mapsto> b)) (P - {(a, b)}) q"
  using assms
proof (induction q rule: induct_list012)
  case (2 c)
  then have "c \<noteq> a" by (auto simp: edge_def)
  then show ?case using "2.prems"(1) by (simp add: edge_other del: fun_upd_apply)
next
  case (3 c d q)
  have "linked (nx(a \<mapsto> b)) (P - {(a, b)}) (d # q)" using "3.prems" by (intro "3.IH"(2)) simp_all
  moreover have "edge (nx(a \<mapsto> b)) (P - {(a, b)}) c (Some d)"
  proof (cases "c = a")
    case True
    then have "b = d" "nx a = None" using "3.prems" by (auto simp: edge_def)
    then show ?thesis using True "3.prems" by (auto simp: edge_def)
  next
    case False
    then show ?thesis using "3.prems"(1) by (simp add: edge_other)
  qed
  ultimately show ?case using "3.prems"(1) by (simp del: fun_upd_apply)
qed simp

text \<open>Taking a linked head off the chain; what its pointer is afterwards does not matter.\<close>

lemma linked_take:
  assumes "linked nx P (a # q)" and "nx a = Some b"
  obtains q' where "q = b # q'" and "linked (nx(a := z)) P q" and "a \<notin> set q" and "\<forall>c. (a, c) \<notin> P"
proof (cases q)
  case Nil
  then show thesis using assms by (simp add: edge_def)
next
  case (Cons d q')
  then have l: "a \<notin> set q" "edge nx P a (Some d)" "linked nx P q" using assms(1) by simp_all
  then show thesis using that Cons assms(2) linked_other [OF l(3,1)] by (auto simp: edge_def)
qed

subsection \<open>Interleavings of producers and the consumer\<close>

text \<open>
  The state of a mailbox in use: the pending links, the number of producers that have linked but
  not counted yet, where the consumer is, and the history of the messages sent (in the order of
  their exchanges) and received.
\<close>

record world =
  w_box :: Mailbox
  w_pend :: "(node \<times> node) set"
  w_uncounted :: nat
  w_pc :: pop_pc
  w_sent :: "nat list"
  w_got :: "nat list"

definition world_init :: world where
  "world_init = \<lparr>w_box = mailbox_init, w_pend = {}, w_uncounted = 0, w_pc = PDone None,
     w_sent = [], w_got = []\<rparr>"

fun taken :: "pop_pc \<Rightarrow> nat list" where
  "taken (PDone (Some (Msg k))) = [k]"
| "taken _ = []"

inductive mb_step :: "world \<Rightarrow> world \<Rightarrow> bool" where
  exchange: "k \<notin> set (w_sent w) \<Longrightarrow> push_exchange k (w_box w) = (prev, mb) \<Longrightarrow>
    mb_step w (w\<lparr>w_box := mb, w_pend := insert (prev, Msg k) (w_pend w), w_sent := w_sent w @ [k]\<rparr>)"
| link: "(a, n) \<in> w_pend w \<Longrightarrow>
    mb_step w (w\<lparr>w_box := push_link a n (w_box w), w_pend := w_pend w - {(a, n)},
      w_uncounted := Suc (w_uncounted w)\<rparr>)"
| counted: "w_uncounted w = Suc n \<Longrightarrow>
    mb_step w (w\<lparr>w_box := push_count (w_box w), w_uncounted := n\<rparr>)"
| start: "pop_result (w_pc w) \<noteq> None \<Longrightarrow> mb_step w (w\<lparr>w_pc := PStart\<rparr>)"
| pop: "pop_result (w_pc w) = None \<Longrightarrow> pop_step (w_pc w) (w_box w) = (pc, mb) \<Longrightarrow>
    mb_step w (w\<lparr>w_box := mb, w_pc := pc, w_got := w_got w @ taken pc\<rparr>)"

inductive mb_reach :: "world \<Rightarrow> bool" where
  reach_init: "mb_reach world_init"
| reach_step: "mb_reach w \<Longrightarrow> mb_step w w' \<Longrightarrow> mb_reach w'"

fun msgs_of :: "node list \<Rightarrow> nat list" where
  "msgs_of [] = []"
| "msgs_of (Stub # q) = msgs_of q"
| "msgs_of (Msg k # q) = k # msgs_of q"

lemma msgs_of_append [simp]: "msgs_of (q @ r) = msgs_of q @ msgs_of r"
  by (induction q rule: msgs_of.induct) simp_all

lemma set_msgs_of: "k \<in> set (msgs_of q) \<longleftrightarrow> Msg k \<in> set q"
  by (induction q rule: msgs_of.induct) auto

text \<open>The link the consumer itself has pending, and what is known at each program point.\<close>

fun own_link :: "pop_pc \<Rightarrow> (node \<times> node) set" where
  "own_link (PLink h prev) = {(prev, Stub)}"
| "own_link _ = {}"

fun pc_ok :: "pop_pc \<Rightarrow> node list \<Rightarrow> bool" where
  "pc_ok PStart q \<longleftrightarrow> True"
| "pc_ok (PNext h) q \<longleftrightarrow> hd q = h \<and> h \<noteq> Stub"
| "pc_ok (PTail h) q \<longleftrightarrow> hd q = h \<and> h \<noteq> Stub"
| "pc_ok (PSpin h i) q \<longleftrightarrow> hd q = h \<and> h \<noteq> Stub"
| "pc_ok (PStub h) q \<longleftrightarrow> hd q = h \<and> Stub \<notin> set q"
| "pc_ok (PLink h prev) q \<longleftrightarrow> hd q = h \<and> h \<noteq> Stub"
| "pc_ok (PFinal h) q \<longleftrightarrow> hd q = h \<and> h \<noteq> Stub"
| "pc_ok (PDone r) q \<longleftrightarrow> True"

definition chain_ok :: "Mailbox \<Rightarrow> (node \<times> node) set \<Rightarrow> node list \<Rightarrow> bool" where
  "chain_ok mb P q \<longleftrightarrow> linked (mb_next mb) P q \<and> hd q = mb_head mb \<and> last q = mb_tail mb
     \<and> (\<forall>(a, b) \<in> P. a \<in> set q)"

definition queue_inv :: "world \<Rightarrow> node list \<Rightarrow> bool" where
  "queue_inv w q \<longleftrightarrow> chain_ok (w_box w) (w_pend w \<union> own_link (w_pc w)) q
     \<and> (\<forall>(a, b) \<in> w_pend w. b \<noteq> Stub) \<and> pc_ok (w_pc w) q
     \<and> w_sent w = w_got w @ msgs_of q \<and> distinct (w_got w @ msgs_of q)"

lemma chain_ne: "chain_ok mb P q \<Longrightarrow> q \<noteq> []"
  by (auto simp: chain_ok_def)

lemma chain_append:
  assumes "chain_ok mb P q" and "n \<notin> set q"
  shows "chain_ok (mb\<lparr>mb_next := (mb_next mb)(n := None), mb_tail := n\<rparr>) (insert (mb_tail mb, n) P) (q @ [n])"
proof -
  have "q \<noteq> []" by (rule chain_ne [OF assms(1)])
  moreover have "\<forall>c. (n, c) \<notin> P" using assms by (auto simp: chain_ok_def)
  ultimately show ?thesis
    using assms linked_append [of "mb_next mb" P q n] last_in_set [of q] by (auto simp: chain_ok_def)
qed

lemma chain_link: "chain_ok mb P q \<Longrightarrow> (a, n) \<in> P \<Longrightarrow> chain_ok (push_link a n mb) (P - {(a, n)}) q"
  using linked_link [of "mb_next mb" P q a n] by (auto simp: chain_ok_def push_link_def)

lemma chain_take:
  assumes "chain_ok mb P q" and "mb_next mb (mb_head mb) = Some n"
  obtains q' where "q = mb_head mb # q'" "mb_head mb \<notin> set q'" "hd q' = n" "n \<in> set q'"
    "\<And>z. chain_ok (mb\<lparr>mb_head := n, mb_next := (mb_next mb)(mb_head mb := z)\<rparr>) P q'"
    "chain_ok (mb\<lparr>mb_head := n\<rparr>) P q'"
proof -
  obtain q1 where q: "q = mb_head mb # q1" using assms(1) chain_ne by (metis chain_ok_def list.collapse)
  have l: "linked (mb_next mb) P (mb_head mb # q1)" using assms(1) q by (simp add: chain_ok_def)
  obtain q' where q': "q1 = n # q'" "mb_head mb \<notin> set q1" "\<forall>c. (mb_head mb, c) \<notin> P"
    by (rule linked_take [OF l assms(2)])
  have lz: "linked ((mb_next mb)(mb_head mb := z)) P q1" for z by (rule linked_take [OF l assms(2)])
  have c: "chain_ok (mb\<lparr>mb_head := n, mb_next := (mb_next mb)(mb_head mb := z)\<rparr>) P q1" for z
    using assms(1) q q' lz by (auto simp: chain_ok_def)
  have "chain_ok (mb\<lparr>mb_head := n\<rparr>) P q1"
    using c [of "mb_next mb (mb_head mb)"] by (simp add: chain_ok_def)
  with c show thesis using that [of q1] q q' by simp
qed

lemma chain_ok_count [simp]: "chain_ok (mb\<lparr>mb_count := c\<rparr>) P q = chain_ok mb P q"
  by (simp add: chain_ok_def)

lemma chain_distinct: "chain_ok mb P q \<Longrightarrow> distinct q"
  using linked_distinct by (auto simp: chain_ok_def)

lemma queue_inv_init: "queue_inv world_init [Stub]"
  by (simp add: queue_inv_def chain_ok_def world_init_def mailbox_init_def edge_def)

lemma queue_inv_exchange:
  assumes inv: "queue_inv w q" and k: "k \<notin> set (w_sent w)"
  shows "queue_inv (w\<lparr>w_box := snd (push_exchange k (w_box w)),
    w_pend := insert (mb_tail (w_box w), Msg k) (w_pend w), w_sent := w_sent w @ [k]\<rparr>) (q @ [Msg k])"
proof -
  have c: "chain_ok (w_box w) (w_pend w \<union> own_link (w_pc w)) q" using inv by (simp add: queue_inv_def)
  have new: "Msg k \<notin> set q" using inv k by (auto simp: queue_inv_def set_msgs_of)
  have "hd (q @ [Msg k]) = hd q" using chain_ne [OF c] by simp
  then have "pc_ok (w_pc w) (q @ [Msg k])" using inv by (cases "w_pc w") (auto simp: queue_inv_def)
  then show ?thesis
    using inv k chain_append [OF c new] by (auto simp: queue_inv_def push_exchange_def)
qed

lemma queue_inv_link:
  assumes inv: "queue_inv w q" and p: "(a, n) \<in> w_pend w"
  shows "queue_inv (w\<lparr>w_box := push_link a n (w_box w), w_pend := w_pend w - {(a, n)}, w_uncounted := u\<rparr>) q"
proof -
  have c: "chain_ok (w_box w) (w_pend w \<union> own_link (w_pc w)) q" and "n \<noteq> Stub"
    using inv p by (auto simp: queue_inv_def)
  then have "(w_pend w - {(a, n)}) \<union> own_link (w_pc w) = (w_pend w \<union> own_link (w_pc w)) - {(a, n)}"
    by (cases "w_pc w") auto
  then show ?thesis using inv chain_link [OF c, of a n] p by (simp add: queue_inv_def)
qed

text \<open>Taking the head in any of the places where \<^verbatim>\<open>mailbox_pop\<close> does.\<close>

lemma queue_inv_take:
  assumes inv: "queue_inv w q" and h: "hd q = h" "h \<noteq> Stub" and n: "mb_next (w_box w) h = Some n"
    and own: "own_link (w_pc w) = {}"
  shows "\<exists>q'. queue_inv (w\<lparr>w_box := snd (take_head h n (w_box w)), w_pc := fst (take_head h n (w_box w)),
    w_got := w_got w @ taken (fst (take_head h n (w_box w)))\<rparr>) q'"
proof -
  have c: "chain_ok (w_box w) (w_pend w) q" using inv own by (simp add: queue_inv_def)
  then have hh: "mb_head (w_box w) = h" using h by (simp add: chain_ok_def)
  obtain q' where q': "q = h # q'"
    "\<And>z. chain_ok ((w_box w)\<lparr>mb_head := n, mb_next := (mb_next (w_box w))(h := z)\<rparr>) (w_pend w) q'"
    using chain_take [OF c, of n] n unfolding hh by metis
  obtain k where k: "h = Msg k" using h(2) by (cases h) auto
  let ?mb = "(w_box w)\<lparr>mb_head := n, mb_count := mb_count (w_box w) - 1, mb_next := (mb_next (w_box w))(h := None)\<rparr>"
  have "?mb = ((w_box w)\<lparr>mb_head := n, mb_next := (mb_next (w_box w))(h := None)\<rparr>)\<lparr>mb_count := mb_count (w_box w) - 1\<rparr>"
    by simp
  then have "chain_ok ?mb (w_pend w) q'" using q'(2) [of None] by (simp only: chain_ok_count)
  then have "queue_inv (w\<lparr>w_box := snd (take_head h n (w_box w)), w_pc := fst (take_head h n (w_box w)),
    w_got := w_got w @ taken (fst (take_head h n (w_box w)))\<rparr>) q'"
    using inv q'(1) k by (simp add: queue_inv_def take_head_def)
  then show ?thesis by blast
qed

lemma queue_inv_pc:
  "queue_inv w q \<Longrightarrow> own_link (w_pc w) = {} \<Longrightarrow> own_link pc = {} \<Longrightarrow> pc_ok pc q \<Longrightarrow> taken pc = [] \<Longrightarrow>
   queue_inv (w\<lparr>w_box := w_box w, w_pc := pc, w_got := w_got w @ taken pc\<rparr>) q"
  by (simp add: queue_inv_def)

lemma queue_inv_pop:
  assumes inv: "queue_inv w q" and run: "pop_result (w_pc w) = None" and st: "pop_step (w_pc w) (w_box w) = (pc, mb)"
  shows "\<exists>q'. queue_inv (w\<lparr>w_box := mb, w_pc := pc, w_got := w_got w @ taken pc\<rparr>) q'"
proof -
  let ?nx = "mb_next (w_box w)"
  have c: "chain_ok (w_box w) (w_pend w \<union> own_link (w_pc w)) q" and ok: "pc_ok (w_pc w) q"
    using inv by (simp_all add: queue_inv_def)
  have hd: "hd q = mb_head (w_box w)" using c by (simp add: chain_ok_def)
  have stay: "\<exists>q'. queue_inv (w\<lparr>w_box := mb, w_pc := pc, w_got := w_got w @ taken pc\<rparr>) q'"
    if "mb = w_box w" "own_link (w_pc w) = {}" "own_link pc = {}" "pc_ok pc q" "taken pc = []"
    using queue_inv_pc [OF inv that(2-5)] that(1) by auto
  have take: "\<exists>q'. queue_inv (w\<lparr>w_box := mb, w_pc := pc, w_got := w_got w @ taken pc\<rparr>) q'"
    if "hd q = h" "h \<noteq> Stub" "?nx h = Some n" "own_link (w_pc w) = {}" "(pc, mb) = take_head h n (w_box w)" for h n
    using queue_inv_take [OF inv that(1-4)] that(5) by (metis fst_conv snd_conv)
  show ?thesis
  proof (cases "w_pc w")
    case PStart
    show ?thesis
    proof (cases "?nx (mb_head (w_box w))")
      case None
      then show ?thesis using stay st PStart hd by (cases "mb_head (w_box w)") auto
    next
      case (Some n)
      show ?thesis
      proof (cases "mb_head (w_box w) = Stub")
        case True
        have c': "chain_ok (w_box w) (w_pend w) q" using c PStart by simp
        obtain q' where q': "q = Stub # q'" "Stub \<notin> set q'" "hd q' = n" "n \<in> set q'"
          "chain_ok ((w_box w)\<lparr>mb_head := n\<rparr>) (w_pend w) q'"
          using chain_take [OF c' Some] unfolding True by metis
        then have "pc = PNext n" "mb = (w_box w)\<lparr>mb_head := n\<rparr>" using st PStart Some True by auto
        then have "queue_inv (w\<lparr>w_box := mb, w_pc := pc, w_got := w_got w @ taken pc\<rparr>) q'"
          using inv q' by (auto simp: queue_inv_def)
        then show ?thesis by blast
      next
        case False
        then show ?thesis using take [OF hd False Some] st PStart Some by simp
      qed
    qed
  next
    case (PNext h)
    then show ?thesis using stay take [of h] st ok by (cases "?nx h") auto
  next
    case (PTail h)
    show ?thesis
    proof (cases "h = mb_tail (w_box w)")
      case True
      then have "hd q = last q" using ok PTail c by (simp add: chain_ok_def)
      then have "q = [h]"
        using chain_distinct [OF c] chain_ne [OF c] ok PTail
        by (cases q) (auto split: if_splits)
      then show ?thesis using stay st ok PTail True by auto
    next
      case False
      then show ?thesis using stay st ok PTail by auto
    qed
  next
    case (PSpin h i)
    then show ?thesis using stay take [of h] st ok by (cases "?nx h") (auto split: if_splits)
  next
    case (PStub h)
    have c': "chain_ok (w_box w) (w_pend w) q" and s: "Stub \<notin> set q" using c ok PStub by simp_all
    have e: "pc = PLink h (mb_tail (w_box w))"
      "mb = (w_box w)\<lparr>mb_next := ?nx(Stub := None), mb_tail := Stub\<rparr>" using st PStub by auto
    have "h \<noteq> Stub" "hd (q @ [Stub]) = h" using ok PStub s chain_ne [OF c] hd_in_set [of q] by auto
    then have "queue_inv (w\<lparr>w_box := mb, w_pc := pc, w_got := w_got w @ taken pc\<rparr>) (q @ [Stub])"
      using inv chain_append [OF c' s] e by (simp add: queue_inv_def)
    then show ?thesis by blast
  next
    case (PLink h prev)
    have e: "pc = PFinal h" "mb = push_link prev Stub (w_box w)" using st PLink by auto
    have "(prev, Stub) \<notin> w_pend w" using inv by (auto simp: queue_inv_def)
    then have "w_pend w \<union> {(prev, Stub)} - {(prev, Stub)} = w_pend w" by auto
    then have "chain_ok mb (w_pend w) q" using chain_link [OF c, of prev Stub] PLink e(2) by simp
    then have "queue_inv (w\<lparr>w_box := mb, w_pc := pc, w_got := w_got w @ taken pc\<rparr>) q"
      using inv e PLink by (simp add: queue_inv_def)
    then show ?thesis by blast
  next
    case (PFinal h)
    then show ?thesis using stay take [of h] st ok by (cases "?nx h") auto
  next
    case (PDone r)
    then show ?thesis using run by simp
  qed
qed

lemma mb_reach_inv: "mb_reach w \<Longrightarrow> \<exists>q. queue_inv w q"
proof (induction rule: mb_reach.induct)
  case reach_init
  then show ?case using queue_inv_init by blast
next
  case (reach_step w w')
  then obtain q where q: "queue_inv w q" by blast
  from reach_step.hyps(2) show ?case
  proof cases
    case (exchange k prev mb)
    then show ?thesis using queue_inv_exchange [OF q, of k] by (auto simp: push_exchange_def)
  next
    case (link a n)
    then show ?thesis using queue_inv_link [OF q] by blast
  next
    case (counted n)
    then show ?thesis using q by (auto simp: queue_inv_def push_count_def)
  next
    case start
    then have "own_link (w_pc w) = {}" by (cases "w_pc w") auto
    then show ?thesis using start q by (auto simp: queue_inv_def)
  next
    case (pop pc mb)
    then show ?thesis using queue_inv_pop [OF q] by blast
  qed
qed

text \<open>
  C1. Messages are delivered in order, none lost and none twice, in every interleaving: at every
  moment of every run with any number of producers, the messages received so far are an initial
  piece of the messages sent, in the order in which their producers exchanged the tail.
\<close>

theorem mailbox_fifo:
  assumes "mb_reach w"
  shows "\<exists>waiting. w_sent w = w_got w @ waiting \<and> distinct (w_got w @ waiting)"
  using mb_reach_inv [OF assms] by (auto simp: queue_inv_def)

text \<open>
  Concrete runs: one message has been exchanged and linked; and that message has been received
  before its producer counts it.
\<close>

definition sent_world :: world where
  "sent_world = \<lparr>w_box = mailbox_init\<lparr>mb_tail := Msg 0, mb_next := [Stub \<mapsto> Msg 0]\<rparr>,
     w_pend = {}, w_uncounted = 1, w_pc = PDone None, w_sent = [0], w_got = []\<rparr>"

definition race_world :: world where
  "race_world = sent_world\<lparr>w_box := mailbox_init\<lparr>mb_count := - 1\<rparr>, w_pc := PDone (Some (Msg 0)), w_got := [0]\<rparr>"

lemma sent_world_reach: "mb_reach sent_world"
proof -
  let ?w1 = "world_init\<lparr>w_box := snd (push_exchange 0 mailbox_init), w_pend := {(Stub, Msg 0)}, w_sent := [0]\<rparr>"
  have 1: "mb_reach ?w1"
    using reach_step [OF reach_init mb_step.exchange [of 0 world_init Stub "snd (push_exchange 0 mailbox_init)"]]
    by (simp add: world_init_def push_exchange_def mailbox_init_def)
  have "mb_reach (?w1\<lparr>w_box := push_link Stub (Msg 0) (w_box ?w1), w_pend := w_pend ?w1 - {(Stub, Msg 0)},
      w_uncounted := Suc (w_uncounted ?w1)\<rparr>)"
    by (rule reach_step [OF 1 mb_step.link]) simp
  then show ?thesis
    by (simp add: world_init_def sent_world_def push_link_def push_exchange_def mailbox_init_def fun_upd_def
      if_distrib cong: if_cong)
qed

lemma race_world_reach: "mb_reach race_world"
proof -
  have step: "mb_reach (w\<lparr>w_box := mb, w_pc := pc, w_got := w_got w @ taken pc\<rparr>)"
    if "mb_reach w" "pop_result (w_pc w) = None" "pop_step (w_pc w) (w_box w) = (pc, mb)" for w mb pc
    by (rule reach_step [OF that(1) mb_step.pop [OF that(2,3)]])
  let ?w2 = sent_world
  have 3: "mb_reach (?w2\<lparr>w_pc := PStart\<rparr>)"
    by (rule reach_step [OF sent_world_reach mb_step.start]) (simp add: sent_world_def)
  note defs = sent_world_def mailbox_init_def push_link_def
  from step [OF 3] have 4: "mb_reach (?w2\<lparr>w_pc := PNext (Msg 0), w_box := (w_box ?w2)\<lparr>mb_head := Msg 0\<rparr>\<rparr>)"
    by (simp add: defs)
  from step [OF 4] have 5: "mb_reach (?w2\<lparr>w_pc := PTail (Msg 0), w_box := (w_box ?w2)\<lparr>mb_head := Msg 0\<rparr>\<rparr>)"
    by (simp add: defs)
  from step [OF 5] have 6: "mb_reach (?w2\<lparr>w_pc := PStub (Msg 0), w_box := (w_box ?w2)\<lparr>mb_head := Msg 0\<rparr>\<rparr>)"
    by (simp add: defs)
  from step [OF 6] have 7: "mb_reach (?w2\<lparr>w_pc := PLink (Msg 0) (Msg 0),
      w_box := (w_box ?w2)\<lparr>mb_head := Msg 0, mb_next := (\<lambda>_. None), mb_tail := Stub\<rparr>\<rparr>)"
    by (simp add: defs fun_upd_def if_distrib cong: if_cong)
  from step [OF 7] have 8: "mb_reach (?w2\<lparr>w_pc := PFinal (Msg 0),
      w_box := (w_box ?w2)\<lparr>mb_head := Msg 0, mb_next := [Msg 0 \<mapsto> Stub], mb_tail := Stub\<rparr>\<rparr>)"
    by (simp add: defs)
  from step [OF 8] show ?thesis
    by (simp add: defs take_head_def race_world_def)
qed

theorem mailbox_fifo_witness:
  "mb_reach race_world \<and> (\<exists>waiting. w_sent race_world = w_got race_world @ waiting
    \<and> distinct (w_got race_world @ waiting))"
  using mailbox_fifo [OF race_world_reach] race_world_reach by blast

text \<open>
  C11. The message count can wrap: a consumer may take a message before its producer has counted
  it, and the counter, at zero, becomes the largest \<^verbatim>\<open>size_t\<close>. While it is, the empty mailbox
  reports that many messages and a push with a limit is refused.
\<close>

theorem mailbox_count_wraps:
  "\<exists>w. mb_reach w \<and> w_got w = w_sent w \<and> mailbox_count (w_box w) = - 1
    \<and> \<not> fst (mailbox_push (w_box w) (Some 1) 1000)"
proof (intro exI conjI)
  show "mb_reach race_world" by (rule race_world_reach)
  show "\<not> fst (mailbox_push (w_box race_world) (Some 1) 1000)"
    by (simp add: race_world_def mailbox_push_def)
qed (simp_all add: race_world_def sent_world_def mailbox_count_def)

subsection \<open>Without interruption\<close>

lemma pop_run_Done [simp]: "pop_run (PDone r) mb = (r, mb)"
  by (subst pop_run.simps) simp

lemma pop_run_step:
  "pop_result pc = None \<Longrightarrow> pop_step pc mb = (pc', mb') \<Longrightarrow> pop_run pc mb = pop_run pc' mb'"
  by (subst pop_run.simps) simp

text \<open>The queue a mailbox holds when no push is under way.\<close>

definition holds :: "Mailbox \<Rightarrow> nat list \<Rightarrow> bool" where
  "holds mb ks \<longleftrightarrow> (\<exists>q. chain_ok mb {} q \<and> msgs_of q = ks)"

definition mb_limits :: "Mailbox \<Rightarrow> u64 \<times> u64 \<times> OverflowPolicy" where
  "mb_limits mb = (mb_max_messages mb, mb_max_bytes mb, mb_policy mb)"

lemma mb_limits_simps [simp]:
  "mb_limits (mb\<lparr>mb_head := h\<rparr>) = mb_limits mb" "mb_limits (mb\<lparr>mb_tail := h\<rparr>) = mb_limits mb"
  "mb_limits (mb\<lparr>mb_next := nx\<rparr>) = mb_limits mb" "mb_limits (mb\<lparr>mb_count := c\<rparr>) = mb_limits mb"
  by (simp_all add: mb_limits_def)

lemma chain_next:
  assumes "chain_ok mb {} (a # q)"
  shows "mb_next mb a = (if q = [] then None else Some (hd q))" and "mb_head mb = a"
  using assms by (cases q; simp add: chain_ok_def edge_def)+

lemma pop_take:
  assumes c: "chain_ok mb {} (Msg k # n # q)"
  shows "\<exists>mb'. take_head (Msg k) n mb = (PDone (Some (Msg k)), mb') \<and> chain_ok mb' {} (n # q)
    \<and> mb_count mb' = mb_count mb - 1 \<and> mb_limits mb' = mb_limits mb"
proof -
  let ?mb = "mb\<lparr>mb_head := n, mb_count := mb_count mb - 1, mb_next := (mb_next mb)(Msg k := None)\<rparr>"
  have "mb_next mb (mb_head mb) = Some n" "mb_head mb = Msg k" using chain_next [OF c] by simp_all
  then have "chain_ok (mb\<lparr>mb_head := n, mb_next := (mb_next mb)(Msg k := None)\<rparr>) {} (n # q)"
    using chain_take [OF c, of n] by (metis list.inject)
  then have "chain_ok ?mb {} (n # q)" by (simp add: chain_ok_def)
  then show ?thesis by (simp add: take_head_def)
qed

text \<open>The only message of a chain: the stub is put behind it first.\<close>

lemma pop_last:
  assumes c: "chain_ok mb {} [Msg k]"
  shows "\<exists>mb'. pop_run (PTail (Msg k)) mb = (Some (Msg k), mb') \<and> chain_ok mb' {} [Stub]
    \<and> mb_count mb' = mb_count mb - 1 \<and> mb_limits mb' = mb_limits mb"
proof -
  have tl: "mb_tail mb = Msg k" using c by (auto simp: chain_ok_def)
  let ?m1 = "mb\<lparr>mb_next := (mb_next mb)(Stub := None), mb_tail := Stub\<rparr>"
  let ?m2 = "push_link (Msg k) Stub ?m1"
  have "chain_ok ?m1 (insert (Msg k, Stub) {}) ([Msg k] @ [Stub])"
    using chain_append [OF c, of Stub] tl by simp
  from chain_link [OF this, of "Msg k" Stub] have c2: "chain_ok ?m2 {} (Msg k # [Stub])" by simp
  obtain mb' where mb': "take_head (Msg k) Stub ?m2 = (PDone (Some (Msg k)), mb')" "chain_ok mb' {} [Stub]"
    "mb_count mb' = mb_count ?m2 - 1" "mb_limits mb' = mb_limits ?m2"
    using pop_take [OF c2] by blast
  have "pop_run (PTail (Msg k)) mb = pop_run (PStub (Msg k)) mb"
    by (rule pop_run_step) (simp_all add: tl)
  also have "\<dots> = pop_run (PLink (Msg k) (Msg k)) ?m1" by (rule pop_run_step) (simp_all add: tl)
  also have "\<dots> = pop_run (PFinal (Msg k)) ?m2" by (rule pop_run_step) simp_all
  also have "\<dots> = pop_run (PDone (Some (Msg k))) mb'"
    by (rule pop_run_step) (use mb'(1) chain_next [OF c2] in simp_all)
  finally show ?thesis using mb' by (simp add: push_link_def)
qed

lemma pop_from_message:
  assumes c: "chain_ok mb {} (Msg k # q)"
    and pc: "pc = PStart \<or> pc = PNext (Msg k)"
  shows "\<exists>mb' q'. pop_run pc mb = (Some (Msg k), mb') \<and> chain_ok mb' {} q' \<and> msgs_of q' = msgs_of q
    \<and> mb_count mb' = mb_count mb - 1 \<and> mb_limits mb' = mb_limits mb"
proof (cases q)
  case Nil
  have "pop_run pc mb = pop_run (PTail (Msg k)) mb"
    using pc chain_next [OF c] Nil by (auto intro!: pop_run_step)
  then show ?thesis using pop_last [of mb k] c Nil by fastforce
next
  case (Cons n q')
  obtain mb' where mb': "take_head (Msg k) n mb = (PDone (Some (Msg k)), mb')" "chain_ok mb' {} (n # q')"
    "mb_count mb' = mb_count mb - 1" "mb_limits mb' = mb_limits mb"
    using pop_take [of mb k n q'] c Cons by blast
  have "pop_run pc mb = pop_run (PDone (Some (Msg k))) mb'"
    by (rule pop_run_step) (use pc chain_next [OF c] Cons mb'(1) in auto)
  then show ?thesis using mb' Cons by auto
qed

lemma pop_holds:
  assumes "holds mb ks"
  shows "case ks of
      [] \<Rightarrow> mailbox_pop mb = (None, mb)
    | k # ks' \<Rightarrow> \<exists>mb'. mailbox_pop mb = (Some (Msg k), mb') \<and> holds mb' ks' \<and> mb_count mb' = mb_count mb - 1
        \<and> mb_limits mb' = mb_limits mb"
proof -
  obtain q where c: "chain_ok mb {} q" and ks: "msgs_of q = ks" using assms by (auto simp: holds_def)
  obtain n q1 where q: "q = n # q1" using chain_ne [OF c] by (cases q) auto
  show ?thesis
  proof (cases n)
    case (Msg k)
    then obtain mb' q' where "pop_run PStart mb = (Some (Msg k), mb')" "chain_ok mb' {} q'" "msgs_of q' = msgs_of q1"
      "mb_count mb' = mb_count mb - 1" "mb_limits mb' = mb_limits mb"
      using pop_from_message [of mb k q1 PStart] c q by auto
    then show ?thesis using ks q Msg by (auto simp: mailbox_pop_def holds_def)
  next
    case Stub
    show ?thesis
    proof (cases q1)
      case Nil
      have "pop_run PStart mb = pop_run (PDone None) mb"
        by (rule pop_run_step) (use chain_next [of mb n q1] c q Stub Nil in simp_all)
      then show ?thesis using ks q Stub Nil by (auto simp: mailbox_pop_def)
    next
      case (Cons m q2)
      have "Stub \<noteq> m" using chain_distinct [OF c] q Stub Cons by auto
      then obtain k where k: "m = Msg k" by (cases m) auto
      have nx: "mb_next mb (mb_head mb) = Some m" "mb_head mb = Stub"
        using chain_next [of mb n q1] c q Stub Cons by simp_all
      have c1: "chain_ok (mb\<lparr>mb_head := m\<rparr>) {} (Msg k # q2)"
        using chain_take [OF c nx(1)] q Cons k by (metis list.inject)
      obtain mb' q' where "pop_run (PNext (Msg k)) (mb\<lparr>mb_head := m\<rparr>) = (Some (Msg k), mb')" "chain_ok mb' {} q'"
        "msgs_of q' = msgs_of q2" "mb_count mb' = mb_count mb - 1" "mb_limits mb' = mb_limits mb"
        using pop_from_message [OF c1, of "PNext (Msg k)"] by auto
      moreover have "pop_run PStart mb = pop_run (PNext (Msg k)) (mb\<lparr>mb_head := m\<rparr>)"
        by (rule pop_run_step) (use nx k in simp_all)
      ultimately show ?thesis using ks q Stub Cons k by (auto simp: mailbox_pop_def holds_def)
    qed
  qed
qed

text \<open>
  C4. No message is stuck: whenever no push is under way and the consumer is idle, however the
  run went before, the next pop returns the oldest message that was sent and not received, and
  reports an empty mailbox only when everything was received.
\<close>

theorem mailbox_pop_progress:
  assumes "mb_reach w" and "w_pend w = {}" and "pop_result (w_pc w) \<noteq> None"
  shows "fst (mailbox_pop (w_box w)) = (case drop (length (w_got w)) (w_sent w) of [] \<Rightarrow> None | k # _ \<Rightarrow> Some (Msg k))"
proof -
  obtain q where q: "queue_inv w q" using mb_reach_inv [OF assms(1)] by blast
  have "own_link (w_pc w) = {}" using assms(3) by (cases "w_pc w") auto
  then have "holds (w_box w) (msgs_of q)" and "drop (length (w_got w)) (w_sent w) = msgs_of q"
    using q assms(2) by (auto simp: queue_inv_def holds_def)
  then show ?thesis using pop_holds [of "w_box w" "msgs_of q"] by (cases "msgs_of q") auto
qed

theorem mailbox_pop_progress_witness:
  "mb_reach sent_world \<and> fst (mailbox_pop (w_box sent_world)) = Some (Msg 0)"
  using mailbox_pop_progress [OF sent_world_reach] sent_world_reach by (simp add: sent_world_def)

subsection \<open>The mailbox as a queue\<close>

text \<open>What the runtime expects of a message queue, and what follows for a batch of messages.\<close>

primrec drain :: "('q \<Rightarrow> nat option \<times> 'q) \<Rightarrow> nat \<Rightarrow> 'q \<Rightarrow> nat list \<times> 'q" where
  "drain deq 0 q = ([], q)"
| "drain deq (Suc n) q =
     (case deq q of (None, q) \<Rightarrow> ([], q) | (Some k, q) \<Rightarrow> (case drain deq n q of (ks, q) \<Rightarrow> (k # ks, q)))"

locale fifo =
  fixes rep :: "'q \<Rightarrow> nat list \<Rightarrow> bool"
    and enq :: "nat \<Rightarrow> 'q \<Rightarrow> 'q"
    and deq :: "'q \<Rightarrow> nat option \<times> 'q"
  assumes rep_enq: "rep q ks \<Longrightarrow> k \<notin> set ks \<Longrightarrow> rep (enq k q) (ks @ [k])"
    and deq_Nil: "rep q [] \<Longrightarrow> deq q = (None, q)"
    and deq_Cons: "rep q (k # ks) \<Longrightarrow> \<exists>q'. deq q = (Some k, q') \<and> rep q' ks"
begin

lemma rep_enq_all: "rep q ks \<Longrightarrow> distinct (ks @ xs) \<Longrightarrow> rep (fold enq xs q) (ks @ xs)"
proof (induction xs arbitrary: q ks)
  case (Cons x xs)
  have "rep (enq x q) (ks @ [x])" using Cons.prems by (intro rep_enq) auto
  then show ?case using Cons.IH [of "enq x q" "ks @ [x]"] Cons.prems by simp
qed simp

lemma drain_rep: "rep q (ks @ xs) \<Longrightarrow> \<exists>q'. drain deq (length ks) q = (ks, q') \<and> rep q' xs"
proof (induction ks arbitrary: q)
  case (Cons k ks)
  then obtain q' where "deq q = (Some k, q')" "rep q' (ks @ xs)" using deq_Cons [of q k "ks @ xs"] by auto
  then show ?case using Cons.IH [of q'] by auto
qed simp

end

definition mb_enq :: "nat \<Rightarrow> Mailbox \<Rightarrow> Mailbox" where
  "mb_enq k mb = snd (mailbox_push mb (Some k) 0)"

definition mb_deq :: "Mailbox \<Rightarrow> nat option \<times> Mailbox" where
  "mb_deq mb = (case mailbox_pop mb of (Some (Msg k), mb) \<Rightarrow> (Some k, mb) | (_, mb) \<Rightarrow> (None, mb))"

lemma holds_push:
  assumes "holds mb ks" and "k \<notin> set ks"
  shows "holds (push_link (mb_tail mb) (Msg k) (snd (push_exchange k mb))) (ks @ [k])"
proof -
  obtain q where c: "chain_ok mb {} q" "msgs_of q = ks" using assms(1) by (auto simp: holds_def)
  then have "Msg k \<notin> set q" using assms(2) by (auto simp: set_msgs_of [symmetric])
  from chain_append [OF c(1) this]
  have "chain_ok (snd (push_exchange k mb)) {(mb_tail mb, Msg k)} (q @ [Msg k])" by (simp add: push_exchange_def)
  from chain_link [OF this] show ?thesis using c(2) by (auto simp: holds_def)
qed

lemma holds_cong:
  "mb_next mb' = mb_next mb \<Longrightarrow> mb_head mb' = mb_head mb \<Longrightarrow> mb_tail mb' = mb_tail mb \<Longrightarrow> holds mb' ks = holds mb ks"
  by (simp add: holds_def chain_ok_def)

lemma holds_init: "holds mailbox_init []"
  unfolding holds_def by (rule exI [of _ "[Stub]"]) (simp add: chain_ok_def mailbox_init_def edge_def)

interpretation mbq: fifo holds mb_enq mb_deq
proof
  show "holds (mb_enq k mb) (ks @ [k])" if "holds mb ks" "k \<notin> set ks" for mb ks k
    using holds_push [OF that] holds_cong [of "mb_enq k mb"]
    by (simp add: mb_enq_def mailbox_push_def push_count_def push_exchange_def)
  show "mb_deq mb = (None, mb)" if "holds mb []" for mb
    using pop_holds [OF that] by (simp add: mb_deq_def)
  show "\<exists>mb'. mb_deq mb = (Some k, mb') \<and> holds mb' ks" if "holds mb (k # ks)" for mb k ks
    using pop_holds [OF that] by (auto simp: mb_deq_def)
qed

text \<open>
  A batch of messages goes through a mailbox unchanged: pushing distinct messages into a fresh
  mailbox and popping as often returns exactly that list, in its order.
\<close>

lemma mailbox_batch:
  assumes "distinct ks"
  shows "fst (drain mb_deq (length ks) (fold mb_enq ks mailbox_init)) = ks"
proof -
  have "holds (fold mb_enq ks mailbox_init) (ks @ [])"
    using mbq.rep_enq_all [OF holds_init, of ks] assms by simp
  from mbq.drain_rep [OF this] show ?thesis by auto
qed

subsection \<open>Limits\<close>

text \<open>The references that waiting messages hold.\<close>

definition mail_values :: "messages \<Rightarrow> nat list \<Rightarrow> addr list" where
  "mail_values msgs ks = somes (map (\<lambda>k. Option.bind (msgs k) msg_value) ks)"

lemma mail_values_Nil [simp]: "mail_values msgs [] = []"
  by (simp add: mail_values_def)

lemma mail_values_Cons:
  "mail_values msgs (k # ks) = somes [Option.bind (msgs k) msg_value] @ mail_values msgs ks"
  by (cases "Option.bind (msgs k) msg_value") (simp_all add: mail_values_def)

lemma mail_values_snoc:
  "mail_values msgs (ks @ [k]) = mail_values msgs ks @ somes [Option.bind (msgs k) msg_value]"
  by (simp add: mail_values_def)

lemma mail_values_upd: "k \<notin> set ks \<Longrightarrow> mail_values (msgs(k := None)) ks = mail_values msgs ks"
  unfolding mail_values_def by (intro arg_cong [of _ _ somes] map_cong) auto

lemma estimate_defined:
  assumes "owns (mset (mail_values msgs [k]) + R) s" and "msgs k \<noteq> None"
  shows "\<exists>n. estimate_message_size k msgs s = Some n"
proof -
  obtain m where m: "msgs k = Some m" using assms(2) by blast
  show ?thesis
  proof (cases "msg_value m")
    case (Some a)
    have "\<exists>v. cell s a = Some v" by (rule owns_live [OF assms(1)]) (simp add: mail_values_def m Some)
    then show ?thesis using m Some by (auto simp: estimate_message_size_def)
  qed (simp add: estimate_message_size_def m)
qed

lemma message_free_owns:
  assumes "owns (mset (mail_values msgs [k]) + R) s" and "msgs k \<noteq> None"
  shows "\<exists>s'. message_free (Some k) msgs s = Some (msgs(k := None), s') \<and> owns R s'"
proof -
  obtain m where m: "msgs k = Some m" using assms(2) by blast
  show ?thesis
  proof (cases "msg_value m")
    case None
    then show ?thesis using assms(1) m by (simp add: message_free_def free_item_def mail_values_def)
  next
    case (Some a)
    then have "owns (add_mset a R) s" using assms(1) m by (simp add: mail_values_def)
    from balanced_free_loop [OF owns_Visit [OF this]]
    show ?thesis using m Some by (auto simp: message_free_def free_item_def value_free_def owns_def)
  qed
qed

lemma accept_holds:
  assumes "holds mb ks" and "k \<notin> set ks"
  shows "holds (push_accepted k n mb) (ks @ [k])" and "mb_count (push_accepted k n mb) = mb_count mb + 1"
  using holds_push [OF assms] holds_cong [of "push_accepted k n mb" "push_link (mb_tail mb) (Msg k) (snd (push_exchange k mb))"]
  by (simp_all add: push_accepted_def push_exchange_def push_count_def push_link_def)

text \<open>A pop changes neither the limits nor the counters of bytes, drops and received messages.\<close>

definition mb_stats :: "Mailbox \<Rightarrow> (u64 \<times> u64 \<times> OverflowPolicy) \<times> u64 \<times> u64 \<times> u64" where
  "mb_stats mb = (mb_limits mb, mb_current_bytes mb, mb_dropped mb, mb_received mb)"

lemma pop_step_stats: "mb_stats (snd (pop_step pc mb)) = mb_stats mb"
  by (cases pc) (simp_all add: take_head_def push_link_def mb_stats_def mb_limits_def Let_def split: option.splits)

lemma pop_run_stats: "mb_stats (snd (pop_run pc mb)) = mb_stats mb"
proof (induction pc mb rule: pop_run.induct)
  case (1 pc mb)
  then show ?case using pop_step_stats [of pc mb] by (subst pop_run.simps) (simp split: option.splits)
qed

lemma pop_stats: "mb_stats (snd (mailbox_pop mb)) = mb_stats mb"
  by (simp add: mailbox_pop_def pop_run_stats)

text \<open>Freeing changes no payload.\<close>

lemma free_loop_payload:
  "free_loop ts s = Some s' \<Longrightarrow> cell s' b = Some v' \<Longrightarrow> \<exists>v. cell s b = Some v \<and> v_as v = v_as v'"
proof (induction ts s arbitrary: s' rule: free_loop.induct)
  case (2 a ts s)
  obtain v where v: "cell s a = Some v" using 2(5) by (auto simp: free_loop.simps(2) split: option.splits)
  have p: "\<exists>w. cell s b = Some w \<and> v_as w = v_as v'"
    if "cell (put a (v\<lparr>refcount := n\<rparr>) s) b = Some w" "v_as w = v_as v'" for n w
    using that v cell_SomeD [OF v] by (auto simp: cell_put split: if_splits)
  show ?case
    using 2(1-4) [OF v refl _, of s'] 2(5,6) p v
    by (simp add: free_loop.simps(2) Let_def split: if_splits) (metis)+
next
  case (3 a ts s)
  then show ?case
    by (auto simp: free_loop.simps(3) agim_free_def cell_kill split: option.splits if_splits) (metis cell_kill option.distinct(1))
qed simp

text \<open>The estimated size of a message that is there.\<close>

definition size_of :: "messages \<Rightarrow> store \<Rightarrow> nat \<Rightarrow> u64" where
  "size_of msgs s j = (case estimate_message_size j msgs s of None \<Rightarrow> 0 | Some n \<Rightarrow> n)"

text \<open>The state of a mailbox that holds the messages \<open>ks\<close>, with the references of others in \<open>R\<close>.\<close>

definition mail_ok :: "addr multiset \<Rightarrow> nat list \<Rightarrow> mail_state \<Rightarrow> bool" where
  "mail_ok R ks st = (case st of (mb, msgs, s) \<Rightarrow>
     holds mb ks \<and> distinct ks \<and> (\<forall>j \<in> set ks. msgs j \<noteq> None) \<and> owns (mset (mail_values msgs ks) + R) s)"

text \<open>The oldest \<open>d\<close> messages are gone, with their references and their bytes.\<close>

definition sheds :: "addr multiset \<Rightarrow> nat list \<Rightarrow> nat \<Rightarrow> mail_state \<Rightarrow> mail_state \<Rightarrow> bool" where
  "sheds R ks d st st' = (case (st, st') of ((mb, msgs, s), (mb', msgs', s')) \<Rightarrow>
     d \<le> length ks \<and> mail_ok R (drop d ks) st' \<and> mb_count mb' = mb_count mb - of_nat d
   \<and> mb_limits mb' = mb_limits mb \<and> mb_dropped mb' = mb_dropped mb + of_nat d \<and> mb_received mb' = mb_received mb
   \<and> mb_current_bytes mb' = mb_current_bytes mb - sum_list (map (size_of msgs s) (take d ks))
   \<and> msgs' = msgs |` (- set (take d ks)) \<and> (\<forall>j \<in> set (drop d ks). size_of msgs' s' j = size_of msgs s j))"

lemma sheds_0: "mail_ok R ks st \<Longrightarrow> sheds R ks 0 st st"
  by (cases st) (simp add: sheds_def restrict_map_def)

lemma sheds_trans:
  assumes "sheds R ks d st st1" "sheds R (drop d ks) e st1 st2"
  shows "sheds R ks (d + e) st st2"
proof -
  obtain mb msgs s mb1 msgs1 s1 mb2 msgs2 s2 where st: "st = (mb, msgs, s)" "st1 = (mb1, msgs1, s1)" "st2 = (mb2, msgs2, s2)"
    by (cases st; cases st1; cases st2)
  have t: "take (d + e) ks = take d ks @ take e (drop d ks)" "drop (d + e) ks = drop e (drop d ks)"
    by (simp_all add: take_add add.commute)
  have a: "d \<le> length ks" "mb_count mb1 = mb_count mb - of_nat d" "mb_limits mb1 = mb_limits mb"
    "mb_dropped mb1 = mb_dropped mb + of_nat d" "mb_received mb1 = mb_received mb"
    "mb_current_bytes mb1 = mb_current_bytes mb - sum_list (map (size_of msgs s) (take d ks))"
    "msgs1 = msgs |` (- set (take d ks))" "\<forall>j \<in> set (drop d ks). size_of msgs1 s1 j = size_of msgs s j"
    using assms(1) unfolding st sheds_def prod.case by blast+
  have b: "e \<le> length (drop d ks)" "mail_ok R (drop e (drop d ks)) (mb2, msgs2, s2)" "mb_count mb2 = mb_count mb1 - of_nat e"
    "mb_limits mb2 = mb_limits mb1" "mb_dropped mb2 = mb_dropped mb1 + of_nat e" "mb_received mb2 = mb_received mb1"
    "mb_current_bytes mb2 = mb_current_bytes mb1 - sum_list (map (size_of msgs1 s1) (take e (drop d ks)))"
    "msgs2 = msgs1 |` (- set (take e (drop d ks)))" "\<forall>j \<in> set (drop e (drop d ks)). size_of msgs2 s2 j = size_of msgs1 s1 j"
    using assms(2) unfolding st sheds_def prod.case by blast+
  have sz: "map (size_of msgs1 s1) (take e (drop d ks)) = map (size_of msgs s) (take e (drop d ks))"
    by (rule map_cong) (use a(8) in \<open>auto dest: in_set_takeD\<close>)
  have "\<forall>j \<in> set (drop (d + e) ks). size_of msgs2 s2 j = size_of msgs s j"
    unfolding t using a(8) b(9) by (metis in_set_dropD)
  moreover have "msgs2 = msgs |` (- set (take (d + e) ks))"
    unfolding t b(8) a(7) by (auto simp: restrict_map_def)
  moreover have "mb_current_bytes mb2 = mb_current_bytes mb - sum_list (map (size_of msgs s) (take (d + e) ks))"
    unfolding t b(7) a(6) sz by (simp add: diff_diff_eq)
  moreover have "mail_ok R (drop (d + e) ks) (mb2, msgs2, s2)" unfolding t by (rule b(2))
  moreover have "d + e \<le> length ks" "mb_count mb2 = mb_count mb - of_nat (d + e)" "mb_dropped mb2 = mb_dropped mb + of_nat (d + e)"
    using a(1,2,4) b(1,3,5) by simp_all
  ultimately show ?thesis
    unfolding st sheds_def prod.case using a(3,5) b(4,6) by (simp only: simp_thms)
qed

lemma estimate_kept:
  assumes f: "message_free (Some i) msgs s = Some (msgs(i := None), s')" and ij: "i \<noteq> j" and m: "msgs j \<noteq> None"
    and o: "owns (mset (mail_values msgs [j]) + R) s'"
  shows "estimate_message_size j (msgs(i := None)) s' = estimate_message_size j msgs s"
proof -
  obtain mi mj where mi: "msgs i = Some mi" and mj: "msgs j = Some mj"
    using f m by (auto simp: message_free_def split: bind_splits)
  have fl: "free_item (msg_value mi) s = Some s'" using f mi by (auto simp: message_free_def split: bind_splits)
  show ?thesis
  proof (cases "msg_value mj")
    case None
    then show ?thesis using mj ij by (simp add: estimate_message_size_def)
  next
    case (Some a)
    have "\<exists>v. cell s' a = Some v" by (rule owns_live [OF o]) (simp add: mail_values_def mj Some)
    then obtain v' where v': "cell s' a = Some v'" by blast
    have "\<exists>v. cell s a = Some v \<and> v_as v = v_as v'"
      using fl v' free_loop_payload by (cases "msg_value mi") (auto simp: free_item_def value_free_def)
    then show ?thesis using mj ij Some v' by (auto simp: estimate_message_size_def)
  qed
qed

lemma drop_one:
  assumes ok: "mail_ok R (j # ks) (mb, msgs, s)"
  shows "\<exists>mb' s'. mailbox_drop_oldest (mb, msgs, s) = Some (True, mb', msgs(j := None), s')
    \<and> sheds R (j # ks) 1 (mb, msgs, s) (count_dropped mb', msgs(j := None), s')"
proof -
  have h: "holds mb (j # ks)" and d: "j \<notin> set ks" "distinct ks" and lv: "msgs j \<noteq> None" "\<forall>i \<in> set ks. msgs i \<noteq> None"
    and o: "owns (mset (mail_values msgs [j]) + (mset (mail_values msgs ks) + R)) s"
    using ok by (auto simp: mail_ok_def mail_values_Cons [of msgs j ks] mail_values_Cons [of msgs j "[]"] ac_simps)
  obtain mb1 where 1: "mailbox_pop mb = (Some (Msg j), mb1)" "holds mb1 ks" "mb_count mb1 = mb_count mb - 1"
    using pop_holds [OF h] by auto
  have st: "mb_stats mb1 = mb_stats mb" using pop_stats [of mb] 1(1) by simp
  obtain n where n: "estimate_message_size j msgs s = Some n" using estimate_defined [OF o lv(1)] by blast
  obtain s' where s': "message_free (Some j) msgs s = Some (msgs(j := None), s')" "owns (mset (mail_values msgs ks) + R) s'"
    using message_free_owns [OF o lv(1)] by blast
  let ?mb = "mb1\<lparr>mb_current_bytes := mb_current_bytes mb1 - n\<rparr>"
  have mv: "mail_values (msgs(j := None)) ks = mail_values msgs ks" using d(1) by (rule mail_values_upd)
  have "size_of (msgs(j := None)) s' i = size_of msgs s i" if i: "i \<in> set ks" for i
  proof -
    obtain us vs where "ks = us @ i # vs" using i by (meson split_list)
    then have "mset (mail_values msgs ks) = mset (mail_values msgs [i]) + mset (mail_values msgs (us @ vs))"
      by (cases "Option.bind (msgs i) msg_value") (simp_all add: mail_values_def)
    then have "owns (mset (mail_values msgs [i]) + (mset (mail_values msgs (us @ vs)) + R)) s'"
      using s'(2) by (simp add: ac_simps)
    then have "estimate_message_size i (msgs(j := None)) s' = estimate_message_size i msgs s"
      using d(1) lv(2) i by (intro estimate_kept [OF s'(1)]) auto
    then show ?thesis by (simp add: size_of_def)
  qed
  moreover have "holds (count_dropped ?mb) ks" using 1(2) holds_cong [of "count_dropped ?mb" mb1] by (simp add: count_dropped_def)
  moreover have "msgs |` (- {j}) = msgs(j := None)" by (auto simp: restrict_map_def)
  ultimately have "sheds R (j # ks) 1 (mb, msgs, s) (count_dropped ?mb, msgs(j := None), s')"
    using d lv(2) 1(3) st n s'(2) mv
    by (auto simp: sheds_def mail_ok_def mb_stats_def mb_limits_def count_dropped_def size_of_def)
  then show ?thesis using 1(1) n s'(1) by auto
qed

lemma drop_none: "mail_ok R [] (mb, msgs, s) \<Longrightarrow> mailbox_drop_oldest (mb, msgs, s) = Some (False, mb, msgs, s)"
  using pop_holds [of mb "[]"] by (simp add: mail_ok_def)

lemma drop_until_fits_ok:
  assumes "mail_ok R ks (mb, msgs, s)"
  shows "\<exists>d mb' msgs' s'. drop_until_fits n (mb, msgs, s) = Some (mb', msgs', s') \<and> sheds R ks d (mb, msgs, s) (mb', msgs', s')
    \<and> (mb_current_bytes mb' + n \<le> mb_max_bytes mb \<or> d = length ks)
    \<and> (\<forall>e < d. \<not> mb_current_bytes mb - sum_list (map (size_of msgs s) (take e ks)) + n \<le> mb_max_bytes mb)"
  using assms
proof (induction ks arbitrary: mb msgs s)
  case Nil
  show ?case
  proof (cases "mb_current_bytes mb + n \<le> mb_max_bytes mb")
    case True
    then show ?thesis using sheds_0 [OF Nil] by (subst drop_until_fits.simps) (auto intro!: exI [of _ 0])
  next
    case False
    then show ?thesis using sheds_0 [OF Nil] drop_none [OF Nil] by (subst drop_until_fits.simps) (auto intro!: exI [of _ 0])
  qed
next
  case (Cons j ks)
  show ?case
  proof (cases "mb_current_bytes mb + n \<le> mb_max_bytes mb")
    case True
    then show ?thesis using sheds_0 [OF Cons.prems] by (subst drop_until_fits.simps) (auto intro!: exI [of _ 0])
  next
    case False
    obtain mb1 s1 where 1: "mailbox_drop_oldest (mb, msgs, s) = Some (True, mb1, msgs(j := None), s1)"
      "sheds R (j # ks) 1 (mb, msgs, s) (count_dropped mb1, msgs(j := None), s1)"
      using drop_one [OF Cons.prems] by blast
    let ?mb = "count_dropped mb1"
    have ok1: "mail_ok R ks (?mb, msgs(j := None), s1)" and b1: "mb_current_bytes ?mb = mb_current_bytes mb - size_of msgs s j"
      and mx: "mb_max_bytes ?mb = mb_max_bytes mb" and sz: "\<forall>i \<in> set ks. size_of (msgs(j := None)) s1 i = size_of msgs s i"
      using 1(2) by (auto simp: sheds_def mb_limits_def)
    obtain d mb' msgs' s' where 2: "drop_until_fits n (?mb, msgs(j := None), s1) = Some (mb', msgs', s')"
      "sheds R ks d (?mb, msgs(j := None), s1) (mb', msgs', s')"
      "mb_current_bytes mb' + n \<le> mb_max_bytes mb \<or> d = length ks"
      "\<forall>e < d. \<not> mb_current_bytes ?mb - sum_list (map (size_of (msgs(j := None)) s1) (take e ks)) + n \<le> mb_max_bytes mb"
      using Cons.IH [OF ok1] unfolding mx by blast
    have "drop_until_fits n (mb, msgs, s) = Some (mb', msgs', s')"
      using False 1(1) 2(1) by (subst drop_until_fits.simps) simp
    moreover have "sheds R (j # ks) (1 + d) (mb, msgs, s) (mb', msgs', s')"
      by (rule sheds_trans [OF 1(2)]) (use 2(2) in simp)
    moreover have "\<not> mb_current_bytes mb - sum_list (map (size_of msgs s) (take e (j # ks))) + n \<le> mb_max_bytes mb" if "e < 1 + d" for e
    proof (cases e)
      case 0
      then show ?thesis using False by simp
    next
      case (Suc e')
      have eq: "map (size_of (msgs(j := None)) s1) (take e' ks) = map (size_of msgs s) (take e' ks)"
        using sz by (auto dest: in_set_takeD)
      have "\<not> mb_current_bytes mb - size_of msgs s j - sum_list (map (size_of msgs s) (take e' ks)) + n \<le> mb_max_bytes mb"
        using 2(4) [rule_format, of e'] that Suc unfolding b1 eq by simp
      then show ?thesis using Suc by (simp add: diff_diff_eq)
    qed
    ultimately show ?thesis using 2(3) by (intro exI [of _ "1 + d"] exI [of _ mb'] exI [of _ msgs'] exI [of _ s']) simp
  qed
qed

text \<open>The two limits: the mailbox has as many messages as it may have; so many bytes are allowed.\<close>

definition at_limit :: "Mailbox \<Rightarrow> bool" where
  "at_limit mb \<longleftrightarrow> 0 < mb_max_messages mb \<and> mb_max_messages mb \<le> mb_count mb"

definition fits :: "Mailbox \<Rightarrow> u64 \<Rightarrow> bool" where
  "fits mb bytes \<longleftrightarrow> mb_max_bytes mb = 0 \<or> bytes \<le> mb_max_bytes mb"

lemma fits_limits: "mb_limits mb' = mb_limits mb \<Longrightarrow> fits mb' = fits mb"
  by (simp add: fits_def mb_limits_def fun_eq_iff)

lemma limit_messages_refuse:
  "at_limit mb \<Longrightarrow> mb_policy mb \<noteq> OVERFLOW_DROP_OLD \<Longrightarrow>
    \<exists>r mb'. limit_messages (mb, msgs, s) = Some (Some r, mb', msgs, s) \<and> r \<noteq> SEND_OK \<and> (mb' = mb \<or> mb' = count_dropped mb)"
  by (cases "mb_policy mb") (simp_all add: at_limit_def)

lemma limit_messages_pass:
  assumes ok: "mail_ok R ks (mb, msgs, s)" and cnt: "unat (mb_count mb) = length ks"
    and p: "at_limit mb \<longrightarrow> mb_policy mb = OVERFLOW_DROP_OLD"
  shows "\<exists>mb' msgs' s'. limit_messages (mb, msgs, s) = Some (None, mb', msgs', s')
    \<and> sheds R ks (if at_limit mb then 1 else 0) (mb, msgs, s) (mb', msgs', s')"
proof (cases "at_limit mb")
  case True
  then have "0 < unat (mb_count mb)" by (simp add: at_limit_def word_le_nat_alt word_less_nat_alt)
  then obtain j js where ks: "ks = j # js" using cnt by (cases ks) auto
  show ?thesis using drop_one [OF ok [unfolded ks]] True p unfolding ks by (auto simp: at_limit_def)
next
  case False
  then have "limit_messages (mb, msgs, s) = Some (None, mb, msgs, s)" by (auto simp: at_limit_def)
  then show ?thesis using sheds_0 [OF ok] False by auto
qed

lemma limit_bytes_refuse:
  "\<not> fits mb (mb_current_bytes mb + n) \<Longrightarrow> mb_policy mb \<noteq> OVERFLOW_DROP_OLD \<Longrightarrow>
    \<exists>r mb'. limit_bytes n (mb, msgs, s) = Some (Some r, mb', msgs, s) \<and> r \<noteq> SEND_OK \<and> (mb' = mb \<or> mb' = count_dropped mb)"
  by (cases "mb_policy mb") (simp_all add: fits_def not_le word_gt_0)

lemma limit_bytes_pass:
  assumes ok: "mail_ok R ks (mb, msgs, s)" and p: "fits mb (mb_current_bytes mb + n) \<or> mb_policy mb = OVERFLOW_DROP_OLD"
  shows "\<exists>d mb' msgs' s'. limit_bytes n (mb, msgs, s) = Some (None, mb', msgs', s') \<and> sheds R ks d (mb, msgs, s) (mb', msgs', s')
    \<and> (fits mb (mb_current_bytes mb' + n) \<or> d = length ks) \<and> (fits mb (mb_current_bytes mb + n) \<longrightarrow> d = 0)
    \<and> (\<forall>e < d. \<not> fits mb (mb_current_bytes mb - sum_list (map (size_of msgs s) (take e ks)) + n))"
proof (cases "fits mb (mb_current_bytes mb + n)")
  case True
  then have "limit_bytes n (mb, msgs, s) = Some (None, mb, msgs, s)" by (auto simp: fits_def)
  then show ?thesis using sheds_0 [OF ok] True by (intro exI [of _ 0]) auto
next
  case False
  then have m: "0 < mb_max_bytes mb" "mb_max_bytes mb < mb_current_bytes mb + n" by (simp_all add: fits_def word_gt_0 not_le)
  then have "fits mb b \<longleftrightarrow> b \<le> mb_max_bytes mb" for b by (auto simp: fits_def)
  then show ?thesis using drop_until_fits_ok [OF ok, of n] m p False by fastforce
qed

lemma unat_minus_of_nat: "d \<le> unat w \<Longrightarrow> unat (w - of_nat d) = unat w - d" for w :: u64
proof -
  assume d: "d \<le> unat w"
  have "unat w < 2 ^ 64" using unsigned_less [of w] by simp
  then have u: "unat (of_nat d :: u64) = d" using d by (simp add: unsigned_of_nat take_bit_nat_eq_self)
  then have "of_nat d \<le> w" using d by (simp add: word_le_nat_alt)
  then show ?thesis using u by (simp add: unat_sub)
qed

lemma push_ex_refuse:
  assumes h: "holds mb ks" and b: "mb' = mb \<or> mb' = count_dropped mb"
  shows "holds mb' ks" "mb_count mb' = mb_count mb" "mb_current_bytes mb' = mb_current_bytes mb"
  using b h holds_cong [of "count_dropped mb" mb] by (auto simp: count_dropped_def)

lemma push_ex_accept:
  assumes sh: "sheds (mset (mail_values msgs [k]) + R) ks d (mb, msgs, s) (mb1, msgs1, s1)"
    and k: "k \<notin> set ks" "distinct ks" and cnt: "unat (mb_count mb) = length ks" "Suc (length ks) < 2 ^ 64"
    and lim: "0 < mb_max_messages mb \<longrightarrow> mb_count mb \<le> mb_max_messages mb" "at_limit mb \<longrightarrow> 0 < d"
    and mb'_def: "mb' = push_accepted k n mb1" and ks'_def: "ks' = drop d ks @ [k]"
  shows "holds mb' ks'" "unat (mb_count mb') = length ks'" "0 < mb_max_messages mb \<longrightarrow> mb_count mb' \<le> mb_max_messages mb"
    "owns (mset (mail_values msgs1 ks') + R) s1"
    "mb_current_bytes mb' = mb_current_bytes mb - sum_list (map (size_of msgs s) (take d ks)) + n"
proof -
  have a: "d \<le> length ks" "holds mb1 (drop d ks)" "mb_count mb1 = mb_count mb - of_nat d"
    "mb_current_bytes mb1 = mb_current_bytes mb - sum_list (map (size_of msgs s) (take d ks))"
    "msgs1 = msgs |` (- set (take d ks))" "owns (mset (mail_values msgs1 (drop d ks)) + (mset (mail_values msgs [k]) + R)) s1"
    using sh unfolding sheds_def mail_ok_def prod.case by blast+
  have kd: "k \<notin> set (drop d ks)" "k \<notin> set (take d ks)" using k(1) by (auto dest: in_set_dropD in_set_takeD)
  show "holds mb' ks'" unfolding mb'_def ks'_def by (rule accept_holds [OF a(2) kd(1)])
  have c: "mb_count mb' = mb_count mb1 + 1" unfolding mb'_def by (rule accept_holds(2) [OF a(2) kd(1)])
  have u1: "unat (mb_count mb1) = length ks - d" unfolding a(3) using a(1) cnt(1) by (simp add: unat_minus_of_nat)
  then have u: "unat (mb_count mb') = Suc (length ks - d)"
    unfolding c using cnt(2) by (simp add: unat_word_ariths(1))
  then show "unat (mb_count mb') = length ks'" by (simp add: ks'_def)
  show "0 < mb_max_messages mb \<longrightarrow> mb_count mb' \<le> mb_max_messages mb"
    using u lim a(1) cnt(1) by (auto simp: at_limit_def word_le_nat_alt not_le)
  have "mail_values msgs1 [k] = mail_values msgs [k]" using kd(2) unfolding a(5) by (simp add: mail_values_def)
  then show "owns (mset (mail_values msgs1 ks') + R) s1"
    using a(6) unfolding ks'_def by (simp add: mail_values_snoc mail_values_Cons [of _ k "[]"] ac_simps)
  show "mb_current_bytes mb' = mb_current_bytes mb - sum_list (map (size_of msgs s) (take d ks)) + n"
    unfolding mb'_def a(4) [symmetric] by (simp add: push_accepted_def push_exchange_def push_link_def push_count_def)
qed

lemma push_ex_cases:
  assumes ok: "mail_ok R ks (mb, msgs, s)" and n: "estimate_message_size k msgs s = Some n" and cnt: "unat (mb_count mb) = length ks"
  defines "bytes \<equiv> \<lambda>e. mb_current_bytes mb - sum_list (map (size_of msgs s) (take e ks))"
  obtains (refuse) r mb' where "mailbox_push_ex (Some k) (mb, msgs, s) = Some (r, mb', msgs, s)" "r \<noteq> SEND_OK"
      "mb' = mb \<or> mb' = count_dropped mb" "mb_policy mb \<noteq> OVERFLOW_DROP_OLD"
      "\<not> (\<not> at_limit mb \<and> fits mb (mb_current_bytes mb + n))"
    | (accept) d mb1 msgs1 s1 where "mailbox_push_ex (Some k) (mb, msgs, s) = Some (SEND_OK, push_accepted k n mb1, msgs1, s1)"
      "sheds R ks d (mb, msgs, s) (mb1, msgs1, s1)" "at_limit mb \<longrightarrow> 0 < d" "fits mb (bytes d + n) \<or> d = length ks"
      "\<forall>e < d. at_limit mb \<and> e = 0 \<or> \<not> fits mb (bytes e + n)"
      "mb_policy mb \<noteq> OVERFLOW_DROP_OLD \<longrightarrow> d = 0 \<and> \<not> at_limit mb \<and> fits mb (mb_current_bytes mb + n)"
proof (cases "at_limit mb \<and> mb_policy mb \<noteq> OVERFLOW_DROP_OLD")
  case True
  then obtain r mb' where "limit_messages (mb, msgs, s) = Some (Some r, mb', msgs, s)" "r \<noteq> SEND_OK" "mb' = mb \<or> mb' = count_dropped mb"
    using limit_messages_refuse by metis
  moreover from this(1) have "mailbox_push_ex (Some k) (mb, msgs, s) = Some (r, mb', msgs, s)"
    using n by (simp del: limit_messages.simps)
  ultimately show thesis using refuse True by blast
next
  case False
  let ?d = "if at_limit mb then 1 else 0 :: nat"
  obtain mb1 msgs1 s1 where 1: "limit_messages (mb, msgs, s) = Some (None, mb1, msgs1, s1)"
    "sheds R ks ?d (mb, msgs, s) (mb1, msgs1, s1)"
    using limit_messages_pass [OF ok cnt] False by blast
  have ok1: "mail_ok R (drop ?d ks) (mb1, msgs1, s1)" and lm: "mb_limits mb1 = mb_limits mb" and len: "?d \<le> length ks"
    and b1: "mb_current_bytes mb1 = bytes ?d" and sz: "\<forall>j \<in> set (drop ?d ks). size_of msgs1 s1 j = size_of msgs s j"
    using 1(2) unfolding sheds_def prod.case bytes_def by blast+
  have ft: "fits mb1 = fits mb" "mb_policy mb1 = mb_policy mb" using fits_limits [OF lm] lm by (simp_all add: mb_limits_def)
  have b0: "bytes 0 = mb_current_bytes mb" by (simp add: bytes_def)
  show thesis
  proof (cases "fits mb1 (mb_current_bytes mb1 + n) \<or> mb_policy mb1 = OVERFLOW_DROP_OLD")
    case False
    then obtain r mb' where r: "limit_bytes n (mb1, msgs1, s1) = Some (Some r, mb', msgs1, s1)" "r \<noteq> SEND_OK" "mb' = mb1 \<or> mb' = count_dropped mb1"
      using limit_bytes_refuse by metis
    have na: "\<not> at_limit mb" using False ft \<open>\<not> (at_limit mb \<and> _)\<close> by auto
    then have e: "mb1 = mb" "msgs1 = msgs" "s1 = s" using 1(1) by (auto simp: at_limit_def split: if_splits)
    have "mailbox_push_ex (Some k) (mb, msgs, s) = Some (r, mb', msgs, s)"
      using n 1(1) r(1) unfolding e by (simp del: limit_messages.simps limit_bytes.simps)
    then show thesis using refuse r(2,3) False unfolding e by blast
  next
    case True
    obtain d mb' msgs' s' where 2: "limit_bytes n (mb1, msgs1, s1) = Some (None, mb', msgs', s')"
      "sheds R (drop ?d ks) d (mb1, msgs1, s1) (mb', msgs', s')"
      "fits mb (mb_current_bytes mb' + n) \<or> d = length (drop ?d ks)" "fits mb (mb_current_bytes mb1 + n) \<longrightarrow> d = 0"
      "\<forall>e < d. \<not> fits mb (mb_current_bytes mb1 - sum_list (map (size_of msgs1 s1) (take e (drop ?d ks))) + n)"
      using limit_bytes_pass [OF ok1 True] unfolding ft by blast
    have run: "mailbox_push_ex (Some k) (mb, msgs, s) = Some (SEND_OK, push_accepted k n mb', msgs', s')"
      using n 1(1) 2(1) by (simp del: limit_messages.simps limit_bytes.simps)
    have sh: "sheds R ks (?d + d) (mb, msgs, s) (mb', msgs', s')" by (rule sheds_trans [OF 1(2) 2(2)])
    have bt: "mb_current_bytes mb1 - sum_list (map (size_of msgs1 s1) (take e (drop ?d ks))) = bytes (?d + e)" for e
    proof -
      have eq: "map (size_of msgs1 s1) (take e (drop ?d ks)) = map (size_of msgs s) (take e (drop ?d ks))"
        by (rule map_cong) (use sz in \<open>auto dest: in_set_takeD\<close>)
      show ?thesis unfolding eq b1 bytes_def take_add by (simp add: diff_diff_eq)
    qed
    have "fits mb (bytes (?d + d) + n) \<or> ?d + d = length ks"
      using 2(3) len sh unfolding sheds_def prod.case bytes_def by auto
    moreover have "at_limit mb \<and> e = 0 \<or> \<not> fits mb (bytes e + n)" if "e < ?d + d" for e
      using 2(5) [unfolded bt, rule_format, of "e - ?d"] that by (cases "at_limit mb"; cases e) auto
    moreover have "mb_policy mb \<noteq> OVERFLOW_DROP_OLD \<longrightarrow> ?d + d = 0 \<and> \<not> at_limit mb \<and> fits mb (mb_current_bytes mb + n)"
      using True False ft 2(4) b1 b0 by auto
    ultimately show thesis using run sh by (intro accept [of mb' msgs' s' "?d + d"]) auto
  qed
qed

text \<open>
  C5. A push respects both limits under every overflow policy. On a mailbox whose counter is exact
  and within the message limit (if there is one), whatever the byte counter says, a push returns
  without touching freed memory and leaves the counter exact and within the limit, the reference
  counts exact, and a refused message with the caller and out of the queue. Under the three
  policies that do not drop, the queue keeps its messages, and the new one is accepted exactly when
  the mailbox is below the message limit and the byte counter plus the size of the message is
  within the byte limit. Under \<^verbatim>\<open>OVERFLOW_DROP_OLD\<close> the message is always accepted; the messages
  dropped are the oldest \<open>d\<close>, at least one at the message limit, no more than needed to get the
  byte counter within the byte limit, and enough for it unless the whole queue was dropped. The
  byte counter loses the sizes of the dropped messages and gains that of the new one.
\<close>

theorem mailbox_push_ex_bounded:
  assumes h: "holds mb ks" and cnt: "unat (mb_count mb) = length ks" "Suc (length ks) < 2 ^ 64"
    and k: "k \<notin> set ks" "distinct ks"
    and mx: "0 < mb_max_messages mb \<longrightarrow> mb_count mb \<le> mb_max_messages mb"
    and live: "\<forall>j \<in> set (k # ks). msgs j \<noteq> None" and o: "owns (mset (mail_values msgs (k # ks)) + R) s"
  shows "\<exists>n r d mb' msgs' s'. estimate_message_size k msgs s = Some n
    \<and> mailbox_push_ex (Some k) (mb, msgs, s) = Some (r, mb', msgs', s') \<and> d \<le> length ks
    \<and> (let ks' = drop d ks @ (if r = SEND_OK then [k] else []);
           bytes = (\<lambda>e. mb_current_bytes mb - sum_list (map (size_of msgs s) (take e ks)) + n)
       in holds mb' ks' \<and> unat (mb_count mb') = length ks'
        \<and> (0 < mb_max_messages mb \<longrightarrow> mb_count mb' \<le> mb_max_messages mb)
        \<and> owns (mset (mail_values msgs' (if r = SEND_OK then ks' else k # ks')) + R) s'
        \<and> mb_current_bytes mb' = (if r = SEND_OK then bytes d else mb_current_bytes mb)
        \<and> (if mb_policy mb = OVERFLOW_DROP_OLD
           then r = SEND_OK \<and> (at_limit mb \<longrightarrow> 0 < d) \<and> (fits mb (bytes d) \<or> d = length ks)
              \<and> (\<forall>e < d. at_limit mb \<and> e = 0 \<or> \<not> fits mb (bytes e))
           else d = 0 \<and> (r = SEND_OK \<longleftrightarrow> \<not> at_limit mb \<and> fits mb (bytes 0))))"
proof -
  let ?R = "mset (mail_values msgs [k]) + R"
  let ?bytes = "\<lambda>e. mb_current_bytes mb - sum_list (map (size_of msgs s) (take e ks))"
  have "owns (mset (mail_values msgs [k]) + (mset (mail_values msgs ks) + R)) s"
    using o by (simp add: mail_values_Cons ac_simps)
  then obtain n where n: "estimate_message_size k msgs s = Some n"
    using estimate_defined live by (metis list.set_intros(1))
  have ok: "mail_ok ?R ks (mb, msgs, s)"
    using h k live o by (simp add: mail_ok_def mail_values_Cons [of msgs k ks] mail_values_Cons [of msgs k "[]"] ac_simps)
  consider (refuse) r mb' where "mailbox_push_ex (Some k) (mb, msgs, s) = Some (r, mb', msgs, s)" "r \<noteq> SEND_OK"
      "mb' = mb \<or> mb' = count_dropped mb" "mb_policy mb \<noteq> OVERFLOW_DROP_OLD"
      "\<not> (\<not> at_limit mb \<and> fits mb (mb_current_bytes mb + n))"
    | (accept) d mb1 msgs1 s1 where "mailbox_push_ex (Some k) (mb, msgs, s) = Some (SEND_OK, push_accepted k n mb1, msgs1, s1)"
      "sheds ?R ks d (mb, msgs, s) (mb1, msgs1, s1)" "at_limit mb \<longrightarrow> 0 < d" "fits mb (?bytes d + n) \<or> d = length ks"
      "\<forall>e < d. at_limit mb \<and> e = 0 \<or> \<not> fits mb (?bytes e + n)"
      "mb_policy mb \<noteq> OVERFLOW_DROP_OLD \<longrightarrow> d = 0 \<and> \<not> at_limit mb \<and> fits mb (mb_current_bytes mb + n)"
    by (rule push_ex_cases [OF ok n cnt(1)])
  then show ?thesis
  proof cases
    case refuse
    have "owns (mset (mail_values msgs (k # ks)) + R) s" by (rule o)
    then show ?thesis
      using refuse n push_ex_refuse [OF h refuse(3)] cnt(1) mx
      by (intro exI [of _ n] exI [of _ r] exI [of _ 0] exI [of _ mb'] exI [of _ msgs] exI [of _ s]) (simp add: Let_def)
  next
    case (accept d mb1 msgs1 s1)
    have "d \<le> length ks" using accept(2) by (simp add: sheds_def)
    then show ?thesis
      using accept n push_ex_accept [OF accept(2) k cnt mx accept(3) refl [of "push_accepted k n mb1"] refl]
      by (intro exI [of _ n] exI [of _ SEND_OK] exI [of _ d] exI [of _ "push_accepted k n mb1"] exI [of _ msgs1] exI [of _ s1])
        (simp add: Let_def)
  qed
qed

text \<open>A mailbox with a message of 56 bytes and room for 60; the next message has 24.\<close>

definition tight_box :: Mailbox where
  "tight_box = (mb_enq 1 mailbox_init)\<lparr>mb_max_messages := 5, mb_max_bytes := 60, mb_current_bytes := 56,
     mb_policy := OVERFLOW_DROP_OLD\<rparr>"

definition two_messages :: messages where
  "two_messages = [1 \<mapsto> \<lparr>msg_sender = 7, msg_value = Some 0\<rparr>, 2 \<mapsto> \<lparr>msg_sender = 7, msg_value = None\<rparr>]"

definition one_value :: store where
  "one_value = store_of [fresh_value 0 (VInt 5)]"

lemma tight_box_facts:
  "holds tight_box [1]" "mb_count tight_box = 1" "mb_max_messages tight_box = 5" "mb_max_bytes tight_box = 60"
  "mb_current_bytes tight_box = 56" "mb_policy tight_box = OVERFLOW_DROP_OLD"
  "estimate_message_size 1 two_messages one_value = Some 56" "estimate_message_size 2 two_messages one_value = Some 24"
  "owns (mset (mail_values two_messages [2, 1]) + {#}) one_value"
proof -
  show "holds tight_box [1]"
    using mbq.rep_enq [OF holds_init, of 1] holds_cong [of tight_box "mb_enq 1 mailbox_init"] by (simp add: tight_box_def)
  show "owns (mset (mail_values two_messages [2, 1]) + {#}) one_value"
    unfolding one_value_def by (rule owns_store_of) (simp_all add: store_eval mail_values_def two_messages_def)
qed (simp_all add: tight_box_def mb_enq_def mailbox_push_def push_exchange_def push_link_def push_count_def mailbox_init_def
    estimate_message_size_def two_messages_def one_value_def cell_store_of fresh_value_def sizeof_Message_def sizeof_Value_def)

theorem mailbox_push_ex_bounded_witness:
  "\<exists>mb' msgs' s'. mailbox_push_ex (Some 2) (tight_box, two_messages, one_value) = Some (SEND_OK, mb', msgs', s')
    \<and> holds mb' [2] \<and> mb_current_bytes mb' = 24"
proof -
  note f = tight_box_facts
  have k: "(2 :: nat) \<notin> set [1]" "distinct [1 :: nat]" "unat (mb_count tight_box) = length [1 :: nat]"
    "0 < mb_max_messages tight_box \<longrightarrow> mb_count tight_box \<le> mb_max_messages tight_box"
    "\<forall>j \<in> set [2, 1]. two_messages j \<noteq> None"
    by (simp_all add: f two_messages_def)
  have sz: "size_of two_messages one_value (Suc 0) = 56" using f(7) by (simp add: size_of_def)
  have "\<exists>r d mb' msgs' s'. mailbox_push_ex (Some 2) (tight_box, two_messages, one_value) = Some (r, mb', msgs', s') \<and> d \<le> 1
      \<and> r = SEND_OK \<and> holds mb' (drop d [1] @ [2]) \<and> (fits tight_box (56 - sum_list (map (size_of two_messages one_value) (take d [1])) + 24) \<or> d = 1)
      \<and> mb_current_bytes mb' = 56 - sum_list (map (size_of two_messages one_value) (take d [1])) + 24"
    using mailbox_push_ex_bounded [OF f(1) k(3) _ k(1,2,4,5) f(9)] by (simp add: f Let_def del: mailbox_push_ex.simps) blast
  then obtain r d mb' msgs' s' where r: "mailbox_push_ex (Some 2) (tight_box, two_messages, one_value) = Some (SEND_OK, mb', msgs', s')"
      "d \<le> 1" "holds mb' (drop d [1] @ [2])" "fits tight_box (56 - sum_list (map (size_of two_messages one_value) (take d [1])) + 24) \<or> d = 1"
      "mb_current_bytes mb' = 56 - sum_list (map (size_of two_messages one_value) (take d [1])) + 24" by blast
  have "d = 1" using r(2,4) by (cases d) (simp_all add: fits_def f)
  then show ?thesis using r(1,3,5) sz by simp
qed

text \<open>
  C12. The byte limit counts messages that are gone: \<^verbatim>\<open>mailbox_pop\<close>, and so \<^verbatim>\<open>mailbox_receive\<close>, never
  subtracts the size of the message it takes. However many messages are taken out of a mailbox with
  a byte limit and a policy that does not drop, the byte counter stays where it was, and a message
  that did not fit before is still refused: also when everything was received and the mailbox is
  empty.
\<close>

theorem mailbox_bytes_leak:
  assumes "holds mb ks" and "estimate_message_size k msgs s = Some n"
    and "0 < mb_max_bytes mb" and "mb_max_bytes mb < mb_current_bytes mb + n" and "mb_policy mb \<noteq> OVERFLOW_DROP_OLD"
    and "mb' = ((\<lambda>mb. snd (mailbox_pop mb)) ^^ j) mb"
  shows "holds mb' (drop j ks) \<and> mailbox_bytes_used mb' = mailbox_bytes_used mb
    \<and> mailbox_bytes_used (snd (mailbox_receive [] mb')) = mailbox_bytes_used mb
    \<and> (\<exists>r st. mailbox_push_ex (Some k) (mb', msgs, s) = Some (r, st) \<and> r \<noteq> SEND_OK)"
proof -
  have st: "mb_stats (((\<lambda>mb. snd (mailbox_pop mb)) ^^ i) mb) = mb_stats mb
      \<and> holds (((\<lambda>mb. snd (mailbox_pop mb)) ^^ i) mb) (drop i ks)" for i
  proof (induction i)
    case (Suc i)
    let ?m = "((\<lambda>mb. snd (mailbox_pop mb)) ^^ i) mb"
    have "holds (snd (mailbox_pop ?m)) (tl (drop i ks))"
      using pop_holds [of ?m "drop i ks"] Suc by (cases "drop i ks") auto
    then show ?case using Suc pop_stats [of ?m] by (simp add: drop_Suc drop_tl)
  qed (use assms(1) in simp)
  have "mb_stats (snd (mailbox_receive [] mb')) = mb_stats mb'"
    using pop_stats [of mb'] pop_stats [of "snd (mailbox_pop mb')"]
    by (auto simp: mailbox_receive_def receive_loop.simps [of "[]"] split: prod.splits option.splits)
  moreover have f: "mb_current_bytes mb' = mb_current_bytes mb" "mb_max_bytes mb' = mb_max_bytes mb" "mb_policy mb' = mb_policy mb"
    using st [of j] assms(6) by (simp_all add: mb_stats_def mb_limits_def)
  moreover have "\<exists>r st. mailbox_push_ex (Some k) (mb', msgs, s) = Some (r, st) \<and> r \<noteq> SEND_OK"
    using assms(2-5) f by (cases "mb_policy mb") simp_all
  ultimately show ?thesis using st [of j] assms(6) by (simp add: mailbox_bytes_used_def mb_stats_def)
qed

theorem mailbox_bytes_leak_witness:
  "let mb = mailbox_set_overflow_policy tight_box OVERFLOW_DROP_NEW; mb' = snd (mailbox_pop mb)
   in holds mb' [] \<and> mailbox_bytes_used mb' = 56
    \<and> (\<exists>r st. mailbox_push_ex (Some 2) (mb', two_messages, one_value) = Some (r, st) \<and> r \<noteq> SEND_OK)"
proof -
  let ?mb = "mailbox_set_overflow_policy tight_box OVERFLOW_DROP_NEW"
  note f = tight_box_facts
  have "holds ?mb [1]" using f(1) holds_cong [of ?mb tight_box] by (simp add: mailbox_set_overflow_policy_def)
  moreover have "0 < mb_max_bytes ?mb" "mb_max_bytes ?mb < mb_current_bytes ?mb + 24" "mb_policy ?mb \<noteq> OVERFLOW_DROP_OLD"
    "mailbox_bytes_used ?mb = 56"
    by (simp_all add: mailbox_set_overflow_policy_def mailbox_bytes_used_def f)
  ultimately show ?thesis using mailbox_bytes_leak [of ?mb "[1]" 2 two_messages one_value 24 _ 1] f(8) by (simp add: Let_def)
qed

end
