(* ===== verification/Timer.thy ===== *)
theory Timer
  imports Prelude "HOL-Library.Monad_Syntax"
begin

text \<open>
  The timer wheel of \<^verbatim>\<open>runtime/timer.c\<close>, pointer by pointer: timer entries live at addresses, the
  buckets are doubly linked lists through their \<^verbatim>\<open>next\<close> and \<^verbatim>\<open>prev\<close> fields, and cancelled
  entries wait in a free list. \<open>None\<close> is undefined behaviour: a null or dangling pointer, a bucket
  outside the array, a division by zero. Every operation runs under the wheel's lock and is one
  step; the compare-and-exchange loop of \<^verbatim>\<open>timer_add\<close> therefore stores at once. The wall clock and
  the allocator are arguments.
\<close>

subsection \<open>Data\<close>

record TimerEntry =
  te_block_pid :: u64
  te_deadline_ms :: u64
  te_callback :: nat
  te_callback_ctx :: nat
  te_next :: "nat option"
  te_prev :: "nat option"
  te_cancelled :: bool
  te_slot :: u64

record TimerBucket =
  tb_head :: "nat option"
  tb_tail :: "nat option"

record TimerConfig =
  cfg_wheel_size :: u64
  cfg_tick_ms :: u64

record TimerWheel =
  tw_size :: u64
  tw_tick :: u64
  tw_buckets :: "TimerBucket list"
  tw_slot :: u64
  tw_time :: u64
  tw_free :: "nat option"
  tw_allocated :: u64
  tw_min :: u64
  tw_entries :: "nat \<Rightarrow> TimerEntry option"

definition timer_config_default :: TimerConfig where
  "timer_config_default = \<lparr>cfg_wheel_size = 256, cfg_tick_ms = 10\<rparr>"

definition empty_bucket :: TimerBucket where
  "empty_bucket = \<lparr>tb_head = None, tb_tail = None\<rparr>"

definition zero_entry :: TimerEntry where
  "zero_entry = \<lparr>te_block_pid = 0, te_deadline_ms = 0, te_callback = 0, te_callback_ctx = 0,
     te_next = None, te_prev = None, te_cancelled = False, te_slot = 0\<rparr>"

text \<open>A field update through a pointer.\<close>

definition upd_entry :: "nat \<Rightarrow> (TimerEntry \<Rightarrow> TimerEntry) \<Rightarrow> TimerWheel \<Rightarrow> TimerWheel option" where
  "upd_entry e f w =
     (case tw_entries w e of None \<Rightarrow> None
      | Some r \<Rightarrow> Some (w\<lparr>tw_entries := (tw_entries w)(e \<mapsto> f r)\<rparr>))"

definition upd_bucket :: "nat \<Rightarrow> (TimerBucket \<Rightarrow> TimerBucket) \<Rightarrow> TimerWheel \<Rightarrow> TimerWheel option" where
  "upd_bucket i f w =
     (if i < length (tw_buckets w)
      then Some (w\<lparr>tw_buckets := (tw_buckets w)[i := f (tw_buckets w ! i)]\<rparr>) else None)"

definition bucket_at :: "nat \<Rightarrow> TimerWheel \<Rightarrow> TimerBucket option" where
  "bucket_at i w = (if i < length (tw_buckets w) then Some (tw_buckets w ! i) else None)"

text \<open>\<^verbatim>\<open>n % wheel_size\<close> and \<^verbatim>\<open>n / tick_ms\<close>, undefined for a zero divisor.\<close>

definition checked_mod :: "u64 \<Rightarrow> u64 \<Rightarrow> u64 option" where
  "checked_mod n d = (if d = 0 then None else Some (n mod d))"

definition checked_div :: "u64 \<Rightarrow> u64 \<Rightarrow> u64 option" where
  "checked_div n d = (if d = 0 then None else Some (n div d))"

abbreviation UINT64_MAX :: u64 where "UINT64_MAX \<equiv> - 1"

subsection \<open>Entries and buckets\<close>

definition timer_entry_alloc :: "nat option \<Rightarrow> TimerWheel \<Rightarrow> (nat option \<times> TimerWheel) option" where
  "timer_entry_alloc mem w =
     (case tw_free w of
        Some e \<Rightarrow> do {
          r \<leftarrow> tw_entries w e;
          Some (Some e, w\<lparr>tw_free := te_next r, tw_entries := (tw_entries w)(e \<mapsto> zero_entry)\<rparr>)}
      | None \<Rightarrow>
          (case mem of None \<Rightarrow> Some (None, w)
           | Some e \<Rightarrow> Some (Some e, w\<lparr>tw_entries := (tw_entries w)(e \<mapsto> zero_entry),
                                     tw_allocated := tw_allocated w + 1\<rparr>)))"

definition timer_entry_free :: "nat \<Rightarrow> TimerWheel \<Rightarrow> TimerWheel option" where
  "timer_entry_free e w = do {
     w \<leftarrow> upd_entry e (\<lambda>r. r\<lparr>te_next := tw_free w, te_prev := None, te_cancelled := False\<rparr>) w;
     Some (w\<lparr>tw_free := Some e\<rparr>)}"

definition bucket_add :: "nat \<Rightarrow> nat \<Rightarrow> TimerWheel \<Rightarrow> TimerWheel option" where
  "bucket_add i e w = do {
     b \<leftarrow> bucket_at i w;
     w \<leftarrow> upd_entry e (\<lambda>r. r\<lparr>te_prev := tb_tail b, te_next := None\<rparr>) w;
     w \<leftarrow> (case tb_tail b of
             Some t \<Rightarrow> upd_entry t (\<lambda>r. r\<lparr>te_next := Some e\<rparr>) w
           | None \<Rightarrow> upd_bucket i (\<lambda>b. b\<lparr>tb_head := Some e\<rparr>) w);
     upd_bucket i (\<lambda>b. b\<lparr>tb_tail := Some e\<rparr>) w}"

definition bucket_remove :: "nat \<Rightarrow> nat \<Rightarrow> TimerWheel \<Rightarrow> TimerWheel option" where
  "bucket_remove i e w = do {
     r \<leftarrow> tw_entries w e;
     w \<leftarrow> (case te_prev r of
             Some p \<Rightarrow> upd_entry p (\<lambda>q. q\<lparr>te_next := te_next r\<rparr>) w
           | None \<Rightarrow> upd_bucket i (\<lambda>b. b\<lparr>tb_head := te_next r\<rparr>) w);
     w \<leftarrow> (case te_next r of
             Some n \<Rightarrow> upd_entry n (\<lambda>q. q\<lparr>te_prev := te_prev r\<rparr>) w
           | None \<Rightarrow> upd_bucket i (\<lambda>b. b\<lparr>tb_tail := te_prev r\<rparr>) w);
     upd_entry e (\<lambda>q. q\<lparr>te_next := None, te_prev := None\<rparr>) w}"

subsection \<open>Creation and destruction\<close>

text \<open>
  \<open>mem\<close> and \<open>bmem\<close> say whether the two allocations succeed; \<open>now\<close> is the clock. The last component
  of the destroyed wheel is the memory that is left: what \<^verbatim>\<open>free\<close> was not called for.
\<close>

definition timer_wheel_new :: "bool \<Rightarrow> bool \<Rightarrow> u64 \<Rightarrow> TimerConfig option \<Rightarrow> TimerWheel option" where
  "timer_wheel_new mem bmem now config =
     (if \<not> mem then None
      else let cfg = (case config of Some c \<Rightarrow> c | None \<Rightarrow> timer_config_default)
           in if \<not> bmem then None
              else Some \<lparr>tw_size = cfg_wheel_size cfg, tw_tick = cfg_tick_ms cfg,
                     tw_buckets = replicate (unat (cfg_wheel_size cfg)) empty_bucket,
                     tw_slot = 0, tw_time = now, tw_free = None, tw_allocated = 0, tw_min = 0,
                     tw_entries = Map.empty\<rparr>)"

partial_function (option) free_entries ::
  "nat option \<Rightarrow> (nat \<Rightarrow> TimerEntry option) \<Rightarrow> (nat \<Rightarrow> TimerEntry option) option" where
  "free_entries entry h =
     (case entry of None \<Rightarrow> Some h
      | Some e \<Rightarrow> do {
          r \<leftarrow> h e;
          free_entries (te_next r) (h(e := None))})"

primrec free_buckets ::
  "TimerBucket list \<Rightarrow> (nat \<Rightarrow> TimerEntry option) \<Rightarrow> (nat \<Rightarrow> TimerEntry option) option" where
  "free_buckets [] h = Some h"
| "free_buckets (b # bs) h = do {h \<leftarrow> free_entries (tb_head b) h; free_buckets bs h}"

definition timer_wheel_free :: "TimerWheel \<Rightarrow> (nat \<Rightarrow> TimerEntry option) option" where
  "timer_wheel_free w = do {
     h \<leftarrow> free_buckets (tw_buckets w) (tw_entries w);
     free_entries (tw_free w) h}"

subsection \<open>Adding and cancelling\<close>

definition timer_add ::
  "nat option \<Rightarrow> u64 \<Rightarrow> u64 \<Rightarrow> u64 \<Rightarrow> nat \<Rightarrow> nat \<Rightarrow> TimerWheel \<Rightarrow> (nat option \<times> TimerWheel) option" where
  "timer_add mem now block_pid timeout_ms callback ctx w = do {
     (entry, w) \<leftarrow> timer_entry_alloc mem w;
     (case entry of None \<Rightarrow> Some (None, w)
      | Some e \<Rightarrow> do {
          let deadline = (if UINT64_MAX - now < timeout_ms then UINT64_MAX else now + timeout_ms);
          ticks \<leftarrow> checked_div timeout_ms (tw_tick w);
          let ticks = (if ticks = 0 then 1 else ticks);
          slot \<leftarrow> checked_mod (tw_slot w + ticks) (tw_size w);
          w \<leftarrow> upd_entry e (\<lambda>r. r\<lparr>te_block_pid := block_pid, te_callback := callback,
                 te_callback_ctx := ctx, te_cancelled := False, te_deadline_ms := deadline,
                 te_slot := slot\<rparr>) w;
          w \<leftarrow> bucket_add (unat slot) e w;
          Some (Some e, if tw_min w = 0 \<or> deadline < tw_min w then w\<lparr>tw_min := deadline\<rparr> else w)})}"

definition timer_cancel :: "nat option \<Rightarrow> TimerWheel \<Rightarrow> (bool \<times> TimerWheel) option" where
  "timer_cancel entry w =
     (case entry of None \<Rightarrow> Some (False, w)
      | Some e \<Rightarrow> do {
          r \<leftarrow> tw_entries w e;
          if te_cancelled r then Some (False, w)
          else do {
            w \<leftarrow> upd_entry e (\<lambda>r. r\<lparr>te_cancelled := True\<rparr>) w;
            if te_slot r < tw_size w
            then do {
              w \<leftarrow> bucket_remove (unat (te_slot r)) e w;
              w \<leftarrow> timer_entry_free e w;
              Some (True, w)}
            else Some (True, w)}})"

subsection \<open>Ticking\<close>

text \<open>The local variables of \<^verbatim>\<open>timer_tick\<close>: the list of fired entries, its length, and the minimum.\<close>

record tick_locals =
  fired_head :: "nat option"
  fired_tail :: "nat option"
  fired_count :: u64
  new_min_deadline :: u64
  found_pending :: bool

definition track_min :: "u64 \<Rightarrow> tick_locals \<Rightarrow> tick_locals" where
  "track_min d l =
     (if \<not> found_pending l \<or> d < new_min_deadline l
      then l\<lparr>new_min_deadline := d, found_pending := True\<rparr> else l)"

definition fire_entry :: "nat \<Rightarrow> tick_locals \<times> TimerWheel \<Rightarrow> (tick_locals \<times> TimerWheel) option" where
  "fire_entry e = (\<lambda>(l, w). do {
     w \<leftarrow> bucket_remove (unat (tw_slot w)) e w;
     w \<leftarrow> upd_entry e (\<lambda>r. r\<lparr>te_next := None, te_prev := fired_tail l\<rparr>) w;
     (l, w) \<leftarrow> (case fired_tail l of
                 Some t \<Rightarrow> do {w \<leftarrow> upd_entry t (\<lambda>r. r\<lparr>te_next := Some e\<rparr>) w; Some (l, w)}
               | None \<Rightarrow> Some (l\<lparr>fired_head := Some e\<rparr>, w));
     Some (l\<lparr>fired_tail := Some e, fired_count := fired_count l + 1\<rparr>, w)})"

definition move_entry ::
  "u64 \<Rightarrow> nat \<Rightarrow> TimerEntry \<Rightarrow> tick_locals \<times> TimerWheel \<Rightarrow> (tick_locals \<times> TimerWheel) option" where
  "move_entry now e r = (\<lambda>(l, w). do {
     ticks_remaining \<leftarrow> checked_div (te_deadline_ms r - now) (tw_tick w);
     let ticks_remaining = (if ticks_remaining = 0 then 1 else ticks_remaining);
     new_slot \<leftarrow> checked_mod (tw_slot w + ticks_remaining) (tw_size w);
     w \<leftarrow> (if new_slot \<noteq> tw_slot w
           then do {
             w \<leftarrow> bucket_remove (unat (tw_slot w)) e w;
             w \<leftarrow> upd_entry e (\<lambda>r. r\<lparr>te_slot := new_slot\<rparr>) w;
             bucket_add (unat new_slot) e w}
           else Some w);
     Some (track_min (te_deadline_ms r) l, w)})"

definition tick_entry ::
  "u64 \<Rightarrow> nat \<Rightarrow> TimerEntry \<Rightarrow> tick_locals \<times> TimerWheel \<Rightarrow> (tick_locals \<times> TimerWheel) option" where
  "tick_entry now e r lw =
     (if \<not> te_cancelled r \<and> te_deadline_ms r \<le> now then fire_entry e lw
      else if \<not> te_cancelled r \<and> now < te_deadline_ms r then move_entry now e r lw
      else do {
        w \<leftarrow> bucket_remove (unat (tw_slot (snd lw))) e (snd lw);
        w \<leftarrow> timer_entry_free e w;
        Some (fst lw, w)})"

partial_function (option) tick_bucket ::
  "u64 \<Rightarrow> nat option \<Rightarrow> tick_locals \<times> TimerWheel \<Rightarrow> (tick_locals \<times> TimerWheel) option" where
  "tick_bucket now entry lw =
     (case entry of None \<Rightarrow> Some lw
      | Some e \<Rightarrow> do {
          r \<leftarrow> tw_entries (snd lw) e;
          lw \<leftarrow> tick_entry now e r lw;
          tick_bucket now (te_next r) lw})"

primrec tick_slots ::
  "u64 \<Rightarrow> nat \<Rightarrow> tick_locals \<times> TimerWheel \<Rightarrow> (tick_locals \<times> TimerWheel) option" where
  "tick_slots now 0 lw = Some lw"
| "tick_slots now (Suc t) lw = do {
     let (l, w) = lw;
     slot \<leftarrow> checked_mod (tw_slot w + 1) (tw_size w);
     let w = w\<lparr>tw_slot := slot\<rparr>;
     b \<leftarrow> bucket_at (unat slot) w;
     lw \<leftarrow> tick_bucket now (tb_head b) (l, w);
     tick_slots now t lw}"

partial_function (option) scan_bucket ::
  "(nat \<Rightarrow> TimerEntry option) \<Rightarrow> nat option \<Rightarrow> tick_locals \<Rightarrow> tick_locals option" where
  "scan_bucket h entry l =
     (case entry of None \<Rightarrow> Some l
      | Some e \<Rightarrow> do {
          r \<leftarrow> h e;
          scan_bucket h (te_next r) (if \<not> te_cancelled r then track_min (te_deadline_ms r) l else l)})"

primrec scan_buckets :: "(nat \<Rightarrow> TimerEntry option) \<Rightarrow> TimerBucket list \<Rightarrow> tick_locals \<Rightarrow> tick_locals option" where
  "scan_buckets h [] l = Some l"
| "scan_buckets h (b # bs) l = do {l \<leftarrow> scan_bucket h (tb_head b) l; scan_buckets h bs l}"

declare free_entries.simps [code] tick_bucket.simps [code] scan_bucket.simps [code]

definition tick_count :: "u64 \<Rightarrow> TimerWheel \<Rightarrow> u64 option" where
  "tick_count now w = do {
     let elapsed = now - tw_time w;
     ticks \<leftarrow> checked_div elapsed (tw_tick w);
     let ticks = (if ticks = 0 \<and> 0 < elapsed then 1 else ticks);
     Some (if tw_size w < ticks then tw_size w else ticks)}"

definition no_fired :: tick_locals where
  "no_fired = \<lparr>fired_head = None, fired_tail = None, fired_count = 0, new_min_deadline = 0,
     found_pending = False\<rparr>"

text \<open>The result is the head of the list of fired entries and their number.\<close>

definition timer_tick :: "u64 \<Rightarrow> TimerWheel \<Rightarrow> (nat option \<times> u64 \<times> TimerWheel) option" where
  "timer_tick now w = do {
     ticks \<leftarrow> tick_count now w;
     (l, w) \<leftarrow> tick_slots now (unat ticks) (no_fired, w);
     w \<leftarrow> (if 0 < fired_count l
           then do {
             m \<leftarrow> scan_buckets (tw_entries w) (tw_buckets w) l;
             Some (w\<lparr>tw_min := (if found_pending m then new_min_deadline m else 0)\<rparr>)}
           else Some w);
     Some (fired_head l, fired_count l, w\<lparr>tw_time := now\<rparr>)}"

definition timer_next_deadline :: "TimerWheel \<Rightarrow> u64" where
  "timer_next_deadline w = tw_min w"

definition timer_has_pending :: "TimerWheel \<Rightarrow> bool" where
  "timer_has_pending w = list_ex (\<lambda>b. tb_head b \<noteq> None) (tw_buckets w)"

subsection \<open>Doubly linked lists\<close>

text \<open>
  \<open>seg h p es n\<close>: the entries \<open>es\<close> are linked both ways in memory \<open>h\<close>, entered from \<open>p\<close> and
  left towards \<open>n\<close>.
\<close>

definition first_of :: "nat list \<Rightarrow> nat option \<Rightarrow> nat option" where
  "first_of es n = (case es of [] \<Rightarrow> n | e # _ \<Rightarrow> Some e)"

definition last_of :: "nat list \<Rightarrow> nat option \<Rightarrow> nat option" where
  "last_of es p = (if es = [] then p else Some (last es))"

primrec seg :: "(nat \<Rightarrow> TimerEntry option) \<Rightarrow> nat option \<Rightarrow> nat list \<Rightarrow> nat option \<Rightarrow> bool" where
  "seg h p [] n = True"
| "seg h p (e # es) n =
     ((case h e of None \<Rightarrow> False | Some r \<Rightarrow> te_prev r = p \<and> te_next r = first_of es n) \<and> seg h (Some e) es n)"

lemma first_of_simps [simp]: "first_of [] n = n" "first_of (e # es) n = Some e"
  by (simp_all add: first_of_def)

lemma last_of_simps [simp]: "last_of [] p = p" "last_of (es @ [e]) p = Some e" "last_of (e # es) p = last_of es (Some e)"
  by (simp_all add: last_of_def)

lemma first_of_append: "first_of (xs @ ys) n = first_of xs (first_of ys n)"
  by (cases xs) simp_all

lemma last_of_append: "last_of (xs @ ys) p = last_of ys (last_of xs p)"
  by (simp add: last_of_def)

lemma last_of_cases:
  obtains "es = []" "last_of es p = p" | us e where "es = us @ [e]" "last_of es p = Some e"
  by (cases es rule: rev_cases) (auto simp: last_of_def)

lemma seg_cong: "\<forall>e \<in> set es. h' e = h e \<Longrightarrow> seg h' p es n = seg h p es n"
  by (induction es arbitrary: p) auto

lemma seg_other [simp]: "e \<notin> set es \<Longrightarrow> seg (h(e := x)) p es n = seg h p es n"
  by (rule seg_cong) auto

lemma seg_append: "seg h p (xs @ ys) n \<longleftrightarrow> seg h p xs (first_of ys n) \<and> seg h (last_of xs p) ys n"
  by (induction xs arbitrary: p) (auto simp: first_of_append split: option.splits)

lemma seg_live: "seg h p es n \<Longrightarrow> e \<in> set es \<Longrightarrow> \<exists>r. h e = Some r"
  by (induction es arbitrary: p) (auto split: option.splits)

lemma seg_snoc:
  assumes "seg h p (us @ [e]) n" "distinct (us @ [e])" "h e = Some r"
  shows "seg (h(e \<mapsto> r\<lparr>te_next := m\<rparr>)) p (us @ [e]) m"
  using assms by (simp add: seg_append)

lemma seg_enter:
  assumes "seg h p (e # vs) n" "distinct (e # vs)" "h e = Some r"
  shows "seg (h(e \<mapsto> r\<lparr>te_prev := q\<rparr>)) q (e # vs) n"
  using assms by simp

text \<open>What links do not touch: everything of an entry but its two pointers.\<close>

definition te_data :: "TimerEntry \<Rightarrow> TimerEntry" where
  "te_data r = r\<lparr>te_next := None, te_prev := None\<rparr>"

definition same_data :: "(nat \<Rightarrow> TimerEntry option) \<Rightarrow> (nat \<Rightarrow> TimerEntry option) \<Rightarrow> bool" where
  "same_data h h' \<longleftrightarrow> (\<forall>a. map_option te_data (h' a) = map_option te_data (h a))"

lemma te_data_simps [simp]: "te_data (r\<lparr>te_next := n\<rparr>) = te_data r" "te_data (r\<lparr>te_prev := p\<rparr>) = te_data r"
    "te_data (te_data r) = te_data r"
  by (simp_all add: te_data_def)

lemma te_data_eq:
  assumes "te_data r' = te_data r"
  shows "te_deadline_ms r' = te_deadline_ms r" "te_slot r' = te_slot r" "te_cancelled r' = te_cancelled r"
    "te_block_pid r' = te_block_pid r" "te_callback r' = te_callback r" "te_callback_ctx r' = te_callback_ctx r"
  using assms by (cases r; cases r'; simp add: te_data_def)+

lemma same_data_refl [simp]: "same_data h h" by (simp add: same_data_def)

lemma same_data_trans: "same_data h h' \<Longrightarrow> same_data h' h'' \<Longrightarrow> same_data h h''"
  by (simp add: same_data_def)

lemma same_data_upd: "same_data h h' \<Longrightarrow> h a = Some r \<Longrightarrow> te_data r' = te_data r \<Longrightarrow> same_data h (h'(a \<mapsto> r'))"
  by (simp add: same_data_def)

lemma same_data_Some: "same_data h h' \<Longrightarrow> h a = Some r \<Longrightarrow> \<exists>r'. h' a = Some r' \<and> te_data r' = te_data r"
  unfolding same_data_def by (drule spec [of _ a]) auto

text \<open>Everything outside a set of addresses is as before.\<close>

definition same_outside :: "nat set \<Rightarrow> (nat \<Rightarrow> TimerEntry option) \<Rightarrow> (nat \<Rightarrow> TimerEntry option) \<Rightarrow> bool" where
  "same_outside A h h' \<longleftrightarrow> (\<forall>a. a \<notin> A \<longrightarrow> h' a = h a)"

lemma same_outsideI: "(\<And>a. a \<notin> A \<Longrightarrow> h' a = h a) \<Longrightarrow> same_outside A h h'"
  by (simp add: same_outside_def)

lemma same_outside_mono: "same_outside A h h' \<Longrightarrow> A \<subseteq> B \<Longrightarrow> same_outside B h h'"
  unfolding same_outside_def by blast

lemma same_outside_seg: "same_outside A h h' \<Longrightarrow> set es \<inter> A = {} \<Longrightarrow> seg h' p es n = seg h p es n"
  unfolding same_outside_def by (rule seg_cong) blast

text \<open>A bucket holds the list \<open>es\<close>.\<close>

definition bucket_of :: "nat list \<Rightarrow> TimerBucket" where
  "bucket_of es = \<lparr>tb_head = first_of es None, tb_tail = last_of es None\<rparr>"

definition bucket_rep :: "(nat \<Rightarrow> TimerEntry option) \<Rightarrow> TimerBucket \<Rightarrow> nat list \<Rightarrow> bool" where
  "bucket_rep h b es \<longleftrightarrow> b = bucket_of es \<and> seg h None es None"

lemmas pointer_ops = bucket_at_def upd_entry_def upd_bucket_def bucket_of_def

lemma bucket_add_rep:
  assumes i: "i < length (tw_buckets w)" and rep: "bucket_rep (tw_entries w) (tw_buckets w ! i) es"
    and e: "tw_entries w e = Some r" "e \<notin> set es" and d: "distinct es"
  shows "\<exists>h. bucket_add i e w = Some (w\<lparr>tw_entries := h, tw_buckets := (tw_buckets w)[i := bucket_of (es @ [e])]\<rparr>)
    \<and> seg h None (es @ [e]) None \<and> same_outside (set (es @ [e])) (tw_entries w) h \<and> same_data (tw_entries w) h"
proof (cases es rule: rev_cases)
  case Nil
  let ?h = "(tw_entries w)(e \<mapsto> r\<lparr>te_prev := None, te_next := None\<rparr>)"
  have "bucket_add i e w = Some (w\<lparr>tw_entries := ?h, tw_buckets := (tw_buckets w)[i := bucket_of (es @ [e])]\<rparr>)"
    using i rep e Nil by (simp add: bucket_add_def pointer_ops bucket_rep_def)
  moreover have "same_data (tw_entries w) ?h" using e by (intro same_data_upd) simp_all
  ultimately show ?thesis using Nil by (intro exI [of _ ?h]) (simp add: same_outside_def)
next
  case (snoc us t)
  then obtain q where q: "tw_entries w t = Some q" using rep seg_live unfolding bucket_rep_def by fastforce
  have ne: "t \<noteq> e" "e \<notin> set us" "t \<notin> set us" using e d snoc by auto
  let ?h = "(tw_entries w)(e \<mapsto> r\<lparr>te_prev := Some t, te_next := None\<rparr>, t \<mapsto> q\<lparr>te_next := Some e\<rparr>)"
  have "bucket_add i e w = Some (w\<lparr>tw_entries := ?h, tw_buckets := (tw_buckets w)[i := bucket_of (es @ [e])]\<rparr>)"
    using i rep e q ne snoc
    by (simp add: bucket_add_def pointer_ops bucket_rep_def first_of_append last_of_append)
  moreover have "seg ?h None (es @ [e]) None"
    using rep ne q snoc by (auto simp: bucket_rep_def seg_append)
  moreover have "same_outside (set (es @ [e])) (tw_entries w) ?h" using snoc by (auto simp: same_outside_def)
  moreover have "same_data (tw_entries w) ?h" using q e by (intro same_data_upd) simp_all
  ultimately show ?thesis by blast
qed

text \<open>The memory after unlinking: the neighbours point at each other, the entry points nowhere.\<close>

definition unlink :: "nat option \<Rightarrow> nat option \<Rightarrow> nat \<Rightarrow> TimerEntry \<Rightarrow> (nat \<Rightarrow> TimerEntry option) \<Rightarrow> (nat \<Rightarrow> TimerEntry option)" where
  "unlink p n e r h =
     (let h1 = (case p of None \<Rightarrow> h | Some p \<Rightarrow> h(p := map_option (\<lambda>q. q\<lparr>te_next := n\<rparr>) (h p)));
          h2 = (case n of None \<Rightarrow> h1 | Some n \<Rightarrow> h1(n := map_option (\<lambda>q. q\<lparr>te_prev := p\<rparr>) (h1 n)))
      in h2(e \<mapsto> te_data r))"

lemma unlink_seg:
  assumes s: "seg h None (us @ e # vs) None" and d: "distinct (us @ e # vs)"
  shows "seg (unlink (last_of us None) (first_of vs None) e r h) None (us @ vs) None"
proof -
  have live: "x \<in> set us \<union> set vs \<Longrightarrow> \<exists>q. h x = Some q" for x using s seg_live by fastforce
  have ss: "seg h None us (Some e)" "seg h (Some e) vs None" using s by (simp_all add: seg_append)
  have ne: "e \<notin> set us" "e \<notin> set vs" "set us \<inter> set vs = {}" "distinct us" "distinct vs" using d by auto
  show ?thesis
  proof (cases us rule: rev_cases)
    case Nil
    note us = Nil
    show ?thesis
    proof (cases vs)
      case (Cons n vs')
      then obtain q where "h n = Some q" using live by auto
      then show ?thesis using ss ne us Cons by (simp add: unlink_def)
    qed (simp add: us)
  next
    case (snoc us' p)
    note us = snoc
    obtain q where q: "h p = Some q" using live us by auto
    show ?thesis
    proof (cases vs)
      case Nil
      then show ?thesis using ss ne us q by (simp add: unlink_def seg_append)
    next
      case (Cons n vs')
      then obtain q' where "h n = Some q'" using live by auto
      moreover have "n \<noteq> p" "p \<noteq> n" using ne us Cons by auto
      ultimately show ?thesis using ss ne us q Cons by (simp add: unlink_def seg_append)
    qed
  qed
qed

lemma unlink_same_data: "h e = Some r \<Longrightarrow> same_data h (unlink p n e r h)"
  by (cases p; cases n; simp add: same_data_def unlink_def option.map_comp comp_def)

lemma unlink_outside: "same_outside (insert e (set_option p \<union> set_option n)) h (unlink p n e r h)"
  by (auto simp: same_outside_def unlink_def split: option.splits)

lemma bucket_remove_rep:
  assumes i: "i < length (tw_buckets w)" and rep: "bucket_rep (tw_entries w) (tw_buckets w ! i) (us @ e # vs)"
    and d: "distinct (us @ e # vs)" and e: "tw_entries w e = Some r"
  shows "\<exists>h. bucket_remove i e w = Some (w\<lparr>tw_entries := h, tw_buckets := (tw_buckets w)[i := bucket_of (us @ vs)]\<rparr>)
    \<and> seg h None (us @ vs) None \<and> same_outside (set (us @ e # vs)) (tw_entries w) h
    \<and> same_data (tw_entries w) h \<and> h e = Some (te_data r)"
proof -
  have b: "tw_buckets w ! i = bucket_of (us @ e # vs)" using rep by (simp add: bucket_rep_def)
  have r: "te_prev r = last_of us None" "te_next r = first_of vs None"
    using rep e by (simp_all add: bucket_rep_def seg_append)
  have live: "x \<in> set us \<union> set vs \<Longrightarrow> \<exists>q. tw_entries w x = Some q" for x
    using rep seg_live unfolding bucket_rep_def by fastforce
  let ?h = "unlink (last_of us None) (first_of vs None) e r (tw_entries w)"
  have "bucket_remove i e w = Some (w\<lparr>tw_entries := ?h, tw_buckets := (tw_buckets w)[i := bucket_of (us @ vs)]\<rparr>)"
  proof (cases us rule: rev_cases)
    case Nil
    note us = Nil
    show ?thesis
    proof (cases vs)
      case Nil
      then show ?thesis using i e us r b
        by (simp add: bucket_remove_def pointer_ops unlink_def te_data_def)
    next
      case (Cons n vs')
      then obtain q where "tw_entries w n = Some q" using live by auto
      moreover have "n \<noteq> e" "e \<noteq> n" using d Cons by auto
      ultimately show ?thesis using i e us r b Cons
        by (simp add: bucket_remove_def pointer_ops unlink_def te_data_def)
    qed
  next
    case (snoc us' p)
    note us = snoc
    obtain q where q: "tw_entries w p = Some q" using live us by auto
    have p: "p \<noteq> e" "e \<noteq> p" using d us by auto
    show ?thesis
    proof (cases vs)
      case Nil
      then show ?thesis using i e us r b q p
        by (simp add: bucket_remove_def pointer_ops unlink_def te_data_def first_of_append last_of_append)
    next
      case (Cons n vs')
      then obtain q' where "tw_entries w n = Some q'" using live by auto
      moreover have "n \<noteq> p" "p \<noteq> n" "n \<noteq> e" "e \<noteq> n" using d us Cons by auto
      moreover have "(tw_buckets w)[i := bucket_of (us @ vs)] = tw_buckets w"
        using i b us Cons by (simp add: bucket_of_def first_of_append last_of_append list_update_same_conv)
      ultimately show ?thesis using i e us r q p Cons
        by (simp add: bucket_remove_def upd_entry_def unlink_def te_data_def)
    qed
  qed
  moreover have "same_outside (set (us @ e # vs)) (tw_entries w) ?h"
  proof -
    have "set_option (last_of us None) \<subseteq> set us" "set_option (first_of vs None) \<subseteq> set vs"
      by (cases us; cases vs; simp add: last_of_def)+
    then show ?thesis by (intro same_outside_mono [OF unlink_outside]) auto
  qed
  moreover have "?h e = Some (te_data r)" by (simp add: unlink_def Let_def)
  ultimately show ?thesis
    using unlink_seg [OF _ d] unlink_same_data [of "tw_entries w" e r, OF e] rep unfolding bucket_rep_def by blast
qed

subsection \<open>The wheel invariant\<close>

primrec free_chain_rep :: "(nat \<Rightarrow> TimerEntry option) \<Rightarrow> nat option \<Rightarrow> nat list \<Rightarrow> bool" where
  "free_chain_rep h p [] \<longleftrightarrow> p = None"
| "free_chain_rep h p (e # es) \<longleftrightarrow>
     p = Some e \<and> (case h e of None \<Rightarrow> False | Some r \<Rightarrow> free_chain_rep h (te_next r) es)"

lemma free_chain_cong: "\<forall>e \<in> set es. h' e = h e \<Longrightarrow> free_chain_rep h' p es = free_chain_rep h p es"
  by (induction es arbitrary: p) (auto split: option.splits)

lemma free_chain_other [simp]: "e \<notin> set es \<Longrightarrow> free_chain_rep (h(e := x)) p es = free_chain_rep h p es"
  by (rule free_chain_cong) auto

text \<open>
  \<open>linked w ess fs fl\<close>: the buckets are the lists \<open>ess\<close>, the fired entries are the list \<open>fs\<close>, the
  free list is \<open>fl\<close>; no entry is in two places, and each entry in a bucket knows its slot.
\<close>

definition at_slot :: "(nat \<Rightarrow> TimerEntry option) \<Rightarrow> nat \<Rightarrow> nat \<Rightarrow> bool" where
  "at_slot h i e \<longleftrightarrow> (case h e of None \<Rightarrow> False | Some r \<Rightarrow> \<not> te_cancelled r \<and> unat (te_slot r) = i)"

definition placed :: "(nat \<Rightarrow> TimerEntry option) \<Rightarrow> nat list list \<Rightarrow> bool" where
  "placed h ess \<longleftrightarrow> (\<forall>i < length ess. \<forall>e \<in> set (ess ! i). at_slot h i e)"

text \<open>Entries off the wheel that still carry the number of a slot.\<close>

definition filed :: "(nat \<Rightarrow> TimerEntry option) \<Rightarrow> nat \<Rightarrow> nat list \<Rightarrow> bool" where
  "filed h n fs \<longleftrightarrow> (\<forall>e \<in> set fs. \<exists>i < n. at_slot h i e)"

lemma filed_simps [simp]:
  "filed h n []" "filed h n (e # fs) \<longleftrightarrow> (\<exists>i < n. at_slot h i e) \<and> filed h n fs"
  "filed h n (fs @ gs) \<longleftrightarrow> filed h n fs \<and> filed h n gs"
  by (auto simp: filed_def)

definition linked :: "TimerWheel \<Rightarrow> nat list list \<Rightarrow> nat list \<Rightarrow> nat list \<Rightarrow> bool" where
  "linked w ess fs fl \<longleftrightarrow>
     0 < tw_tick w \<and> length ess = unat (tw_size w) \<and> tw_slot w < tw_size w \<and>
     tw_buckets w = map bucket_of ess \<and> (\<forall>es \<in> set ess. seg (tw_entries w) None es None) \<and>
     seg (tw_entries w) None fs None \<and> free_chain_rep (tw_entries w) (tw_free w) fl \<and>
     distinct (concat ess @ fs @ fl) \<and> placed (tw_entries w) ess \<and> filed (tw_entries w) (unat (tw_size w)) fs"

text \<open>Only links and buckets differ.\<close>

definition relinked :: "TimerWheel \<Rightarrow> TimerWheel \<Rightarrow> bool" where
  "relinked w w' \<longleftrightarrow> w' = w\<lparr>tw_entries := tw_entries w', tw_buckets := tw_buckets w'\<rparr>"

lemma relinked_simps:
  assumes "relinked w w'"
  shows "tw_size w' = tw_size w" "tw_tick w' = tw_tick w" "tw_slot w' = tw_slot w" "tw_time w' = tw_time w"
    "tw_free w' = tw_free w" "tw_min w' = tw_min w" "tw_allocated w' = tw_allocated w"
  using assms by (cases w; cases w'; simp add: relinked_def)+

lemma relinked_refl [simp]: "relinked w w" by (simp add: relinked_def)

lemma relinked_trans: "relinked w w' \<Longrightarrow> relinked w' w'' \<Longrightarrow> relinked w w''"
  by (cases w; cases w'; cases w''; simp add: relinked_def)

lemma relinked_upd [simp]:
  "relinked w (w\<lparr>tw_entries := h\<rparr>)" "relinked w (w\<lparr>tw_entries := h, tw_buckets := b\<rparr>)"
  by (simp_all add: relinked_def)

lemma list_split_at: "i < length ess \<Longrightarrow> \<exists>as bs. ess = as @ ess ! i # bs \<and> length as = i"
  by (intro exI [of _ "take i ess"] exI [of _ "drop (Suc i) ess"]) (simp add: id_take_nth_drop [symmetric])

lemma segs_update:
  assumes s: "\<forall>es \<in> set ess. seg h None es None" and d: "distinct (concat ess)" and i: "i < length ess"
    and o: "same_outside (insert e (set (ess ! i))) h h'" and e: "e \<in> set (ess ! i) \<or> e \<notin> set (concat ess)"
    and x: "seg h' None x None"
  shows "\<forall>es \<in> set (ess[i := x]). seg h' None es None"
proof -
  obtain as bs where a: "ess = as @ ess ! i # bs" "length as = i" using list_split_at [OF i] by blast
  have u: "ess[i := x] = as @ x # bs" using a by (metis list_update_length)
  have "distinct (concat (as @ ess ! i # bs))" "e \<in> set (ess ! i) \<or> e \<notin> set (concat (as @ ess ! i # bs))"
    using d e a(1) by metis+
  then have "set es \<inter> insert e (set (ess ! i)) = {}" if "es \<in> set as \<union> set bs" for es using that by fastforce
  moreover have "seg h None es None" if "es \<in> set as \<union> set bs" for es using that s a(1) by (metis UnE in_set_conv_decomp list.set_intros(2) Un_iff set_append)
  ultimately show ?thesis using same_outside_seg [OF o] x unfolding u by auto
qed

lemma mset_buckets_update:
  "i < length ess \<Longrightarrow> mset (concat (ess[i := x])) + mset (ess ! i) = mset (concat ess) + mset x"
  by (induction ess arbitrary: i) (auto split: nat.splits simp: ac_simps)

lemma same_data_at_slot:
  assumes "same_data h h'" "at_slot h i e" shows "at_slot h' i e"
proof -
  obtain r where r: "h e = Some r" "\<not> te_cancelled r" "unat (te_slot r) = i"
    using assms(2) by (auto simp: at_slot_def split: option.splits)
  obtain r' where "h' e = Some r'" "te_data r' = te_data r" using same_data_Some [OF assms(1) r(1)] by blast
  then show ?thesis using r te_data_eq [of r' r] by (simp add: at_slot_def)
qed

lemma same_data_placed: "same_data h h' \<Longrightarrow> placed h ess \<Longrightarrow> placed h' ess"
  unfolding placed_def using same_data_at_slot by blast

lemma same_data_filed: "same_data h h' \<Longrightarrow> filed h n fs \<Longrightarrow> filed h' n fs"
  unfolding filed_def using same_data_at_slot by blast

lemma slots_update: "placed h ess \<Longrightarrow> (\<And>e. e \<in> set x \<Longrightarrow> at_slot h i e) \<Longrightarrow> placed h (ess[i := x])"
  unfolding placed_def by (metis length_list_update nth_list_update_eq nth_list_update_neq)

lemma linked_remove:
  assumes l: "linked w ess fs fl" and i: "i < length ess" and es: "ess ! i = us @ e # vs"
    and r: "tw_entries w e = Some r"
  shows "\<exists>w'. bucket_remove i e w = Some w' \<and> linked w' (ess[i := us @ vs]) fs fl \<and> relinked w w'
    \<and> same_data (tw_entries w) (tw_entries w') \<and> tw_entries w' e = Some (te_data r)
    \<and> e \<notin> set (concat (ess[i := us @ vs]) @ fs @ fl)"
proof -
  note lk = l [unfolded linked_def]
  obtain as bs where a: "ess = as @ (us @ e # vs) # bs" "length as = i" using list_split_at [OF i] es by metis
  have u: "ess[i := us @ vs] = as @ (us @ vs) # bs" using a by (metis list_update_length)
  have d: "distinct (concat ess @ fs @ fl)" using lk by blast
  have du: "distinct (us @ e # vs)" using d unfolding a(1) by auto
  have "bucket_rep (tw_entries w) (tw_buckets w ! i) (us @ e # vs)"
    using lk i es by (metis bucket_rep_def nth_map nth_mem)
  moreover have "i < length (tw_buckets w)" using lk i by simp
  ultimately obtain h where h: "bucket_remove i e w = Some (w\<lparr>tw_entries := h, tw_buckets := (tw_buckets w)[i := bucket_of (us @ vs)]\<rparr>)"
    "seg h None (us @ vs) None" "same_outside (set (us @ e # vs)) (tw_entries w) h"
    "same_data (tw_entries w) h" "h e = Some (te_data r)"
    using bucket_remove_rep [OF _ _ du r] by blast
  let ?w = "w\<lparr>tw_entries := h, tw_buckets := (tw_buckets w)[i := bucket_of (us @ vs)]\<rparr>"
  have h3: "same_outside (insert e (set (ess ! i))) (tw_entries w) h" using h(3) es by (simp add: insert_absorb)
  have segs: "\<forall>es \<in> set (ess[i := us @ vs]). seg h None es None"
    using segs_update [OF _ _ i h3] lk es h(2) by simp
  have dis: "set fs \<inter> set (us @ e # vs) = {}" "set fl \<inter> set (us @ e # vs) = {}" using d a(1) by auto
  have "seg h None fs None" using same_outside_seg [OF h(3) dis(1)] lk by blast
  moreover have "free_chain_rep h (tw_free w) fl"
    using free_chain_cong [of fl h "tw_entries w"] lk h(3) dis(2) unfolding same_outside_def by blast
  moreover have "placed h (ess[i := us @ vs])"
  proof (rule slots_update)
    show p: "placed h ess" using same_data_placed h(4) lk by blast
    show "at_slot h i x" if "x \<in> set (us @ vs)" for x
      using p i es that unfolding placed_def by fastforce
  qed
  moreover have "distinct (concat (ess[i := us @ vs]) @ fs @ fl)" "e \<notin> set (concat (ess[i := us @ vs]) @ fs @ fl)"
    using d [unfolded a(1)] unfolding u by auto
  moreover have "(tw_buckets w)[i := bucket_of (us @ vs)] = map bucket_of (ess[i := us @ vs])"
    using lk by (simp add: map_update)
  ultimately have "linked ?w (ess[i := us @ vs]) fs fl" using segs lk same_data_filed [OF h(4)] unfolding linked_def by simp
  then show ?thesis using h(1,4,5) \<open>e \<notin> _\<close> by (intro exI [of _ ?w]) simp
qed

lemma linked_add:
  assumes l: "linked w ess fs fl" and i: "i < length ess" and e: "e \<notin> set (concat ess @ fs @ fl)"
    and r: "tw_entries w e = Some r" "\<not> te_cancelled r" "unat (te_slot r) = i"
  shows "\<exists>w'. bucket_add i e w = Some w' \<and> linked w' (ess[i := ess ! i @ [e]]) fs fl \<and> relinked w w'
    \<and> same_data (tw_entries w) (tw_entries w')"
proof -
  note lk = l [unfolded linked_def]
  obtain as bs where a: "ess = as @ ess ! i # bs" "length as = i" using list_split_at [OF i] by blast
  have u: "ess[i := ess ! i @ [e]] = as @ (ess ! i @ [e]) # bs" using a by (metis list_update_length)
  have d: "distinct (concat ess @ fs @ fl)" using lk by blast
  then have d': "distinct (concat (as @ ess ! i # bs) @ fs @ fl)" using a(1) by metis
  have e': "e \<notin> set (concat (as @ ess ! i # bs) @ fs @ fl)" using e a(1) by metis
  have "bucket_rep (tw_entries w) (tw_buckets w ! i) (ess ! i)" using lk i by (metis bucket_rep_def nth_map nth_mem)
  moreover have "i < length (tw_buckets w)" using lk i by simp
  ultimately obtain h where h: "bucket_add i e w = Some (w\<lparr>tw_entries := h, tw_buckets := (tw_buckets w)[i := bucket_of (ess ! i @ [e])]\<rparr>)"
    "seg h None (ess ! i @ [e]) None" "same_outside (set (ess ! i @ [e])) (tw_entries w) h" "same_data (tw_entries w) h"
    using bucket_add_rep [OF _ _ r(1), of i "ess ! i"] d' e' by auto
  let ?w = "w\<lparr>tw_entries := h, tw_buckets := (tw_buckets w)[i := bucket_of (ess ! i @ [e])]\<rparr>"
  have h3: "same_outside (insert e (set (ess ! i))) (tw_entries w) h" using h(3) by simp
  have segs: "\<forall>es \<in> set (ess[i := ess ! i @ [e]]). seg h None es None"
    using segs_update [OF _ _ i h3 _ h(2)] lk e by simp
  have dis: "set fs \<inter> set (ess ! i @ [e]) = {}" "set fl \<inter> set (ess ! i @ [e]) = {}" using d' e' by auto
  have "seg h None fs None" using same_outside_seg [OF h(3) dis(1)] lk by blast
  moreover have "free_chain_rep h (tw_free w) fl"
    using free_chain_cong [of fl h "tw_entries w"] lk h(3) dis(2) unfolding same_outside_def by blast
  moreover have "placed h (ess[i := ess ! i @ [e]])"
  proof (rule slots_update)
    show p: "placed h ess" using same_data_placed h(4) lk by blast
    obtain r' where "h e = Some r'" "te_data r' = te_data r" using same_data_Some [OF h(4) r(1)] by blast
    then have "at_slot h i e" using r te_data_eq [of r' r] by (simp add: at_slot_def)
    then show "at_slot h i x"
      if "x \<in> set (ess ! i @ [e])" for x using p i that unfolding placed_def by fastforce
  qed
  moreover have "distinct (concat (ess[i := ess ! i @ [e]]) @ fs @ fl)" using d' e' unfolding u by auto
  moreover have "(tw_buckets w)[i := bucket_of (ess ! i @ [e])] = map bucket_of (ess[i := ess ! i @ [e]])"
    using lk by (simp add: map_update)
  ultimately have "linked ?w (ess[i := ess ! i @ [e]]) fs fl" using segs lk same_data_filed [OF h(4)] unfolding linked_def by simp
  then show ?thesis using h(1,4) by (intro exI [of _ ?w]) simp
qed

text \<open>Writing an entry that is in none of the lists.\<close>

lemma wheel_other:
  assumes l: "linked w ess fs fl" and e: "e \<notin> set (concat ess @ fs @ fl)"
  shows "linked (w\<lparr>tw_entries := (tw_entries w)(e := x)\<rparr>) ess fs fl"
proof -
  have "placed ((tw_entries w)(e := x)) ess" using l e unfolding linked_def placed_def at_slot_def by fastforce
  moreover have "\<forall>es \<in> set ess. seg ((tw_entries w)(e := x)) None es None" using l e unfolding linked_def by auto
  moreover have "free_chain_rep ((tw_entries w)(e := x)) (tw_free w) fl" using l e unfolding linked_def by simp
  moreover have "filed ((tw_entries w)(e := x)) (unat (tw_size w)) fs" using l e unfolding linked_def filed_def at_slot_def by auto
  ultimately show ?thesis using l e by (simp add: linked_def)
qed

subsection \<open>One tick\<close>

text \<open>What a tick leaves of an entry: everything but its links and its slot.\<close>

definition te_timer :: "TimerEntry \<Rightarrow> TimerEntry" where
  "te_timer r = r\<lparr>te_next := None, te_prev := None, te_slot := 0\<rparr>"

definition same_timers :: "(nat \<Rightarrow> TimerEntry option) \<Rightarrow> (nat \<Rightarrow> TimerEntry option) \<Rightarrow> bool" where
  "same_timers h h' \<longleftrightarrow> (\<forall>a. map_option te_timer (h' a) = map_option te_timer (h a))"

definition deadline_of :: "(nat \<Rightarrow> TimerEntry option) \<Rightarrow> nat \<Rightarrow> u64" where
  "deadline_of h e = (case h e of None \<Rightarrow> 0 | Some r \<Rightarrow> te_deadline_ms r)"

lemma te_timer_data: "te_timer r = (te_data r)\<lparr>te_slot := 0\<rparr>"
  by (cases r) (simp add: te_timer_def te_data_def)

lemma te_timer_slot [simp]: "te_timer (r\<lparr>te_slot := s\<rparr>) = te_timer r" "te_timer (te_data r) = te_timer r"
  by (simp_all add: te_timer_def te_data_def)

lemma same_data_timers: "same_data h h' \<Longrightarrow> same_timers h h'"
proof -
  assume "same_data h h'"
  then have "map_option (te_slot_update (\<lambda>_. 0)) (map_option te_data (h' a)) = map_option (te_slot_update (\<lambda>_. 0)) (map_option te_data (h a))" for a
    by (simp add: same_data_def)
  then show ?thesis by (simp add: same_timers_def option.map_comp comp_def te_timer_data [symmetric])
qed

lemma same_timers_trans: "same_timers h h' \<Longrightarrow> same_timers h' h'' \<Longrightarrow> same_timers h h''"
  by (simp add: same_timers_def)

lemma same_timers_deadline:
  assumes "same_timers h h'" shows "deadline_of h' = deadline_of h"
proof
  fix e
  have "map_option te_deadline_ms (map_option te_timer (h' e)) = map_option te_deadline_ms (map_option te_timer (h e))"
    using assms by (simp add: same_timers_def)
  then show "deadline_of h' e = deadline_of h e"
    by (auto simp: deadline_of_def option.map_comp comp_def te_timer_def split: option.splits)
qed

text \<open>The locals describe the list of fired entries.\<close>

definition locals_rep :: "tick_locals \<Rightarrow> nat list \<Rightarrow> bool" where
  "locals_rep l fs \<longleftrightarrow> fired_head l = first_of fs None \<and> fired_tail l = last_of fs None \<and> fired_count l = of_nat (length fs)"

definition tracked :: "u64 \<Rightarrow> tick_locals \<Rightarrow> TimerWheel \<Rightarrow> nat list list \<Rightarrow> bool" where
  "tracked now l w ess \<longleftrightarrow> (found_pending l \<longrightarrow>
     (\<exists>e \<in> set (concat ess). deadline_of (tw_entries w) e = new_min_deadline l \<and> now < new_min_deadline l))"

lemma linked_fire:
  assumes l: "linked w ess fs fl" and e: "e \<notin> set (concat ess @ fs @ fl)" and r: "tw_entries w e = Some r"
    and at: "at_slot (tw_entries w) i e" "i < unat (tw_size w)"
  shows "\<exists>h. (case last_of fs None of
        Some t \<Rightarrow> upd_entry t (\<lambda>r. r\<lparr>te_next := Some e\<rparr>) (w\<lparr>tw_entries := (tw_entries w)(e \<mapsto> r\<lparr>te_next := None, te_prev := last_of fs None\<rparr>)\<rparr>)
      | None \<Rightarrow> Some (w\<lparr>tw_entries := (tw_entries w)(e \<mapsto> r\<lparr>te_next := None, te_prev := last_of fs None\<rparr>)\<rparr>)) = Some (w\<lparr>tw_entries := h\<rparr>)
    \<and> linked (w\<lparr>tw_entries := h\<rparr>) ess (fs @ [e]) fl \<and> same_data (tw_entries w) h"
proof (cases fs rule: rev_cases)
  case Nil
  let ?h = "(tw_entries w)(e \<mapsto> r\<lparr>te_next := None, te_prev := None\<rparr>)"
  have "linked (w\<lparr>tw_entries := ?h\<rparr>) ess [] fl" using wheel_other [OF l e] Nil by simp
  moreover have sd: "same_data (tw_entries w) ?h" using r by (intro same_data_upd) simp_all
  then have "at_slot ?h i e" using at(1) same_data_at_slot by blast
  ultimately have "linked (w\<lparr>tw_entries := ?h\<rparr>) ess [e] fl" using e Nil at(2) by (auto simp: linked_def)
  then show ?thesis using Nil sd by (intro exI [of _ ?h]) simp
next
  case (snoc fs' t)
  note lk = l [unfolded linked_def]
  obtain q where q: "tw_entries w t = Some q" using lk snoc seg_live by fastforce
  have ne: "t \<noteq> e" "e \<noteq> t" "t \<notin> set fs'" "e \<notin> set fs'" "t \<notin> set (concat ess)" "t \<notin> set fl" "e \<notin> set (concat ess)" "e \<notin> set fl"
    using e lk snoc by auto
  let ?h = "(tw_entries w)(e \<mapsto> r\<lparr>te_next := None, te_prev := Some t\<rparr>, t \<mapsto> q\<lparr>te_next := Some e\<rparr>)"
  have sd: "same_data (tw_entries w) ?h" using r q by (intro same_data_upd) simp_all
  have "\<forall>es \<in> set ess. seg ?h None es None" using lk ne by auto
  moreover have "seg ?h None (fs @ [e]) None" using lk ne q snoc by (simp add: seg_append)
  moreover have "free_chain_rep ?h (tw_free w) fl" using lk ne by simp
  moreover have "distinct (concat ess @ (fs @ [e]) @ fl)" using lk e by auto
  ultimately have "linked (w\<lparr>tw_entries := ?h\<rparr>) ess (fs @ [e]) fl"
    using lk same_data_placed [OF sd] same_data_filed [OF sd] same_data_at_slot [OF sd at(1)] at(2)
    unfolding linked_def by auto
  then show ?thesis using snoc sd q ne by (intro exI [of _ ?h]) (simp add: upd_entry_def)
qed

lemma fire_entry_step:
  assumes l: "linked w ess fs fl" and i: "ess ! unat (tw_slot w) = us @ e # vs" and r: "tw_entries w e = Some r"
    and lr: "locals_rep l fs"
  shows "\<exists>l' w'. fire_entry e (l, w) = Some (l', w') \<and> linked w' (ess[unat (tw_slot w) := us @ vs]) (fs @ [e]) fl
    \<and> relinked w w' \<and> same_data (tw_entries w) (tw_entries w') \<and> locals_rep l' (fs @ [e])
    \<and> found_pending l' = found_pending l \<and> new_min_deadline l' = new_min_deadline l"
proof -
  have il: "unat (tw_slot w) < length ess" using l by (simp add: linked_def word_less_nat_alt)
  obtain w1 where w1: "bucket_remove (unat (tw_slot w)) e w = Some w1" "linked w1 (ess[unat (tw_slot w) := us @ vs]) fs fl"
    "relinked w w1" "same_data (tw_entries w) (tw_entries w1)" "tw_entries w1 e = Some (te_data r)"
    "e \<notin> set (concat (ess[unat (tw_slot w) := us @ vs]) @ fs @ fl)"
    using linked_remove [OF l il i r] by blast
  have "at_slot (tw_entries w) (unat (tw_slot w)) e" using l il i unfolding linked_def placed_def by auto
  then have at: "at_slot (tw_entries w1) (unat (tw_slot w)) e" by (rule same_data_at_slot [OF w1(4)])
  have il1: "unat (tw_slot w) < unat (tw_size w1)" using l w1(3) by (simp add: linked_def relinked_simps word_less_nat_alt)
  obtain h where h: "(case last_of fs None of
        Some t \<Rightarrow> upd_entry t (\<lambda>r. r\<lparr>te_next := Some e\<rparr>) (w1\<lparr>tw_entries := (tw_entries w1)(e \<mapsto> (te_data r)\<lparr>te_next := None, te_prev := last_of fs None\<rparr>)\<rparr>)
      | None \<Rightarrow> Some (w1\<lparr>tw_entries := (tw_entries w1)(e \<mapsto> (te_data r)\<lparr>te_next := None, te_prev := last_of fs None\<rparr>)\<rparr>)) = Some (w1\<lparr>tw_entries := h\<rparr>)"
    "linked (w1\<lparr>tw_entries := h\<rparr>) (ess[unat (tw_slot w) := us @ vs]) (fs @ [e]) fl" "same_data (tw_entries w1) h"
    using linked_fire [OF w1(2,6,5) at il1] by blast
  let ?l = "l\<lparr>fired_head := first_of (fs @ [e]) None, fired_tail := Some e, fired_count := fired_count l + 1\<rparr>"
  have "fire_entry e (l, w) = Some (?l, w1\<lparr>tw_entries := h\<rparr>)"
  proof (cases fs rule: rev_cases)
    case Nil
    then show ?thesis using w1(1,5) h(1) lr by (simp add: fire_entry_def upd_entry_def locals_rep_def)
  next
    case (snoc fs' t)
    have "l\<lparr>fired_tail := Some e, fired_count := fired_count l + 1\<rparr> = ?l"
      using lr snoc by (simp add: locals_rep_def first_of_append)
    then show ?thesis using w1(1,5) h(1) lr snoc
      by (simp add: fire_entry_def upd_entry_def locals_rep_def split: option.splits)
  qed
  moreover have "relinked w (w1\<lparr>tw_entries := h\<rparr>)" using relinked_trans [OF w1(3)] by simp
  moreover have "locals_rep ?l (fs @ [e])" using lr by (simp add: locals_rep_def first_of_append)
  ultimately show ?thesis using h(2,3) same_data_trans [OF w1(4)] by fastforce
qed

lemma move_entry_step:
  assumes l: "linked w ess fs fl" and i: "i = unat (tw_slot w)" "ess ! i = us @ e # vs" and r: "tw_entries w e = Some r"
  shows "\<exists>w' ess'. move_entry now e r (l, w) = Some (track_min (te_deadline_ms r) l, w') \<and> linked w' ess' fs fl
    \<and> relinked w w' \<and> same_timers (tw_entries w) (tw_entries w') \<and> length ess' = length ess
    \<and> mset (concat ess') = mset (concat ess) \<and> (ess' ! i = us @ vs \<or> ess' ! i = us @ e # vs)
    \<and> (\<forall>j < length ess. set (ess' ! j) \<subseteq> insert e (set (ess ! j)))"
proof -
  note lk = l [unfolded linked_def]
  have il: "i < length ess" using lk i by (simp add: word_less_nat_alt)
  have pos: "tw_tick w \<noteq> 0" "tw_size w \<noteq> 0" using lk by auto
  define k where "k = (tw_slot w + (if (te_deadline_ms r - now) div tw_tick w = 0 then 1 else (te_deadline_ms r - now) div tw_tick w)) mod tw_size w"
  have kl: "unat k < length ess" using pos lk word_mod_less_divisor [of "tw_size w"]
    by (simp add: k_def word_less_nat_alt word_gt_0)
  have me: "move_entry now e r (l, w) = do {
      w \<leftarrow> (if k \<noteq> tw_slot w
           then do {
             w \<leftarrow> bucket_remove i e w;
             w \<leftarrow> upd_entry e (\<lambda>r. r\<lparr>te_slot := k\<rparr>) w;
             bucket_add (unat k) e w}
           else Some w);
     Some (track_min (te_deadline_ms r) l, w)}"
    using pos by (simp add: move_entry_def checked_div_def checked_mod_def k_def i(1) Let_def)
  show ?thesis
  proof (cases "k = tw_slot w")
    case True
    then have "move_entry now e r (l, w) = Some (track_min (te_deadline_ms r) l, w)" using me by simp
    then show ?thesis using l i(2) by (intro exI [of _ w] exI [of _ ess]) (auto intro: same_data_timers)
  next
    case False
    let ?ess = "ess[i := us @ vs]"
    obtain w1 where w1: "bucket_remove i e w = Some w1" "linked w1 ?ess fs fl"
      "relinked w w1" "same_data (tw_entries w) (tw_entries w1)" "tw_entries w1 e = Some (te_data r)"
      "e \<notin> set (concat ?ess @ fs @ fl)"
      using linked_remove [OF l il i(2) r] by blast
    let ?r = "(te_data r)\<lparr>te_slot := k\<rparr>"
    let ?w1 = "w1\<lparr>tw_entries := (tw_entries w1)(e \<mapsto> ?r)\<rparr>"
    have w2: "linked ?w1 ?ess fs fl" by (rule wheel_other [OF w1(2,6)])
    have nc: "\<not> te_cancelled r" using lk il i(2) r by (fastforce simp: placed_def at_slot_def)
    have "\<not> te_cancelled ?r" using nc by (simp add: te_data_def)
    then obtain w3 where w3: "bucket_add (unat k) e ?w1 = Some w3" "linked w3 (?ess[unat k := ?ess ! unat k @ [e]]) fs fl"
      "relinked ?w1 w3" "same_data (tw_entries ?w1) (tw_entries w3)"
      using linked_add [OF w2, of "unat k" e ?r] kl w1(6) by auto
    have ki: "unat k \<noteq> i" using False i(1) by (metis word_unat_eq_iff)
    have "move_entry now e r (l, w) = Some (track_min (te_deadline_ms r) l, w3)"
      using me False w1(1,5) w3(1) by (simp add: upd_entry_def)
    moreover have "relinked w w3" using relinked_trans [OF relinked_trans [OF w1(3)] w3(3)] by simp
    moreover have "same_timers (tw_entries w1) (tw_entries ?w1)" using w1(5) by (simp add: same_timers_def)
    then have "same_timers (tw_entries w) (tw_entries w3)"
      using same_timers_trans same_data_timers w1(4) w3(4) by blast
    moreover have "mset (concat (?ess[unat k := ?ess ! unat k @ [e]])) = mset (concat ess)"
      using mset_buckets_update [of "unat k" ?ess "?ess ! unat k @ [e]"] mset_buckets_update [OF il, of "us @ vs"] kl i(2) by simp
    moreover have "?ess[unat k := ?ess ! unat k @ [e]] ! i = us @ vs" using ki il by simp
    moreover have "\<forall>j < length ess. set (?ess[unat k := ?ess ! unat k @ [e]] ! j) \<subseteq> insert e (set (ess ! j))"
      using kl il i(2) by (auto simp: nth_list_update)
    ultimately show ?thesis using w3(2) by (metis length_list_update)
  qed
qed

text \<open>
  The effect of a part of a tick: no entry is lost, what fires is due, what stays in a bucket was
  there or is not due, and only links, slots and the position of the wheel change.
\<close>

definition wheel_frame :: "TimerWheel \<Rightarrow> TimerWheel \<Rightarrow> bool" where
  "wheel_frame w w' \<longleftrightarrow> w' = w\<lparr>tw_entries := tw_entries w', tw_buckets := tw_buckets w', tw_slot := tw_slot w'\<rparr>"

lemma wheel_frame_simps:
  assumes "wheel_frame w w'"
  shows "tw_size w' = tw_size w" "tw_tick w' = tw_tick w" "tw_time w' = tw_time w"
    "tw_free w' = tw_free w" "tw_min w' = tw_min w" "tw_allocated w' = tw_allocated w"
  using assms by (cases w; cases w'; simp add: wheel_frame_def)+

lemma wheel_frame_refl [simp]: "wheel_frame w w" by (simp add: wheel_frame_def)

lemma wheel_frame_trans: "wheel_frame w w' \<Longrightarrow> wheel_frame w' w'' \<Longrightarrow> wheel_frame w w''"
  by (cases w; cases w'; cases w''; simp add: wheel_frame_def)

lemma relinked_frame: "relinked w w' \<Longrightarrow> wheel_frame w w'"
  by (cases w; cases w'; simp add: wheel_frame_def relinked_def)

definition ticked ::
  "u64 \<Rightarrow> nat list \<Rightarrow> TimerWheel \<Rightarrow> nat list list \<Rightarrow> nat list \<Rightarrow> tick_locals \<Rightarrow> TimerWheel \<Rightarrow> nat list list \<Rightarrow> nat list \<Rightarrow> bool" where
  "ticked now fl w ess fs l' w' ess' fs' \<longleftrightarrow>
     linked w' ess' fs' fl \<and> locals_rep l' fs' \<and> tracked now l' w' ess' \<and> length ess' = length ess \<and>
     same_timers (tw_entries w) (tw_entries w') \<and>
     mset (concat ess') + mset fs' = mset (concat ess) + mset fs \<and>
     (\<exists>new. fs' = fs @ new \<and> (\<forall>e \<in> set new. deadline_of (tw_entries w) e \<le> now)) \<and>
     (\<forall>j < length ess. \<forall>e \<in> set (ess' ! j). e \<in> set (ess ! j) \<or> now < deadline_of (tw_entries w) e) \<and>
     wheel_frame w w'"

lemma ticked_refl:
  "linked w ess fs fl \<Longrightarrow> locals_rep l fs \<Longrightarrow> tracked now l w ess \<Longrightarrow> ticked now fl w ess fs l w ess fs"
  by (simp add: ticked_def same_data_timers)

lemma ticked_trans:
  assumes a: "ticked now fl w ess fs l1 w1 ess1 fs1" and b: "ticked now fl w1 ess1 fs1 l2 w2 ess2 fs2"
  shows "ticked now fl w ess fs l2 w2 ess2 fs2"
proof -
  have d: "deadline_of (tw_entries w1) = deadline_of (tw_entries w)"
    using a same_timers_deadline unfolding ticked_def by blast
  obtain n1 n2 where "fs1 = fs @ n1" "\<forall>e \<in> set n1. deadline_of (tw_entries w) e \<le> now"
    "fs2 = fs1 @ n2" "\<forall>e \<in> set n2. deadline_of (tw_entries w) e \<le> now"
    using a b d unfolding ticked_def by auto
  then have "\<exists>new. fs2 = fs @ new \<and> (\<forall>e \<in> set new. deadline_of (tw_entries w) e \<le> now)"
    by (intro exI [of _ "n1 @ n2"]) auto
  moreover have "wheel_frame w w2" using a b wheel_frame_trans unfolding ticked_def by blast
  moreover have "same_timers (tw_entries w) (tw_entries w2)" using a b same_timers_trans unfolding ticked_def by blast
  moreover have "\<forall>j < length ess. \<forall>e \<in> set (ess2 ! j). e \<in> set (ess ! j) \<or> now < deadline_of (tw_entries w) e"
    using a b d unfolding ticked_def by metis
  ultimately show ?thesis using a b unfolding ticked_def by simp
qed

lemma tracked_mono:
  assumes "tracked now l w ess" "same_timers (tw_entries w) (tw_entries w')"
    and "mset (concat ess') + mset new = mset (concat ess)" "\<forall>e \<in> set new. deadline_of (tw_entries w) e \<le> now"
    and "found_pending l' = found_pending l" "new_min_deadline l' = new_min_deadline l"
  shows "tracked now l' w' ess'"
proof -
  have "set (concat ess') \<union> set new = set (concat ess)" using assms(3) by (metis set_mset_mset set_mset_union)
  then show ?thesis using assms(1,4-) same_timers_deadline [OF assms(2)] unfolding tracked_def by fastforce
qed

lemma tick_entry_step:
  assumes l: "linked w ess fs fl" and i: "i = unat (tw_slot w)" "ess ! i = us @ e # vs" and r: "tw_entries w e = Some r"
    and lr: "locals_rep l fs" "tracked now l w ess"
  shows "\<exists>l' w' ess' fs' us'. tick_entry now e r (l, w) = Some (l', w') \<and> ticked now fl w ess fs l' w' ess' fs'
    \<and> tw_slot w' = tw_slot w \<and> ess' ! i = us' @ vs
    \<and> (\<forall>x \<in> set us'. x \<in> set us \<or> now < deadline_of (tw_entries w) x)"
proof -
  note lk = l [unfolded linked_def]
  have il: "i < length ess" using lk i by (simp add: word_less_nat_alt)
  have nc: "\<not> te_cancelled r" using lk il i(2) r by (fastforce simp: placed_def at_slot_def)
  have dl: "deadline_of (tw_entries w) e = te_deadline_ms r" using r by (simp add: deadline_of_def)
  show ?thesis
  proof (cases "te_deadline_ms r \<le> now")
    case True
    let ?ess = "ess[i := us @ vs]"
    obtain l' w' where s: "fire_entry e (l, w) = Some (l', w')" "linked w' ?ess (fs @ [e]) fl"
      "relinked w w'" "same_data (tw_entries w) (tw_entries w')" "locals_rep l' (fs @ [e])"
      "found_pending l' = found_pending l" "new_min_deadline l' = new_min_deadline l"
      using fire_entry_step [OF l i(2) [unfolded i(1)] r lr(1)] i(1) by auto
    have m: "mset (concat ?ess) + mset [e] = mset (concat ess)"
      using mset_buckets_update [OF il, of "us @ vs"] i(2) by simp
    have st: "same_timers (tw_entries w) (tw_entries w')" using s(4) by (rule same_data_timers)
    have "tracked now l' w' ?ess" using tracked_mono [OF lr(2) st m] True dl s(6,7) by simp
    moreover have "\<forall>j < length ess. \<forall>x \<in> set (?ess ! j). x \<in> set (ess ! j)"
      using i(2) il by (auto simp: nth_list_update)
    ultimately have "ticked now fl w ess fs l' w' ?ess (fs @ [e])"
      using s(2,5) st m True dl relinked_frame [OF s(3)] unfolding ticked_def by (simp add: union_commute)
    moreover have "tick_entry now e r (l, w) = Some (l', w')" using s(1) nc True by (simp add: tick_entry_def)
    ultimately show ?thesis using relinked_simps(3) [OF s(3)] il
      by (intro exI [of _ l'] exI [of _ w'] exI [of _ ?ess] exI [of _ "fs @ [e]"] exI [of _ us]) simp
  next
    case False
    then have nd: "now < te_deadline_ms r" by simp
    obtain w' ess' where s: "move_entry now e r (l, w) = Some (track_min (te_deadline_ms r) l, w')" "linked w' ess' fs fl"
      "relinked w w'" "same_timers (tw_entries w) (tw_entries w')" "length ess' = length ess"
      "mset (concat ess') = mset (concat ess)" "ess' ! i = us @ vs \<or> ess' ! i = us @ e # vs"
      "\<forall>j < length ess. set (ess' ! j) \<subseteq> insert e (set (ess ! j))"
      using move_entry_step [OF l i r, of now l] by blast
    have eq: "set (concat ess') = set (concat ess)" using s(6) by (metis set_mset_mset)
    have "ess ! i \<in> set ess" using il by simp
    then have ein: "e \<in> set (concat ess')" using i(2) eq by force
    have t0: "tracked now l w' ess'" using tracked_mono [OF lr(2) s(4), of ess' "[]"] s(6) by simp
    have dl': "deadline_of (tw_entries w') e = te_deadline_ms r" using dl same_timers_deadline [OF s(4)] by simp
    have "tracked now (track_min (te_deadline_ms r) l) w' ess'"
      using t0 ein dl' nd unfolding tracked_def track_min_def by auto
    moreover have "locals_rep (track_min (te_deadline_ms r) l) fs"
      using lr(1) by (simp add: locals_rep_def track_min_def)
    moreover have "\<forall>j < length ess. \<forall>x \<in> set (ess' ! j). x \<in> set (ess ! j) \<or> now < deadline_of (tw_entries w) x"
      using s(8) dl nd by fastforce
    ultimately have "ticked now fl w ess fs (track_min (te_deadline_ms r) l) w' ess' fs"
      using s(2,4-6) relinked_frame [OF s(3)] unfolding ticked_def by simp
    moreover have "tick_entry now e r (l, w) = Some (track_min (te_deadline_ms r) l, w')"
      using s(1) nc nd False by (simp add: tick_entry_def)
    moreover have "\<exists>us'. ess' ! i = us' @ vs \<and> (\<forall>x \<in> set us'. x \<in> set us \<or> now < deadline_of (tw_entries w) x)"
      using s(7)
    proof
      assume "ess' ! i = us @ e # vs"
      then show ?thesis using nd dl by (intro exI [of _ "us @ [e]"]) auto
    qed auto
    ultimately show ?thesis using relinked_simps(3) [OF s(3)] by blast
  qed
qed

lemma tick_bucket_ok:
  assumes "linked w ess fs fl" "i = unat (tw_slot w)" "ess ! i = us @ ys" "locals_rep l fs" "tracked now l w ess"
  shows "\<exists>l' w' ess' fs'. tick_bucket now (first_of ys None) (l, w) = Some (l', w') \<and> ticked now fl w ess fs l' w' ess' fs'
    \<and> tw_slot w' = tw_slot w \<and> (\<forall>x \<in> set (ess' ! i). x \<in> set us \<or> now < deadline_of (tw_entries w) x)"
  using assms
proof (induction ys arbitrary: w ess fs us l)
  case Nil
  then show ?case
    by (intro exI [of _ l] exI [of _ w] exI [of _ ess] exI [of _ fs]) (simp add: tick_bucket.simps ticked_refl)
next
  case (Cons e ys)
  note lk = Cons.prems(1) [unfolded linked_def]
  have il: "i < length ess" using lk Cons.prems(2) by (simp add: word_less_nat_alt)
  then have sg: "seg (tw_entries w) None (us @ e # ys) None" using lk Cons.prems(3) by (metis nth_mem)
  then obtain r where r: "tw_entries w e = Some r" using seg_live by fastforce
  have nx: "te_next r = first_of ys None" using sg r by (simp add: seg_append)
  obtain l1 w1 ess1 fs1 us1 where s: "tick_entry now e r (l, w) = Some (l1, w1)" "ticked now fl w ess fs l1 w1 ess1 fs1"
    "tw_slot w1 = tw_slot w" "ess1 ! i = us1 @ ys" "\<forall>x \<in> set us1. x \<in> set us \<or> now < deadline_of (tw_entries w) x"
    using tick_entry_step [OF Cons.prems(1-3) r Cons.prems(4,5)] by blast
  have "linked w1 ess1 fs1 fl" "i = unat (tw_slot w1)" "locals_rep l1 fs1" "tracked now l1 w1 ess1"
    using s(2,3) Cons.prems(2) by (auto simp: ticked_def)
  then obtain l2 w2 ess2 fs2 where t: "tick_bucket now (first_of ys None) (l1, w1) = Some (l2, w2)"
    "ticked now fl w1 ess1 fs1 l2 w2 ess2 fs2" "tw_slot w2 = tw_slot w1"
    "\<forall>x \<in> set (ess2 ! i). x \<in> set us1 \<or> now < deadline_of (tw_entries w1) x"
    using Cons.IH s(4) by metis
  have "deadline_of (tw_entries w1) = deadline_of (tw_entries w)"
    using s(2) same_timers_deadline unfolding ticked_def by blast
  moreover have "tick_bucket now (first_of (e # ys) None) (l, w) = Some (l2, w2)"
    using r s(1) t(1) nx by (simp add: tick_bucket.simps [of now "Some e"])
  ultimately show ?case using ticked_trans [OF s(2) t(2)] t(3,4) s(3,5) by metis
qed

text \<open>The slots a tick visits, counted from the position of the wheel.\<close>

definition visited :: "TimerWheel \<Rightarrow> nat \<Rightarrow> nat set" where
  "visited w k = (\<lambda>t. (unat (tw_slot w) + t) mod unat (tw_size w)) ` {1..k}"

lemma next_slot:
  assumes "tw_slot w < tw_size w"
  shows "unat ((tw_slot w + 1) mod tw_size w) = (unat (tw_slot w) + 1) mod unat (tw_size w)"
proof -
  have "unat (tw_size w) < 2 ^ LENGTH(64)" by (rule unsigned_less)
  then have "unat (tw_slot w) + 1 < 2 ^ LENGTH(64)" using assms by (simp add: word_less_nat_alt)
  then have "unat (tw_slot w + 1) = unat (tw_slot w) + 1" by (simp add: unat_word_ariths(1))
  then show ?thesis by (simp add: unat_mod)
qed

lemma visited_step:
  assumes "tw_slot w1 = (tw_slot w + 1) mod tw_size w" "tw_size w1 = tw_size w" "tw_slot w < tw_size w"
  shows "visited w (Suc k) = insert (unat (tw_slot w1)) (visited w1 k)"
proof -
  have e: "{1..Suc k} = insert 1 (Suc ` {1..k})" by (auto simp: image_Suc_atLeastAtMost)
  show ?thesis unfolding visited_def assms(1,2) next_slot [OF assms(3)] e image_insert image_image
    by (simp add: mod_simps)
qed

lemma tick_slots_ok:
  assumes "linked w ess fs fl" "locals_rep l fs" "tracked now l w ess"
  shows "\<exists>l' w' ess' fs'. tick_slots now k (l, w) = Some (l', w') \<and> ticked now fl w ess fs l' w' ess' fs'
    \<and> (\<forall>v \<in> visited w k. \<forall>x \<in> set (ess' ! v). now < deadline_of (tw_entries w) x)"
  using assms
proof (induction k arbitrary: w ess fs l)
  case 0
  then show ?case
    by (intro exI [of _ l] exI [of _ w] exI [of _ ess] exI [of _ fs]) (simp add: ticked_refl visited_def)
next
  case (Suc k)
  note lk = Suc.prems(1) [unfolded linked_def]
  let ?s = "(tw_slot w + 1) mod tw_size w"
  let ?w = "w\<lparr>tw_slot := ?s\<rparr>"
  have pos: "0 < tw_size w" using lk by (blast intro: le_less_trans [OF word_zero_le])
  have sl: "?s < tw_size w" using word_mod_less_divisor [OF pos] .
  have lw: "linked ?w ess fs fl" using Suc.prems(1) sl by (simp add: linked_def)
  have vl: "unat ?s < length ess" using sl lk by (simp add: word_less_nat_alt)
  obtain l1 w1 ess1 fs1 where s: "tick_bucket now (first_of (ess ! unat ?s) None) (l, ?w) = Some (l1, w1)"
    "ticked now fl ?w ess fs l1 w1 ess1 fs1" "tw_slot w1 = ?s"
    "\<forall>x \<in> set (ess1 ! unat ?s). now < deadline_of (tw_entries w) x"
    using tick_bucket_ok [OF lw, of "unat ?s" "[]" "ess ! unat ?s" l now] Suc.prems(2,3) by (auto simp: tracked_def)
  have tk: "ticked now fl w ess fs l1 w1 ess1 fs1"
    using s(2) unfolding ticked_def wheel_frame_def by simp
  then have "linked w1 ess1 fs1 fl" "locals_rep l1 fs1" "tracked now l1 w1 ess1" and sz: "tw_size w1 = tw_size w"
    and len: "length ess1 = length ess"
    using wheel_frame_simps(1) by (auto simp: ticked_def)
  then obtain l2 w2 ess2 fs2 where t: "tick_slots now k (l1, w1) = Some (l2, w2)" "ticked now fl w1 ess1 fs1 l2 w2 ess2 fs2"
    "\<forall>v \<in> visited w1 k. \<forall>x \<in> set (ess2 ! v). now < deadline_of (tw_entries w1) x"
    using Suc.IH by blast
  have d: "deadline_of (tw_entries w1) = deadline_of (tw_entries w)"
    using tk same_timers_deadline unfolding ticked_def by blast
  have "\<forall>x \<in> set (ess2 ! unat ?s). now < deadline_of (tw_entries w) x"
    using t(2) s(4) d vl len unfolding ticked_def by metis
  then have "\<forall>v \<in> visited w (Suc k). \<forall>x \<in> set (ess2 ! v). now < deadline_of (tw_entries w) x"
    using t(3) d visited_step [OF s(3) sz, of k] lk s(3) by simp
  moreover have "tick_slots now (Suc k) (l, w) = Some (l2, w2)"
    using pos vl lk s(1) t(1) by (simp add: checked_mod_def bucket_at_def bucket_of_def)
  ultimately show ?case using ticked_trans [OF tk t(2)] by blast
qed

subsection \<open>The cached minimum\<close>

lemma scan_bucket_ok:
  assumes "seg h p es None" "\<forall>e \<in> set es. \<exists>r. h e = Some r \<and> \<not> te_cancelled r"
  shows "scan_bucket h (first_of es None) l = Some (fold track_min (map (deadline_of h) es) l)"
  using assms
proof (induction es arbitrary: p l)
  case Nil
  then show ?case by (simp add: scan_bucket.simps)
next
  case (Cons e es)
  then obtain r where r: "h e = Some r" "\<not> te_cancelled r" by auto
  then have "te_next r = first_of es None" "seg h (Some e) es None" using Cons.prems(1) by auto
  then show ?case using Cons.IH [of "Some e"] Cons.prems(2) r
    by (simp add: scan_bucket.simps [of h "Some e"] deadline_of_def)
qed

lemma scan_buckets_ok:
  assumes "\<forall>es \<in> set ess. seg h None es None" "\<forall>e \<in> set (concat ess). \<exists>r. h e = Some r \<and> \<not> te_cancelled r"
  shows "scan_buckets h (map bucket_of ess) l = Some (fold track_min (map (deadline_of h) (concat ess)) l)"
  using assms
proof (induction ess arbitrary: l)
  case (Cons es ess)
  then have "scan_bucket h (first_of es None) l = Some (fold track_min (map (deadline_of h) es) l)"
    using scan_bucket_ok [of h None es l] by simp
  then show ?case using Cons by (simp add: bucket_of_def)
qed simp

lemma fold_track_min:
  "let l' = fold track_min ds l in found_pending l' = (found_pending l \<or> ds \<noteq> []) \<and>
     (found_pending l \<longrightarrow> new_min_deadline l' \<le> new_min_deadline l) \<and>
     (\<forall>d \<in> set ds. new_min_deadline l' \<le> d) \<and>
     (new_min_deadline l' \<in> set ds \<or> new_min_deadline l' = new_min_deadline l \<and> (found_pending l \<or> ds = []))"
proof (induction ds arbitrary: l)
  case (Cons d ds)
  show ?case using Cons [of "track_min d l"] unfolding Let_def
    by (auto simp: track_min_def split: if_splits)
qed simp

text \<open>
  Between operations nothing is fired, and the cached minimum is a lower bound of all deadlines,
  zero only when no timer is pending.
\<close>

definition timer_inv :: "TimerWheel \<Rightarrow> nat list list \<Rightarrow> nat list \<Rightarrow> bool" where
  "timer_inv w ess fl \<longleftrightarrow> linked w ess [] fl \<and>
     (\<forall>e \<in> set (concat ess). tw_min w \<le> deadline_of (tw_entries w) e) \<and> (concat ess \<noteq> [] \<longrightarrow> tw_min w \<noteq> 0)"

lemma visited_all:
  assumes "tw_slot w < tw_size w" "v < unat (tw_size w)"
  shows "v \<in> visited w (unat (tw_size w))"
proof -
  let ?n = "unat (tw_size w)" and ?s = "unat (tw_slot w)"
  have s: "?s < ?n" using assms(1) by (simp add: word_less_nat_alt)
  show ?thesis
  proof (cases "?s < v")
    case True
    then show ?thesis unfolding visited_def using assms(2) by (intro image_eqI [of _ _ "v - ?s"]) auto
  next
    case False
    then have "(?s + (?n - ?s + v)) mod ?n = v" using s assms(2) by simp
    moreover have "?n - ?s + v \<in> {1..?n}" using False s by auto
    ultimately show ?thesis unfolding visited_def by (metis image_eqI)
  qed
qed

lemma linked_min [simp]: "linked (w\<lparr>tw_min := m\<rparr>) ess fs fl = linked w ess fs fl"
  "linked (w\<lparr>tw_time := m\<rparr>) ess fs fl = linked w ess fs fl"
  by (simp_all add: linked_def)

lemma linked_forget_fired: "linked w ess fs fl \<Longrightarrow> linked w ess [] fl"
  by (auto simp: linked_def)

lemma linked_live:
  assumes "linked w ess fs fl" "e \<in> set (concat ess)"
  shows "\<exists>r. tw_entries w e = Some r \<and> \<not> te_cancelled r \<and> te_slot r < tw_size w"
proof -
  obtain es where "es \<in> set ess" "e \<in> set es" using assms(2) by auto
  then obtain i where "i < length ess" "e \<in> set (ess ! i)" by (metis in_set_conv_nth)
  then show ?thesis using assms(1) unfolding linked_def placed_def at_slot_def
    by (fastforce simp: word_less_nat_alt split: option.splits)
qed

lemma timer_tick_ok:
  assumes inv: "timer_inv w ess fl" and few: "length (concat ess) < 2 ^ 64"
  obtains ticks l w1 ess' fs m where "tick_count now w = Some ticks"
    "timer_tick now w = Some (first_of fs None, of_nat (length fs), w1\<lparr>tw_min := m, tw_time := now\<rparr>)"
    "ticked now fl w ess [] l w1 ess' fs"
    "\<forall>v \<in> visited w (unat ticks). \<forall>x \<in> set (ess' ! v). now < deadline_of (tw_entries w) x"
    "m = (if fs = [] then tw_min w else if concat ess' = [] then 0 else Min (deadline_of (tw_entries w) ` set (concat ess')))"
proof -
  have lk: "linked w ess [] fl" using inv by (simp add: timer_inv_def)
  have pos: "tw_tick w \<noteq> 0" using lk by (auto simp: linked_def)
  then obtain ticks where ticks: "tick_count now w = Some ticks" by (simp add: tick_count_def checked_div_def Let_def)
  have "locals_rep no_fired []" "tracked now no_fired w ess" by (simp_all add: no_fired_def locals_rep_def tracked_def)
  then obtain l w1 ess' fs where s: "tick_slots now (unat ticks) (no_fired, w) = Some (l, w1)" "ticked now fl w ess [] l w1 ess' fs"
    "\<forall>v \<in> visited w (unat ticks). \<forall>x \<in> set (ess' ! v). now < deadline_of (tw_entries w) x"
    using tick_slots_ok [OF lk] by blast
  have l1: "linked w1 ess' fs fl" and lr: "locals_rep l fs" and tr: "tracked now l w1 ess'" and fr: "wheel_frame w w1"
    and ms: "mset (concat ess') + mset fs = mset (concat ess)" and st: "same_timers (tw_entries w) (tw_entries w1)"
    using s(2) by (auto simp: ticked_def)
  have d: "deadline_of (tw_entries w1) = deadline_of (tw_entries w)" using same_timers_deadline [OF st] .
  have "length fs \<le> length (concat ess)" using arg_cong [OF ms, of size] by simp
  then have "unat (fired_count l) = length fs"
    using lr few by (simp add: locals_rep_def unsigned_of_nat take_bit_nat_eq_self)
  then have cnt: "0 < fired_count l \<longleftrightarrow> fs \<noteq> []" by (metis length_0_conv unsigned_eq_0_iff word_gt_0)
  define m where "m = (if fs = [] then tw_min w else if concat ess' = [] then 0 else Min (deadline_of (tw_entries w) ` set (concat ess')))"
  let ?l = "fold track_min (map (deadline_of (tw_entries w1)) (concat ess')) l"
  have sc: "scan_buckets (tw_entries w1) (tw_buckets w1) l = Some ?l"
    using scan_buckets_ok [of ess' "tw_entries w1" l] l1 linked_live [OF l1] unfolding linked_def by fastforce
  have mn: "(if found_pending ?l then new_min_deadline ?l else 0)
      = (if concat ess' = [] then 0 else Min (deadline_of (tw_entries w) ` set (concat ess')))"
  proof (cases "concat ess' = []")
    case True
    then have "\<not> found_pending l" using tr by (auto simp: tracked_def)
    then show ?thesis using True by (simp del: concat_eq_Nil_conv)
  next
    case False
    note f = fold_track_min [of "map (deadline_of (tw_entries w1)) (concat ess')" l, unfolded Let_def]
    have fp: "found_pending ?l" using f False by blast
    have "new_min_deadline ?l \<in> deadline_of (tw_entries w) ` set (concat ess')"
    proof (cases "new_min_deadline ?l \<in> set (map (deadline_of (tw_entries w1)) (concat ess'))")
      case True
      then show ?thesis unfolding d by (simp only: set_map)
    next
      case nin: False
      then have "new_min_deadline ?l = new_min_deadline l" "found_pending l" using f False by blast+
      then show ?thesis using tr d unfolding tracked_def by (metis image_eqI)
    qed
    then have "Min (deadline_of (tw_entries w) ` set (concat ess')) = new_min_deadline ?l"
      using f d by (intro Min_eqI) auto
    then show ?thesis using fp False by (simp del: concat_eq_Nil_conv)
  qed
  have "w1\<lparr>tw_min := tw_min w, tw_time := now\<rparr> = w1\<lparr>tw_time := now\<rparr>"
    using wheel_frame_simps(5) [OF fr] by (cases w1) simp
  then have "timer_tick now w = Some (first_of fs None, of_nat (length fs), w1\<lparr>tw_min := m, tw_time := now\<rparr>)"
    using ticks s(1) cnt sc mn lr by (auto simp: timer_tick_def m_def locals_rep_def simp del: concat_eq_Nil_conv)
  then show ?thesis using that ticks s(2,3) m_def by blast
qed

text \<open>
  C6. A tick moves every timer either into the list it returns or back into the wheel: no timer is
  lost or duplicated. Every returned timer is due, no timer that is due is left in a slot the tick
  visits (after a full rotation: in no slot at all), the returned list is properly linked and its
  length is reported, and the wheel invariant is kept. The cached next deadline: a tick that fires
  something makes it exact, the minimum of the pending deadlines or 0 when none is pending; a tick
  that fires nothing leaves it as it was, by the invariant a lower bound of the pending deadlines
  (cancelling a timer does not update it).
\<close>

theorem timer_tick_correct:
  assumes inv: "timer_inv w ess fl" and few: "length (concat ess) < 2 ^ 64"
  shows "\<exists>ticks fs ess' w'. tick_count now w = Some ticks
    \<and> timer_tick now w = Some (first_of fs None, of_nat (length fs), w') \<and> timer_inv w' ess' fl
    \<and> seg (tw_entries w') None fs None \<and> mset (concat ess') + mset fs = mset (concat ess)
    \<and> same_timers (tw_entries w) (tw_entries w') \<and> (\<forall>e \<in> set fs. deadline_of (tw_entries w) e \<le> now)
    \<and> (\<forall>v \<in> visited w (unat ticks). \<forall>e \<in> set (ess' ! v). now < deadline_of (tw_entries w) e)
    \<and> (ticks = tw_size w \<longrightarrow> (\<forall>e \<in> set (concat ess'). now < deadline_of (tw_entries w) e))
    \<and> timer_next_deadline w' = (if fs = [] then timer_next_deadline w else if concat ess' = [] then 0
        else Min (deadline_of (tw_entries w) ` set (concat ess')))"
proof -
  obtain ticks l w1 ess' fs m where t: "tick_count now w = Some ticks"
    "timer_tick now w = Some (first_of fs None, of_nat (length fs), w1\<lparr>tw_min := m, tw_time := now\<rparr>)"
    "ticked now fl w ess [] l w1 ess' fs"
    "\<forall>v \<in> visited w (unat ticks). \<forall>x \<in> set (ess' ! v). now < deadline_of (tw_entries w) x"
    "m = (if fs = [] then tw_min w else if concat ess' = [] then 0 else Min (deadline_of (tw_entries w) ` set (concat ess')))"
    by (rule timer_tick_ok [OF inv few, of now])
  let ?w = "w1\<lparr>tw_min := m, tw_time := now\<rparr>" and ?D = "deadline_of (tw_entries w)"
  have k: "linked w1 ess' fs fl" "same_timers (tw_entries w) (tw_entries w1)" "wheel_frame w w1"
    "mset (concat ess') + mset fs = mset (concat ess)" "\<forall>e \<in> set fs. ?D e \<le> now" "length ess' = length ess"
    using t(3) by (auto simp: ticked_def)
  have d: "deadline_of (tw_entries w1) = ?D" using same_timers_deadline [OF k(2)] .
  have sub: "set (concat ess') \<subseteq> set (concat ess)" using k(4) by (metis set_mset_mset set_mset_union sup_ge1)
  have bound: "\<forall>e \<in> set (concat ess'). tw_min w \<le> ?D e \<and> tw_min w \<noteq> 0"
  proof
    fix e assume "e \<in> set (concat ess')"
    then have "e \<in> set (concat ess)" using sub by blast
    then show "tw_min w \<le> ?D e \<and> tw_min w \<noteq> 0" using inv unfolding timer_inv_def by (auto simp del: set_concat concat_eq_Nil_conv)
  qed
  have mok: "(\<forall>e \<in> set (concat ess'). m \<le> ?D e) \<and> (concat ess' \<noteq> [] \<longrightarrow> m \<noteq> 0)"
  proof (cases "fs = [] \<or> concat ess' = []")
    case True
    then show ?thesis using bound t(5) by (cases "concat ess'") (auto simp del: set_concat concat_eq_Nil_conv)
  next
    case False
    then have m: "m = Min (?D ` set (concat ess'))" using t(5) by argo
    have "?D ` set (concat ess') \<noteq> {}" using False by (simp del: set_concat concat_eq_Nil_conv)
    then have "m \<in> ?D ` set (concat ess')" unfolding m by (intro Min_in) simp_all
    then obtain e where "e \<in> set (concat ess')" "m = ?D e" by blast
    then have "tw_min w \<le> m \<and> tw_min w \<noteq> 0" using bound by blast
    then have "m \<noteq> 0" by auto
    then show ?thesis using m by simp
  qed
  have sl: "tw_slot w < tw_size w" "length ess = unat (tw_size w)"
    using inv unfolding timer_inv_def linked_def by blast+
  have "timer_inv ?w ess' fl"
    using k(1) linked_forget_fired mok d unfolding timer_inv_def by simp
  moreover have "\<forall>e \<in> set (concat ess'). now < ?D e" if full: "ticks = tw_size w"
  proof
    fix e assume "e \<in> set (concat ess')"
    then obtain es where "es \<in> set ess'" "e \<in> set es" by auto
    then obtain v where v: "v < length ess'" "e \<in> set (ess' ! v)" by (metis in_set_conv_nth)
    have "v \<in> visited w (unat ticks)"
      using visited_all [OF sl(1), of v] v(1) k(6) full sl(2) by simp
    then show "now < ?D e" using t(4) v(2) by blast
  qed
  moreover have "seg (tw_entries ?w) None fs None" using k(1) by (simp add: linked_def)
  moreover have "timer_next_deadline ?w = (if fs = [] then timer_next_deadline w else if concat ess' = [] then 0
        else Min (?D ` set (concat ess')))"
    using t(5) by (simp add: timer_next_deadline_def del: concat_eq_Nil_conv)
  ultimately show ?thesis using t(1,2,4) k(2,4,5)
    by (intro exI [of _ ticks] exI [of _ fs] exI [of _ ess'] exI [of _ ?w]) (simp del: concat_eq_Nil_conv)
qed

text \<open>A wheel with two slots and two timers, one of them due at 120.\<close>

definition two_timers :: TimerWheel where
  "two_timers = \<lparr>tw_size = 2, tw_tick = 10, tw_buckets = [empty_bucket, \<lparr>tb_head = Some 0, tb_tail = Some 1\<rparr>],
     tw_slot = 0, tw_time = 100, tw_free = None, tw_allocated = 2, tw_min = 110,
     tw_entries = [0 \<mapsto> zero_entry\<lparr>te_deadline_ms := 110, te_next := Some 1, te_slot := 1\<rparr>,
                   1 \<mapsto> zero_entry\<lparr>te_deadline_ms := 130, te_prev := Some 0, te_slot := 1\<rparr>]\<rparr>"

lemma two_timers_inv: "timer_inv two_timers [[], [0, 1]] []"
  by (simp add: timer_inv_def linked_def placed_def at_slot_def two_timers_def zero_entry_def bucket_of_def
      empty_bucket_def last_of_def deadline_of_def less_Suc_eq)

lemma timer_tick_correct_witness:
  "timer_inv two_timers [[], [0, 1]] [] \<and> (\<exists>fs ess' w' ticks. timer_tick 110 two_timers = Some (first_of fs None, of_nat (length fs), w')
    \<and> tick_count 110 two_timers = Some ticks \<and> mset (concat ess') + mset fs = {#0, 1#} \<and> timer_inv w' ess' [])"
proof -
  have i: "timer_inv two_timers [[], [0, 1]] []" by (rule two_timers_inv)
  then show ?thesis using timer_tick_correct [OF i, of 110] by fastforce
qed

subsection \<open>Adding, cancelling, destroying\<close>

lemma timer_wheel_new_inv:
  assumes "cfg_wheel_size cfg \<noteq> 0" "cfg_tick_ms cfg \<noteq> 0"
  shows "\<exists>w. timer_wheel_new True True now (Some cfg) = Some w \<and> timer_inv w (replicate (unat (cfg_wheel_size cfg)) []) []"
  using assms by (simp add: timer_wheel_new_def timer_inv_def linked_def bucket_of_def empty_bucket_def placed_def
      word_gt_0 map_replicate_const)

lemma linked_alloc:
  assumes l: "linked w ess [] fl" and e: "timer_entry_alloc mem w = Some (Some e, w1)"
    and fresh: "\<forall>a. mem = Some a \<longrightarrow> tw_entries w a = None"
  shows "\<exists>fl'. linked w1 ess [] fl' \<and> e \<notin> set (concat ess @ fl') \<and> set fl' \<subseteq> set fl \<and> tw_entries w1 e = Some zero_entry
    \<and> (\<forall>a. a \<noteq> e \<longrightarrow> tw_entries w1 a = tw_entries w a) \<and> tw_min w1 = tw_min w \<and> tw_slot w1 = tw_slot w
    \<and> tw_tick w1 = tw_tick w \<and> tw_size w1 = tw_size w"
proof (cases fl)
  case Nil
  then have fr: "tw_free w = None" using l by (simp add: linked_def)
  then have m: "mem = Some e" and w1: "w1 = w\<lparr>tw_entries := (tw_entries w)(e \<mapsto> zero_entry), tw_allocated := tw_allocated w + 1\<rparr>"
    using e by (auto simp: timer_entry_alloc_def split: option.splits)
  have ne: "e \<notin> set (concat ess @ [] @ fl)" using linked_live [OF l, of e] fresh m Nil by auto
  have "linked (w\<lparr>tw_entries := (tw_entries w)(e \<mapsto> zero_entry)\<rparr>) ess [] fl" by (rule wheel_other [OF l ne])
  then have "linked w1 ess [] fl" unfolding w1 linked_def by simp
  then show ?thesis using ne Nil w1 by (intro exI [of _ fl]) simp
next
  case (Cons a fl')
  then obtain r where r: "tw_free w = Some a" "tw_entries w a = Some r" "free_chain_rep (tw_entries w) (te_next r) fl'"
    using l by (auto simp: linked_def split: option.splits)
  then have ea: "e = a" and w1: "w1 = w\<lparr>tw_free := te_next r, tw_entries := (tw_entries w)(a \<mapsto> zero_entry)\<rparr>"
    using e by (auto simp: timer_entry_alloc_def)
  have "linked (w\<lparr>tw_free := te_next r\<rparr>) ess [] fl'" using l r Cons by (auto simp: linked_def)
  moreover have ne: "e \<notin> set (concat ess @ [] @ fl')" using l Cons ea by (auto simp: linked_def)
  ultimately have "linked ((w\<lparr>tw_free := te_next r\<rparr>)\<lparr>tw_entries := (tw_entries w)(e \<mapsto> zero_entry)\<rparr>) ess [] fl'"
    using wheel_other by fastforce
  then have "linked w1 ess [] fl'" unfolding w1 ea by simp
  then show ?thesis using ne Cons w1 ea by (intro exI [of _ fl']) auto
qed

lemma linked_free:
  assumes l: "linked w ess fs fl" and e: "e \<notin> set (concat ess @ fs @ fl)" and r: "tw_entries w e = Some r"
  shows "\<exists>w'. timer_entry_free e w = Some w' \<and> linked w' ess fs (e # fl) \<and> tw_free w' = Some e
    \<and> (\<forall>a. a \<noteq> e \<longrightarrow> tw_entries w' a = tw_entries w a) \<and> tw_min w' = tw_min w"
proof -
  let ?w = "w\<lparr>tw_entries := (tw_entries w)(e \<mapsto> r\<lparr>te_next := tw_free w, te_prev := None, te_cancelled := False\<rparr>)\<rparr>"
  have "linked ?w ess fs fl" by (rule wheel_other [OF l e])
  then have "linked (?w\<lparr>tw_free := Some e\<rparr>) ess fs (e # fl)" using e by (auto simp: linked_def)
  then show ?thesis using r by (simp add: timer_entry_free_def upd_entry_def)
qed

lemma saturating_add:
  fixes a b :: u64
  shows "unat (if UINT64_MAX - a < b then UINT64_MAX else a + b) = min (unat a + unat b) (2 ^ 64 - 1)"
proof -
  have m: "unat (UINT64_MAX) = 2 ^ 64 - 1" by (simp add: unsigned_minus_1_eq_mask mask_eq_exp_minus_1)
  have "unat (UINT64_MAX - a) = 2 ^ 64 - 1 - unat a" using unat_sub [of a UINT64_MAX] m by simp
  moreover have "unat a < 2 ^ LENGTH(64)" by (rule unsigned_less)
  ultimately show ?thesis using m
    by (auto simp: word_less_nat_alt unat_word_ariths(1))
qed

text \<open>Adding: the deadline saturates, and the timer is filed behind the current position.\<close>

lemma timer_add_ok:
  assumes inv: "timer_inv w ess fl" and fresh: "\<forall>a. mem = Some a \<longrightarrow> tw_entries w a = None" and now: "now \<noteq> 0"
    and add: "timer_add mem now pid timeout cb ctx w = Some (Some e, w')"
  shows "\<exists>ess' fl' i. timer_inv w' ess' fl' \<and> i < length ess \<and> ess' = ess[i := ess ! i @ [e]] \<and> e \<notin> set (concat ess)
    \<and> unat (deadline_of (tw_entries w') e) = min (unat now + unat timeout) (2 ^ 64 - 1)
    \<and> (\<forall>a \<in> set (concat ess). deadline_of (tw_entries w') a = deadline_of (tw_entries w) a)"
proof -
  have l: "linked w ess [] fl" using inv by (simp add: timer_inv_def)
  define d where "d = (if UINT64_MAX - now < timeout then UINT64_MAX else now + timeout)"
  obtain w1 where a: "timer_entry_alloc mem w = Some (Some e, w1)"
    using add by (auto simp: timer_add_def Let_def split: option.splits bind_splits)
  obtain fl' where w1: "linked w1 ess [] fl'" "e \<notin> set (concat ess @ fl')" "tw_entries w1 e = Some zero_entry"
    "\<forall>a. a \<noteq> e \<longrightarrow> tw_entries w1 a = tw_entries w a" "tw_min w1 = tw_min w"
    using linked_alloc [OF l a fresh] by blast
  have pos: "tw_tick w1 \<noteq> 0" "0 < tw_size w1" using w1(1) unfolding linked_def
    by (auto intro: le_less_trans [OF word_zero_le])
  define k where "k = (tw_slot w1 + (if timeout div tw_tick w1 = 0 then 1 else timeout div tw_tick w1)) mod tw_size w1"
  have kl: "unat k < length ess" using word_mod_less_divisor [OF pos(2)] w1(1)
    by (simp add: k_def linked_def word_less_nat_alt)
  let ?r = "zero_entry\<lparr>te_block_pid := pid, te_callback := cb, te_callback_ctx := ctx, te_cancelled := False,
    te_deadline_ms := d, te_slot := k\<rparr>"
  let ?w1 = "w1\<lparr>tw_entries := (tw_entries w1)(e \<mapsto> ?r)\<rparr>"
  have "linked ?w1 ess [] fl'" using wheel_other [OF w1(1)] w1(2) by simp
  then obtain w2 where w2: "bucket_add (unat k) e ?w1 = Some w2" "linked w2 (ess[unat k := ess ! unat k @ [e]]) [] fl'"
    "relinked ?w1 w2" "same_data (tw_entries ?w1) (tw_entries w2)"
    using linked_add [of ?w1 ess "[]" fl' "unat k" e ?r] kl w1(2) by auto
  have w': "w' = (if tw_min w2 = 0 \<or> d < tw_min w2 then w2\<lparr>tw_min := d\<rparr> else w2)"
    using add [unfolded timer_add_def] a w1(3) pos w2(1)
    by (simp add: checked_div_def checked_mod_def upd_entry_def Let_def word_gt_0 flip: k_def d_def)
  have dl: "deadline_of (tw_entries w') = deadline_of (tw_entries ?w1)"
    using same_timers_deadline [OF same_data_timers [OF w2(4)]] unfolding w' by simp
  have du: "unat d = min (unat now + unat timeout) (2 ^ 64 - 1)"
    unfolding d_def by (rule saturating_add)
  moreover have "unat now \<noteq> 0" using now by (simp add: unsigned_eq_0_iff)
  ultimately have "unat d \<noteq> 0" by simp
  then have d0: "d \<noteq> 0" by auto
  let ?ess = "ess[unat k := ess ! unat k @ [e]]"
  have l': "linked w' ?ess [] fl'" using w2(2) unfolding w' by simp
  have "mset (concat ?ess) = add_mset e (mset (concat ess))"
    using mset_buckets_update [OF kl, of "ess ! unat k @ [e]"] by simp
  then have st: "set (concat ?ess) = insert e (set (concat ess))" by (metis set_mset_add_mset_insert set_mset_mset)
  have de: "deadline_of (tw_entries w') e = d" unfolding dl by (simp add: deadline_of_def)
  have da: "deadline_of (tw_entries w') a = deadline_of (tw_entries w) a" if "a \<in> set (concat ess)" for a
    using that w1(2,4) unfolding dl by (auto simp: deadline_of_def)
  have mn: "tw_min w2 = tw_min w" using relinked_simps(6) [OF w2(3)] w1(5) by simp
  have "tw_min w' \<noteq> 0" "tw_min w' \<le> d" "tw_min w = 0 \<or> tw_min w' \<le> tw_min w"
    unfolding w' mn [symmetric] using d0 by auto
  moreover have "\<forall>a \<in> set (concat ess). tw_min w \<noteq> 0 \<and> tw_min w \<le> deadline_of (tw_entries w) a"
    using inv unfolding timer_inv_def by (auto simp del: set_concat concat_eq_Nil_conv)
  ultimately have "timer_inv w' ?ess fl'"
    using l' de da unfolding timer_inv_def st by (auto simp del: set_concat intro: order_trans)
  then show ?thesis using kl w1(2) du de da by (intro exI [of _ ?ess] exI [of _ fl'] exI [of _ "unat k"]) simp
qed

text \<open>The cancelled flag does not matter to unlinking.\<close>

lemma entries_eq: "w\<lparr>tw_entries := h\<rparr> = w\<lparr>tw_entries := h'\<rparr> \<longleftrightarrow> h = h'"
  "w\<lparr>tw_buckets := b, tw_entries := h\<rparr> = w\<lparr>tw_buckets := b, tw_entries := h'\<rparr> \<longleftrightarrow> h = h'"
  by (cases w; simp)+

lemma bucket_remove_flag:
  assumes "tw_entries w e = Some r" "te_prev r \<noteq> Some e" "te_next r \<noteq> Some e" "bucket_remove i e w = Some w'"
    and "tw_entries w' e = Some r'"
  shows "bucket_remove i e (w\<lparr>tw_entries := (tw_entries w)(e \<mapsto> r\<lparr>te_cancelled := c\<rparr>)\<rparr>)
    = Some (w'\<lparr>tw_entries := (tw_entries w')(e \<mapsto> r'\<lparr>te_cancelled := c\<rparr>)\<rparr>)"
  using assms
  by (cases "te_prev r"; cases "te_next r")
    (auto simp: bucket_remove_def upd_entry_def upd_bucket_def entries_eq fun_eq_iff split: option.splits if_splits)

text \<open>Cancelling a pending timer removes it, and only it.\<close>

lemma timer_cancel_ok:
  assumes inv: "timer_inv w ess fl" and e: "e \<in> set (concat ess)"
  shows "\<exists>w' ess'. timer_cancel (Some e) w = Some (True, w') \<and> timer_inv w' ess' (e # fl)
    \<and> add_mset e (mset (concat ess')) = mset (concat ess)
    \<and> (\<forall>a \<in> set (concat ess'). deadline_of (tw_entries w') a = deadline_of (tw_entries w) a)"
proof -
  have l: "linked w ess [] fl" using inv by (simp add: timer_inv_def)
  obtain r where r: "tw_entries w e = Some r" "\<not> te_cancelled r" "te_slot r < tw_size w"
    using linked_live [OF l e] by blast
  obtain es where "es \<in> set ess" "e \<in> set es" using e by auto
  then obtain i where i: "i < length ess" "e \<in> set (ess ! i)" by (metis in_set_conv_nth)
  then obtain us vs where uv: "ess ! i = us @ e # vs" by (meson split_list)
  have si: "unat (te_slot r) = i" using l i r(1) by (fastforce simp: linked_def placed_def at_slot_def)
  let ?ess = "ess[i := us @ vs]"
  obtain w1 where w1: "bucket_remove i e w = Some w1" "linked w1 ?ess [] fl" "relinked w w1"
    "same_data (tw_entries w) (tw_entries w1)" "tw_entries w1 e = Some (te_data r)" "e \<notin> set (concat ?ess @ [] @ fl)"
    using linked_remove [OF l i(1) uv r(1)] by blast
  have sg: "seg (tw_entries w) None (us @ e # vs) None" using l i(1) uv unfolding linked_def by (metis nth_mem)
  have "distinct (concat ess)" using l by (simp add: linked_def)
  then have "distinct (ess ! i)" using i(1) by (meson distinct_concat_iff nth_mem)
  then have "te_prev r \<noteq> Some e" "te_next r \<noteq> Some e"
    using sg r(1) uv by (auto simp: seg_append last_of_def first_of_def split: list.splits if_splits)
  let ?r = "(te_data r)\<lparr>te_cancelled := True\<rparr>"
  let ?w1 = "w1\<lparr>tw_entries := (tw_entries w1)(e \<mapsto> ?r)\<rparr>"
  have rm: "bucket_remove i e (w\<lparr>tw_entries := (tw_entries w)(e \<mapsto> r\<lparr>te_cancelled := True\<rparr>)\<rparr>) = Some ?w1"
    by (rule bucket_remove_flag) (fact+)
  have "linked ?w1 ?ess [] fl" by (rule wheel_other [OF w1(2,6)])
  then obtain w2 where w2: "timer_entry_free e ?w1 = Some w2" "linked w2 ?ess [] (e # fl)"
    "\<forall>a. a \<noteq> e \<longrightarrow> tw_entries w2 a = tw_entries ?w1 a" "tw_min w2 = tw_min ?w1"
    using linked_free [of ?w1 ?ess "[]" fl e ?r] w1(6) by auto
  have c: "timer_cancel (Some e) w = Some (True, w2)"
    using r si rm w2(1) by (simp add: timer_cancel_def upd_entry_def)
  have m: "add_mset e (mset (concat ?ess)) = mset (concat ess)"
    using mset_buckets_update [OF i(1), of "us @ vs"] uv by simp
  then have sub: "set (concat ess) = insert e (set (concat ?ess))" by (metis set_mset_add_mset_insert set_mset_mset)
  have d: "deadline_of (tw_entries w2) a = deadline_of (tw_entries w) a" if "a \<in> set (concat ?ess)" for a
  proof -
    have "a \<noteq> e" using that w1(6) by auto
    then have "deadline_of (tw_entries w2) a = deadline_of (tw_entries w1) a" using w2(3) by (simp add: deadline_of_def)
    then show ?thesis using same_timers_deadline [OF same_data_timers [OF w1(4)]] by simp
  qed
  have "tw_min w2 = tw_min w" using w2(4) relinked_simps(6) [OF w1(3)] by simp
  moreover have "\<forall>a \<in> set (concat ess). tw_min w \<noteq> 0 \<and> tw_min w \<le> deadline_of (tw_entries w) a"
    using inv unfolding timer_inv_def by (auto simp del: set_concat concat_eq_Nil_conv)
  ultimately have "timer_inv w2 ?ess (e # fl)"
    using w2(2) d sub unfolding timer_inv_def
    by (cases "concat ?ess") (auto simp del: set_concat concat_eq_Nil_conv)
  then show ?thesis using c m d by blast
qed

text \<open>Destroying a wheel frees every pending and every recycled entry, once.\<close>

lemma free_entries_seg:
  assumes "seg h p es None" "distinct es"
  shows "free_entries (first_of es None) h = Some (h |` (- set es))"
  using assms
proof (induction es arbitrary: h p)
  case Nil
  then show ?case by (simp add: free_entries.simps)
next
  case (Cons e es)
  then obtain r where r: "h e = Some r" "te_next r = first_of es None" "seg h (Some e) es None"
    by (auto split: option.splits)
  have "h(e := None) |` (- set es) = h |` (- set (e # es))" by (auto simp: restrict_map_def)
  moreover have "seg (h(e := None)) (Some e) es None" using r(3) Cons.prems(2) by simp
  then have "free_entries (first_of es None) (h(e := None)) = Some (h(e := None) |` (- set es))"
    using Cons.IH Cons.prems(2) by (metis distinct.simps(2))
  ultimately have "free_entries (first_of es None) (h(e := None)) = Some (h |` (- set (e # es)))" by (simp only:)
  then show ?case using r(1,2) by (simp add: free_entries.simps [of "Some e"])
qed

lemma free_entries_chain:
  assumes "free_chain_rep h p es" "distinct es"
  shows "free_entries p h = Some (h |` (- set es))"
  using assms
proof (induction es arbitrary: h p)
  case Nil
  then show ?case by (simp add: free_entries.simps)
next
  case (Cons e es)
  then obtain r where r: "p = Some e" "h e = Some r" "free_chain_rep h (te_next r) es"
    by (auto split: option.splits)
  have "h(e := None) |` (- set es) = h |` (- set (e # es))" by (auto simp: restrict_map_def)
  moreover have "free_chain_rep (h(e := None)) (te_next r) es" using r(3) Cons.prems(2) by simp
  then have "free_entries (te_next r) (h(e := None)) = Some (h(e := None) |` (- set es))"
    using Cons.IH Cons.prems(2) by (metis distinct.simps(2))
  ultimately have "free_entries (te_next r) (h(e := None)) = Some (h |` (- set (e # es)))" by (simp only:)
  then show ?case using r(1,2) by (simp add: free_entries.simps [of "Some e"])
qed

lemma free_buckets_ok:
  assumes "\<forall>es \<in> set ess. seg h None es None" "distinct (concat ess)"
  shows "free_buckets (map bucket_of ess) h = Some (h |` (- set (concat ess)))"
  using assms
proof (induction ess arbitrary: h)
  case (Cons es ess)
  have s: "seg h None es None" "distinct es" using Cons.prems by auto
  have "\<forall>es' \<in> set ess. seg (h |` (- set es)) None es' None"
  proof
    fix es' assume "es' \<in> set ess"
    then have "\<forall>e \<in> set es'. (h |` (- set es)) e = h e" "seg h None es' None"
      using Cons.prems by (auto simp: restrict_map_def)
    then show "seg (h |` (- set es)) None es' None" using seg_cong by blast
  qed
  then have "free_buckets (map bucket_of ess) (h |` (- set es)) = Some ((h |` (- set es)) |` (- set (concat ess)))"
    using Cons.IH [of "h |` (- set es)"] Cons.prems(2) by simp
  moreover have "(h |` (- set es)) |` (- set (concat ess)) = h |` (- set (concat (es # ess)))"
    by (auto simp: restrict_map_def)
  moreover have "tb_head (bucket_of es) = first_of es None" by (simp add: bucket_of_def)
  ultimately show ?case using free_entries_seg [OF s] by simp
qed (simp add: restrict_map_def)

lemma timer_wheel_free_ok:
  assumes "timer_inv w ess fl"
  shows "timer_wheel_free w = Some (tw_entries w |` (- set (concat ess @ fl)))"
proof -
  note l = assms [unfolded timer_inv_def linked_def]
  let ?h = "tw_entries w |` (- set (concat ess))"
  have "\<forall>e \<in> set fl. ?h e = tw_entries w e" using l by (auto simp: restrict_map_def)
  then have "free_chain_rep ?h (tw_free w) fl" using l free_chain_cong by blast
  then have "free_entries (tw_free w) ?h = Some (?h |` (- set fl))" using free_entries_chain l by simp
  moreover have "?h |` (- set fl) = tw_entries w |` (- set (concat ess @ fl))" by (auto simp: restrict_map_def)
  ultimately show ?thesis using free_buckets_ok [of ess "tw_entries w"] l by (simp add: timer_wheel_free_def)
qed

text \<open>What \<^verbatim>\<open>bucket_remove\<close> does to the buckets when the entry is linked into some other list.\<close>

lemma bucket_remove_foreign:
  assumes sg: "seg (tw_entries w) None (us @ e # vs) None" and d: "distinct (us @ e # vs)"
    and i: "i < length (tw_buckets w)"
  shows "\<exists>w'. bucket_remove i e w = Some w' \<and> tw_free w' = tw_free w \<and> tw_entries w' e \<noteq> None
    \<and> tw_buckets w' = (tw_buckets w)[i := (tw_buckets w ! i)
        \<lparr>tb_head := (if us = [] then first_of vs None else tb_head (tw_buckets w ! i)),
         tb_tail := (if vs = [] then last_of us None else tb_tail (tw_buckets w ! i))\<rparr>]"
proof -
  obtain r where r: "tw_entries w e = Some r" "te_prev r = last_of us None" "te_next r = first_of vs None"
    using sg by (auto simp: seg_append split: option.splits)
  have "\<exists>q. tw_entries w p = Some q" if "p \<in> set (us @ e # vs)" for p
    using seg_live [OF sg] that by blast
  then have live: "\<exists>q. tw_entries w p = Some q" if "last_of us None = Some p \<or> first_of vs None = Some p" for p
    using that by (cases us rule: rev_cases; cases vs) auto
  have ne: "p \<noteq> e" if "last_of us None = Some p \<or> first_of vs None = Some p" for p
    using d that by (cases us rule: rev_cases; cases vs) auto
  have nn: "last_of us None = None \<longleftrightarrow> us = []" "first_of vs None = None \<longleftrightarrow> vs = []"
    by (cases us rule: rev_cases; cases vs; simp)+
  note ops = bucket_remove_def upd_entry_def upd_bucket_def
  show ?thesis
  proof (cases "last_of us None")
    case None
    then show ?thesis using r i live ne nn
      by (cases "first_of vs None") (fastforce simp: ops)+
  next
    case (Some a)
    then obtain q where q: "tw_entries w a = Some q" "e \<noteq> a" using live ne by metis
    show ?thesis
    proof (cases "first_of vs None")
      case None
      then show ?thesis using r i q Some nn by (simp add: ops)
    next
      case (Some b)
      then obtain q' where "tw_entries w b = Some q'" "e \<noteq> b" using live ne by metis
      then show ?thesis using r q Some \<open>last_of us None = Some a\<close> nn by (cases "a = b") (simp_all add: ops)
    qed
  qed
qed

text \<open>
  C14. Cancelling a timer that a tick has returned damages the wheel. The call passes the
  \<^verbatim>\<open>cancelled\<close> check, reports success and puts the entry on the free list although the caller's
  list of fired timers still holds it. The links of the entry are by then those of the fired list,
  and \<^verbatim>\<open>bucket_remove\<close> writes them into the bucket the entry was filed in: the head of that bucket
  is overwritten when the entry is the first of the fired timers, the tail when it is the last, and
  both are cleared, whatever timers wait in the bucket, when it is the only one.
\<close>

theorem timer_cancel_fired:
  assumes inv: "timer_inv w ess fl" and few: "length (concat ess) < 2 ^ 64"
    and tick: "timer_tick now w = Some (first, n, w1)"
  shows "\<exists>fs. first = first_of fs None \<and> n = of_nat (length fs) \<and> seg (tw_entries w1) None fs None
    \<and> (\<forall>us e vs. fs = us @ e # vs \<longrightarrow> (\<exists>r w'. tw_entries w1 e = Some r \<and> te_slot r < tw_size w1
        \<and> timer_cancel (Some e) w1 = Some (True, w') \<and> tw_free w' = Some e
        \<and> (let i = unat (te_slot r); b = tw_buckets w1 ! i in
           tw_buckets w' = (tw_buckets w1)[i := b
             \<lparr>tb_head := (if us = [] then first_of vs None else tb_head b),
              tb_tail := (if vs = [] then last_of us None else tb_tail b)\<rparr>])))"
proof -
  obtain ticks l w2 ess' fs m where t: "tick_count now w = Some ticks"
    "timer_tick now w = Some (first_of fs None, of_nat (length fs), w2\<lparr>tw_min := m, tw_time := now\<rparr>)"
    "ticked now fl w ess [] l w2 ess' fs"
    by (rule timer_tick_ok [OF inv few, of now])
  have w1: "first = first_of fs None" "n = of_nat (length fs)" "w1 = w2\<lparr>tw_min := m, tw_time := now\<rparr>"
    using t(2) tick by simp_all
  have "linked w2 ess' fs fl" using t(3) by (simp add: ticked_def)
  then have lk: "linked w1 ess' fs fl" unfolding w1(3) by simp
  have sg: "seg (tw_entries w1) None fs None" and dfs: "distinct fs" using lk by (auto simp: linked_def)
  have "\<exists>r w'. tw_entries w1 e = Some r \<and> te_slot r < tw_size w1
        \<and> timer_cancel (Some e) w1 = Some (True, w') \<and> tw_free w' = Some e
        \<and> (let i = unat (te_slot r); b = tw_buckets w1 ! i in
           tw_buckets w' = (tw_buckets w1)[i := b
             \<lparr>tb_head := (if us = [] then first_of vs None else tb_head b),
              tb_tail := (if vs = [] then last_of us None else tb_tail b)\<rparr>])"
    if fs: "fs = us @ e # vs" for us e vs
  proof -
    have "\<exists>i < unat (tw_size w1). at_slot (tw_entries w1) i e" using lk fs unfolding linked_def by simp
    then obtain r where r: "tw_entries w1 e = Some r" "\<not> te_cancelled r" "te_slot r < tw_size w1"
      by (auto simp: at_slot_def word_less_nat_alt split: option.splits)
    have len: "unat (te_slot r) < length (tw_buckets w1)" using r(3) lk by (auto simp: linked_def word_less_nat_alt)
    let ?w = "w1\<lparr>tw_entries := (tw_entries w1)(e \<mapsto> r\<lparr>te_cancelled := True\<rparr>)\<rparr>"
    have "seg (tw_entries ?w) None (us @ e # vs) None"
      using sg dfs r(1) unfolding fs by (simp add: seg_append)
    moreover have "distinct (us @ e # vs)" "unat (te_slot r) < length (tw_buckets ?w)" using dfs fs len by simp_all
    ultimately obtain w3 where w3: "bucket_remove (unat (te_slot r)) e ?w = Some w3" "tw_entries w3 e \<noteq> None"
      "tw_buckets w3 = (tw_buckets w1)[unat (te_slot r) := (tw_buckets w1 ! unat (te_slot r))
        \<lparr>tb_head := (if us = [] then first_of vs None else tb_head (tw_buckets w1 ! unat (te_slot r))),
         tb_tail := (if vs = [] then last_of us None else tb_tail (tw_buckets w1 ! unat (te_slot r)))\<rparr>]"
      using bucket_remove_foreign [of ?w us e vs "unat (te_slot r)"] by auto
    obtain q where q: "tw_entries w3 e = Some q" using w3(2) by blast
    have "timer_cancel (Some e) w1 = Some (True, w3\<lparr>tw_entries := (tw_entries w3)(e \<mapsto>
        q\<lparr>te_next := tw_free w3, te_prev := None, te_cancelled := False\<rparr>), tw_free := Some e\<rparr>)"
      using r w3(1) q by (simp add: timer_cancel_def timer_entry_free_def upd_entry_def)
    then show ?thesis using r(1,3) w3(3) by (simp add: Let_def)
  qed
  then show ?thesis using w1(1,2) sg by blast
qed

text \<open>After the timer due at 110 has fired, the other one is pending; cancelling the fired one loses it.\<close>

definition ticked_wheel :: TimerWheel where
  "ticked_wheel = (case timer_tick 110 two_timers of Some (_, _, w) \<Rightarrow> w | None \<Rightarrow> two_timers)"

lemma timer_cancel_fired_witness:
  "map_option (\<lambda>(fired, n, w). (fired, n)) (timer_tick 110 two_timers) = Some (Some 0, 1)
    \<and> timer_has_pending ticked_wheel
    \<and> (\<exists>w'. timer_cancel (Some 0) ticked_wheel = Some (True, w') \<and> \<not> timer_has_pending w')"
proof -
  have i: "timer_inv two_timers [[], [0, 1]] []" by (rule two_timers_inv)
  have a: "map_option (\<lambda>(fired, n, w). (fired, n)) (timer_tick 110 two_timers) = Some (Some 0, 1)"
    "timer_has_pending ticked_wheel" "tb_head (tw_buckets ticked_wheel ! 0) = None"
    "length (tw_buckets ticked_wheel) = 2" "map_option te_slot (tw_entries ticked_wheel 0) = Some 1"
    by code_simp+
  have t: "timer_tick 110 two_timers = Some (Some 0, 1, ticked_wheel)"
    using a(1) by (auto simp: ticked_wheel_def)
  obtain fs where fs: "Some 0 = first_of fs None" "(1 :: u64) = of_nat (length fs)" "seg (tw_entries ticked_wheel) None fs None"
    "\<And>us e vs. fs = us @ e # vs \<Longrightarrow> \<exists>r w'. tw_entries ticked_wheel e = Some r \<and> te_slot r < tw_size ticked_wheel
        \<and> timer_cancel (Some e) ticked_wheel = Some (True, w') \<and> tw_free w' = Some e
        \<and> (let i = unat (te_slot r); b = tw_buckets ticked_wheel ! i in
           tw_buckets w' = (tw_buckets ticked_wheel)[i := b
             \<lparr>tb_head := (if us = [] then first_of vs None else tb_head b),
              tb_tail := (if vs = [] then last_of us None else tb_tail b)\<rparr>])"
    using timer_cancel_fired [OF i _ t] by auto
  have "te_next (the (tw_entries ticked_wheel 0)) = None" by code_simp
  then have "fs = [0]" using fs(1,3) by (cases fs; cases "tl fs") (auto split: option.splits)
  then obtain w' where w': "timer_cancel (Some 0) ticked_wheel = Some (True, w')"
    "tw_buckets w' = (tw_buckets ticked_wheel)[1 := (tw_buckets ticked_wheel ! 1)\<lparr>tb_head := None, tb_tail := None\<rparr>]"
    using fs(4) [of "[]" 0 "[]"] a(5) by (auto simp: Let_def)
  obtain b0 b1 where "tw_buckets ticked_wheel = [b0, b1]"
    using a(4) by (auto simp: length_Suc_conv numeral_2_eq_2)
  then have "\<not> timer_has_pending w'" using a(3) w'(2) by (simp add: timer_has_pending_def)
  then show ?thesis using a(1,2) w'(1) by blast
qed

end
