(* ===== verification/Spec2Isabelle.thy ===== *)
theory Spec2Isabelle
  imports RegCorrect Mailbox Timer
begin

text \<open>
  A verification development of the runtime of Agim, a language of isolated processes written in C.
  Paths below are relative to \<^verbatim>\<open>src/src\<close>.

  \<^bold>\<open>The program.\<close> Source text becomes tokens (\<^verbatim>\<open>lang/lexer.c\<close>), a syntax tree and code for one of two
  machines, a stack machine (\<^verbatim>\<open>vm/vm.c\<close>) and a register machine (\<^verbatim>\<open>vm/regvm.c\<close>, fed by
  \<^verbatim>\<open>lang/regcompiler.c\<close> with registers from \<^verbatim>\<open>lang/regalloc.c\<close>). Values are either NaN-boxed words
  (\<^verbatim>\<open>vm/nanbox.h\<close>) or heap cells with reference counts and copy-on-write containers (\<^verbatim>\<open>vm/value.c\<close>,
  \<^verbatim>\<open>types/\<close>). Processes own a mailbox (\<^verbatim>\<open>runtime/mailbox.c\<close>), wait on timers (\<^verbatim>\<open>runtime/timer.c\<close>) and
  are run by worker threads.

  \<^bold>\<open>Conventions.\<close> Machine integers are words, sizes are natural numbers with the wrap-around written
  out (\<open>sz\<close>) or words where it matters. Undefined behaviour of C (null or dangling pointers, unchecked
  allocations, division by zero) is the value \<open>None\<close> of the option monad, so a lemma that an
  operation returns \<open>Some\<close> says that it is memory safe. Allocation failure is an argument: the store
  has an oracle \<open>oom\<close>, other components take the allocator's answer. Null checks of handles
  (\<^verbatim>\<open>if (!wheel) return\<close>) are left out where the handle is the state that is passed.

  \<^bold>\<open>The theories.\<close>

  \<^item> \<^verbatim>\<open>Prelude\<close>: machine integers, sizes, the capacity-doubling loop shared by the growing buffers,
    C strings, the remove-by-swap idiom.
  \<^item> \<^verbatim>\<open>Hash\<close> (\<^verbatim>\<open>util/hash.c\<close>): FNV-1a; both entry points agree, one changed byte changes the hash.
  \<^item> \<^verbatim>\<open>Float64\<close>, \<^verbatim>\<open>Nanbox\<close> (\<^verbatim>\<open>vm/nanbox.h\<close>): doubles as bit patterns; encoders and decoders of boxed
    values round-trip, integers wrap at 48 bits, equality is an equivalence away from NaN.
  \<^item> \<^verbatim>\<open>RegAlloc\<close> (\<^verbatim>\<open>lang/regalloc.c\<close>): after any sequence of calls locals never alias each other or a
    register that counts as temporary; a temporary handed out with room left is fresh; a local
    declared while a temporary is live takes its register.
  \<^item> \<^verbatim>\<open>Lexer\<close> (\<^verbatim>\<open>lang/lexer.c\<close>): a cursor over the source. Tokens are slices of the source, the lexer
    reaches the end of every input, peeking does not change what follows, words are lexed by
    longest match. The counters are 32-bit; line and column of a token are exact in sources of less
    than \<open>2^31 - 1\<close> characters without a backslash before a newline, and the line falls behind by
    the number of escaped newlines in strings. The locales \<open>cursor_inv\<close> and \<open>lexer_inv\<close> lift a
    property of single cursor steps to the whole interface.
  \<^item> \<^verbatim>\<open>Store\<close>, \<^verbatim>\<open>Ownership\<close>, \<^verbatim>\<open>Cow\<close> (\<^verbatim>\<open>vm/value.c\<close>, \<^verbatim>\<open>util/alloc.c\<close>): heap cells, reference counts and the
    predicate \<open>owns R s\<close> (every count is the number of references from cells and from \<open>R\<close>);
    freeing keeps it, releases everything unreachable and terminates. The references of a cell are
    what \<open>children\<close> lists, the values that \<^verbatim>\<open>value_free\<close> goes on to; the upvalues of a closure are not
    among them, neither in the source nor here. The locale \<open>cow_container\<close> is the contract between
    the copy-on-write discipline and a container type.
  \<^item> \<^verbatim>\<open>ArrayType\<close>, \<^verbatim>\<open>StringType\<close>, \<^verbatim>\<open>MapType\<close> (\<^verbatim>\<open>types/\<close>): the containers. Arrays and maps interpret the locale, strings
    are immutable. The operations are modelled with their behaviour on allocation failure; the
    properties on results and reference counts (append, remove, replace an item, set and delete a
    key, split and join, replace, intern) assume that memory is available. Maps and arrays have no
    upper bound on their capacity. Setting a key refines the update of a finite map as long as the
    key is not stored behind the sixteen entries of its chain a lookup follows.
  \<^item> \<^verbatim>\<open>Mailbox\<close> (\<^verbatim>\<open>runtime/mailbox.c\<close>): the lock-free queue, with all interleavings of the steps of
    producers and the consumer; a step is one access that others can observe, with the private
    accesses around it (the theory says which are joined). First-in first-out, progress, the limits
    on messages and bytes under every overflow policy, and two accounting faults.
    The locale \<open>fifo\<close> is the queue contract, interpreted on the sequential operations.
  \<^item> \<^verbatim>\<open>Timer\<close> (\<^verbatim>\<open>runtime/timer.c\<close>): the timer wheel with its doubly linked buckets; ticking loses no timer,
    fires only due ones and all due ones in the slots it visits; cancelling a timer that a tick has
    returned damages the bucket it was filed in.
  \<^item> \<^verbatim>\<open>Ast\<close> (\<^verbatim>\<open>lang/ast.h\<close>): the syntax tree as a datatype, one constructor per node type.
  \<^item> \<^verbatim>\<open>FloatArith\<close>: the arithmetic of doubles the machine uses, on bit patterns, with rounding to
    nearest even.
  \<^item> \<^verbatim>\<open>RegVM\<close> (\<^verbatim>\<open>vm/regvm.c\<close>): instruction words, chunks, the operations on tagged values and the dispatch
    loop of the register machine. An opcode without an entry in the dispatch table, a read of a
    register never written and a fetch outside the code are undefined.
  \<^item> \<^verbatim>\<open>RegCompiler\<close> (\<^verbatim>\<open>lang/regcompiler.c\<close>): the compiler from syntax trees to chunks, with scopes, locals,
    constants and jump patching.
  \<^item> \<^verbatim>\<open>RegCorrect\<close>: a reference evaluator of expressions over literals, operators and conditionals, and
    the proof that compiled code that needs at most 255 registers runs to its value; the jump that
    closes a while loop, which the machine reads as a forward jump.

  \<^bold>\<open>Bounds and fuel.\<close> No definition takes fuel. Loops over pointer chains are
  \<^verbatim>\<open>partial_function (option)\<close>, where not returning is \<open>None\<close>; the properties prove that they return.
  A run of the register machine is a \<^verbatim>\<open>partial_function\<close> too, and the compiler's correctness proves that
  it ends. Hypotheses such as \<open>room n s\<close> (no count is within \<open>n\<close> of overflow) and lengths below \<open>2 ^ 64\<close> are
  the physical limits of a 64-bit address space.

  \<^bold>\<open>Not modelled.\<close> Parser, stack-machine compiler and stack machine; scheduler threads, supervisors and
  distribution; files, sockets, logging and the built-in libraries (input and output only); the
  vendored TLS library.
\<close>

end
